(* ===== verification/NS_Prelude.thy ===== *)
theory NS_Prelude
  imports Main "HOL-Library.Word" "HOL-Library.Monad_Syntax"
begin

unbundle bit_operations_syntax

section \<open>Prelude: machine types, C memory, undefined behaviour\<close>

text \<open>
  The conventions every other theory of the development relies on.

  \<^item> A C integer type is a word of its width. The target is LP64 and little endian
    (Linux and macOS on x86-64 and arm64): \<open>size_t\<close> has 64 bits, its arithmetic wraps.
  \<^item> A pointer into a buffer is the list of the cells from the pointed-to cell to the end of
    the object, so \<open>data + k\<close> is \<open>drop k data\<close>; the number of cells a function may
    touch is the length of that list, whatever length the caller passes beside it.
  \<^item> A computation returns an \<open>option\<close>. \<open>None\<close> is undefined behaviour: a read
    or a write outside the object, a pointer formed past its end, the use of a variable that was
    never assigned, the read of a union member that is not the one stored, a string with no
    terminator. A theorem that a function returns \<open>Some\<close> is therefore a memory-safety
    theorem about every access the C code makes.
\<close>

named_theorems cmem \<open>evaluation of in-bounds memory accesses\<close>
named_theorems unats \<open>reading words as natural numbers\<close>
named_theorems wire \<open>fields of a packet laid out as a concatenation\<close>
named_theorems cdefs \<open>definitions of the model's record constants and small helpers\<close>

type_synonym u8 = "8 word"
type_synonym u16 = "16 word"
type_synonym u32 = "32 word"
type_synonym u64 = "64 word"
type_synonym size_t = "64 word"

type_synonym bytes = "u8 list"

subsection \<open>Memory accesses\<close>

text \<open>\<open>p + off\<close>: defined up to one past the end of the object.\<close>

definition ptr_add :: "'a list \<Rightarrow> size_t \<Rightarrow> 'a list option" where
  "ptr_add p off = (if unat off \<le> length p then Some (drop (unat off) p) else None)"

text \<open>\<open>p[i]\<close> as a value, and the assignment \<open>p[i] = v\<close>.\<close>

definition mem_get :: "'a list \<Rightarrow> size_t \<Rightarrow> 'a option" where
  "mem_get p i = (if unat i < length p then Some (p ! unat i) else None)"

definition mem_set :: "'a list \<Rightarrow> size_t \<Rightarrow> 'a \<Rightarrow> 'a list option" where
  "mem_set p i v = (if unat i < length p then Some (p[unat i := v]) else None)"

text \<open>The source side of \<open>memcpy(_, p + off, n)\<close> and the target side of
  \<open>memcpy(p + off, src, n)\<close>.\<close>

definition mem_read :: "'a list \<Rightarrow> size_t \<Rightarrow> size_t \<Rightarrow> 'a list option" where
  "mem_read p off n =
     (if unat off + unat n \<le> length p then Some (take (unat n) (drop (unat off) p)) else None)"

definition mem_write :: "'a list \<Rightarrow> size_t \<Rightarrow> 'a list \<Rightarrow> 'a list option" where
  "mem_write p off src =
     (if unat off + length src \<le> length p
      then Some (take (unat off) p @ src @ drop (unat off + length src) p) else None)"

text \<open>
  A function that reports success as \<open>bool\<close> and stores its result through a pointer is
  modelled as returning \<open>'a option\<close> inside the computation (\<open>None\<close>: it returned
  false and stored nothing). A caller that ignores the returned \<open>bool\<close> and then uses the
  variable uses an unassigned variable when the call failed.
\<close>

definition out_param :: "'a option option \<Rightarrow> 'a option" where
  "out_param r = Option.bind r (\<lambda>v. v)"

lemma out_param_simps [simp]:
  "out_param None = None" "out_param (Some v) = v"
  by (simp_all add: out_param_def)

lemma ptr_add_in [cmem]: "unat off \<le> length p \<Longrightarrow> ptr_add p off = Some (drop (unat off) p)"
  by (simp add: ptr_add_def)

lemma mem_get_in [cmem]: "unat i < length p \<Longrightarrow> mem_get p i = Some (p ! unat i)"
  by (simp add: mem_get_def)

lemma mem_set_in [cmem]: "unat i < length p \<Longrightarrow> mem_set p i v = Some (p[unat i := v])"
  by (simp add: mem_set_def)

lemma mem_read_in [cmem]:
  "unat off + unat n \<le> length p \<Longrightarrow> mem_read p off n = Some (take (unat n) (drop (unat off) p))"
  by (simp add: mem_read_def)

lemma mem_write_in [cmem]:
  "unat off + length src \<le> length p \<Longrightarrow>
     mem_write p off src = Some (take (unat off) p @ src @ drop (unat off + length src) p)"
  by (simp add: mem_write_def)

lemma mem_set_length: "mem_set p i v = Some q \<Longrightarrow> length q = length p"
  by (auto simp: mem_set_def split: if_splits)

lemma mem_write_length: "mem_write p off src = Some q \<Longrightarrow> length q = length p"
  by (auto simp: mem_write_def split: if_splits)

lemma mem_read_length: "mem_read p off n = Some bs \<Longrightarrow> length bs = unat n"
  by (auto simp: mem_read_def split: if_splits)

subsection \<open>Words as natural numbers\<close>

lemma unat_add_le:
  fixes a b c :: "'a::len word"
  assumes "unat a + unat b \<le> unat c"
  shows "unat (a + b) = unat a + unat b"
proof -
  have "unat c < 2 ^ LENGTH('a)" by simp
  with assms have "unat a + unat b < 2 ^ LENGTH('a)" by linarith
  then show ?thesis by (simp add: unat_word_ariths)
qed

lemma unat_sub_le [unats]:
  fixes a b :: "'a::len word"
  shows "unat b \<le> unat a \<Longrightarrow> unat (a - b) = unat a - unat b"
  by (rule unat_sub) (simp add: word_le_nat_alt)

lemma unat_Suc_less:
  fixes a b :: "'a::len word"
  assumes "unat a < unat b"
  shows "unat (a + 1) = Suc (unat a)"
proof -
  have "unat b < 2 ^ LENGTH('a)" by simp
  with assms have "Suc (unat a) < 2 ^ LENGTH('a)" by linarith
  then show ?thesis by (simp add: unat_word_ariths)
qed

lemma unat_ucast_up [unats]:
  "LENGTH('a::len) \<le> LENGTH('b::len) \<Longrightarrow> unat (ucast (w :: 'a word) :: 'b word) = unat w"
  by (simp add: unsigned_ucast_eq take_bit_nat_eq_self unsigned_less
      order_less_le_trans [OF unsigned_less])

lemma unat_lt_256: "unat (w :: u8) < 256"
  using unsigned_less [of w] by simp

lemma unat_lt_65536: "unat (w :: u16) < 65536"
  using unsigned_less [of w] by simp

lemma unat_lt_2p32: "unat (w :: u32) < 4294967296"
  using unsigned_less [of w] by simp

lemma unat_lt_2p64: "unat (w :: u64) < 18446744073709551616"
  using unsigned_less [of w] by simp

lemma unat_drop_bit [unats]:
  "unat (drop_bit n (w :: 'a::len word)) = unat w div 2 ^ n"
  by (subst unat_drop_bit_eq) (simp add: drop_bit_eq_div)

lemma unat_take_bit [unats]:
  "unat (take_bit n (w :: 'a::len word)) = unat w mod 2 ^ n"
  by (subst unsigned_take_bit_eq) (simp add: take_bit_eq_mod)

lemma unat_and_mask [unats]:
  "unat (w AND mask n :: 'a::len word) = unat w mod 2 ^ n"
  by (simp only: unat_take_bit flip: take_bit_eq_mask)

lemma push_bit_or_nat: "y < 2 ^ n \<Longrightarrow> push_bit n x OR y = x * 2 ^ n + (y :: nat)"
proof -
  assume y: "y < 2 ^ n"
  have "push_bit n x AND y = 0"
  proof (rule bit_eqI)
    fix m
    have "\<not> bit y m" if "n \<le> m"
      using y that by (metis bit_take_bit_iff not_le take_bit_nat_eq_self)
    then show "bit (push_bit n x AND y) m = bit 0 m"
      by (auto simp: bit_simps not_le)
  qed
  then have "push_bit n x OR y = push_bit n x + y"
    by (simp add: disjunctive_add_eq_or)
  then show ?thesis by (simp add: push_bit_eq_mult)
qed

lemma unat_shift_or_byte:
  fixes v :: "'a::len word" and b :: u8
  assumes "8 \<le> LENGTH('a)" and "unat v * 256 < 2 ^ LENGTH('a)"
  shows "unat (push_bit 8 v OR ucast b) = unat v * 256 + unat b"
proof -
  have "unat (push_bit 8 v) = unat v * 256"
    using assms(2) by (subst unsigned_push_bit_eq) (simp add: push_bit_eq_mult take_bit_nat_eq_self)
  moreover have "unat (ucast b :: 'a word) = unat b"
    using assms(1) by (simp add: unat_ucast_up)
  ultimately have "unat (push_bit 8 v OR ucast b) = push_bit 8 (unat v) OR unat b"
    by (subst unsigned_or_eq) (simp add: push_bit_eq_mult)
  also have "\<dots> = unat v * 2 ^ 8 + unat b"
    by (rule push_bit_or_nat) (use unat_lt_256 [of b] in simp)
  finally show ?thesis by simp
qed

lemma and_exp_neq_0:
  "n < LENGTH('a) \<Longrightarrow> (w AND 2 ^ n :: 'a::len word) \<noteq> 0 \<longleftrightarrow> odd (unat w div 2 ^ n)"
  by (simp add: and_exp_eq_0_iff_not_bit bit_unsigned_iff flip: bit_iff_odd)

end
