(* ===== verification/NS_CString.thy ===== *)
theory NS_CString
  imports NS_Prelude
begin

section \<open>C strings and formatted output\<close>

text \<open>
  What the sources use of \<^verbatim>\<open><string.h>\<close> and \<^verbatim>\<open><stdio.h>\<close>: \<open>char\<close> arrays, NUL-terminated
  strings, \<open>strcmp\<close>, \<open>snprintf\<close> and the conversions \<open>%u\<close>, \<open>%d\<close>,
  \<open>%x\<close>, \<open>%02x\<close>, \<open>%04x\<close>. A \<open>char\<close> array is the list of its cells; reading it
  as a string is undefined when no terminator lies inside the array. \<open>snprintf\<close> writes at
  most \<open>n - 1\<close> characters and a terminator and returns the untruncated length.
\<close>

type_synonym cbuf = "char list"

abbreviation NUL :: char where "NUL \<equiv> CHR 0x00"

text \<open>Automatic storage that was never written: its cells hold a byte that is no terminator, so a
  string read that relied on it would be undefined.\<close>

definition stack_buf :: "nat \<Rightarrow> cbuf" where
  "stack_buf n = replicate n (CHR 0xCC)"

definition c_str :: "cbuf \<Rightarrow> string option" where
  "c_str p = (if NUL \<in> set p then Some (takeWhile (\<lambda>c. c \<noteq> NUL) p) else None)"

fun strcmp_str :: "string \<Rightarrow> string \<Rightarrow> int" where
  "strcmp_str [] [] = 0"
| "strcmp_str [] (b # bs) = -1"
| "strcmp_str (a # as) [] = 1"
| "strcmp_str (a # as) (b # bs) =
     (if (of_char a :: nat) < of_char b then -1
      else if (of_char a :: nat) > of_char b then 1
      else strcmp_str as bs)"

definition strcmp :: "cbuf \<Rightarrow> cbuf \<Rightarrow> int option" where
  "strcmp p q = do { s \<leftarrow> c_str p; t \<leftarrow> c_str q; Some (strcmp_str s t) }"

definition snprintf :: "cbuf \<Rightarrow> size_t \<Rightarrow> size_t \<Rightarrow> string \<Rightarrow> (cbuf \<times> int) option" where
  "snprintf p pos n s =
     (if n = 0 then Some (p, int (length s))
      else do { p' \<leftarrow> mem_write p pos (take (unat n - 1) s @ [NUL]); Some (p', int (length s)) })"

definition digit_char :: "nat \<Rightarrow> char" where
  "digit_char d = (if d < 10 then char_of (48 + d) else char_of (87 + d))"

fun show_base :: "nat \<Rightarrow> nat \<Rightarrow> string" where
  "show_base b n =
     (if n < b \<or> b < 2 then [digit_char n] else show_base b (n div b) @ [digit_char (n mod b)])"

declare show_base.simps [simp del]

abbreviation dec :: "nat \<Rightarrow> string" where "dec \<equiv> show_base 10"
abbreviation hex :: "nat \<Rightarrow> string" where "hex \<equiv> show_base 16"

definition show_int :: "int \<Rightarrow> string" where
  "show_int i = (if i < 0 then CHR ''-'' # dec (nat (- i)) else dec (nat i))"

definition zero_pad :: "nat \<Rightarrow> string \<Rightarrow> string" where
  "zero_pad w s = replicate (w - length s) CHR ''0'' @ s"

subsection \<open>Strings in buffers\<close>

definition nul_free :: "string \<Rightarrow> bool" where
  "nul_free s \<longleftrightarrow> NUL \<notin> set s"

lemma nul_free_simps [simp]:
  "nul_free []" "nul_free (c # s) \<longleftrightarrow> c \<noteq> NUL \<and> nul_free s"
  "nul_free (s @ t) \<longleftrightarrow> nul_free s \<and> nul_free t"
  by (auto simp: nul_free_def)

lemma nul_free_take [simp]: "nul_free s \<Longrightarrow> nul_free (take n s)"
  by (auto simp: nul_free_def dest: in_set_takeD)

lemma c_str_terminated: "nul_free s \<Longrightarrow> c_str (s @ NUL # rest) = Some s"
  by (subst c_str_def, subst takeWhile_append2) (auto simp: nul_free_def)

lemma c_str_nul_free: "c_str p = Some s \<Longrightarrow> nul_free s"
  by (auto simp: c_str_def nul_free_def split: if_splits dest: set_takeWhileD)

lemma c_str_length: "c_str p = Some s \<Longrightarrow> length s < length p"
proof -
  assume s: "c_str p = Some s"
  then have "NUL \<in> set p" and "s = takeWhile (\<lambda>c. c \<noteq> NUL) p"
    by (auto simp: c_str_def split: if_splits)
  then show ?thesis
    by (metis length_takeWhile_le nat_less_le takeWhile_eq_take set_takeWhileD take_all_iff
        order_refl)
qed

lemma snprintf_fits:
  assumes "unat pos + length s < length p" "unat n = length p - unat pos"
  shows "snprintf p pos n s =
    Some (take (unat pos) p @ s @ NUL # drop (Suc (unat pos + length s)) p, int (length s))"
proof -
  have n: "n \<noteq> 0" "length s \<le> unat n - 1" using assms by auto
  then show ?thesis using assms by (simp add: snprintf_def mem_write_def)
qed

text \<open>The whole buffer as target, as in \<open>snprintf(buf, sizeof(buf), ...)\<close>: always defined,
  and the buffer then holds the text, cut to the buffer's size less one.\<close>

lemma snprintf_whole:
  assumes "nul_free s" and "unat n = length p" and "0 < length p"
  obtains q where "snprintf p 0 n s = Some (q, int (length s))"
    "length q = length p" "c_str q = Some (take (length p - 1) s)"
proof -
  let ?t = "take (length p - 1) s"
  let ?q = "?t @ NUL # drop (Suc (length ?t)) p"
  from assms have "n \<noteq> 0" by auto
  moreover have "Suc (length ?t) \<le> length p" using assms(3) by (cases p) auto
  ultimately have "snprintf p 0 n s = Some (?q, int (length s))" "length ?q = length p"
    using assms by (simp_all add: snprintf_def mem_write_def)
  moreover have "c_str ?q = Some ?t"
    using assms(1) by (intro c_str_terminated) simp
  ultimately show thesis using that by blast
qed

lemma strcmp_str_eq_0 [simp]: "strcmp_str s t = 0 \<longleftrightarrow> s = t"
proof (induction s t rule: strcmp_str.induct)
  case (4 a as b bs)
  have "of_char a = (of_char b :: nat) \<longleftrightarrow> a = b"
    by (metis char_of_char)
  with 4 show ?case by auto
qed auto

lemma strcmp_str_swap: "strcmp_str t s = - strcmp_str s t"
  by (induction s t rule: strcmp_str.induct) auto

subsection \<open>Numbers as text\<close>

lemma show_base_not_Nil [simp]: "show_base b n \<noteq> []"
  by (subst show_base.simps) simp

lemma length_show_base:
  "2 \<le> b \<Longrightarrow> n < b ^ Suc k \<Longrightarrow> length (show_base b n) \<le> Suc k"
proof (induction k arbitrary: n)
  case 0
  then show ?case by (subst show_base.simps) simp
next
  case (Suc k)
  show ?case
  proof (cases "n < b")
    case True
    then show ?thesis by (subst show_base.simps) simp
  next
    case False
    have "n div b < b ^ Suc k"
      using Suc.prems by (simp add: less_mult_imp_div_less mult.commute)
    with Suc.IH Suc.prems(1) have "length (show_base b (n div b)) \<le> Suc k" by blast
    with False Suc.prems(1) show ?thesis by (subst show_base.simps) simp
  qed
qed

lemma set_show_base:
  "2 \<le> b \<Longrightarrow> set (show_base b n) \<subseteq> digit_char ` {..<b}"
proof (induction n rule: less_induct)
  case (less n)
  show ?case
  proof (cases "n < b")
    case True
    then show ?thesis by (subst show_base.simps) simp
  next
    case False
    then have "n div b < n" using less.prems by simp
    with less False show ?thesis by (subst show_base.simps) auto
  qed
qed

text \<open>The character code of a digit, and reading a digit and a numeral back.\<close>

lemma of_digit_char: "d < 16 \<Longrightarrow> (of_char (digit_char d) :: nat) = (if d < 10 then 48 + d else 87 + d)"
  by (simp add: digit_char_def)

definition digit_val :: "char \<Rightarrow> nat" where
  "digit_val c = (if of_char c < (58::nat) then of_char c - 48 else of_char c - 87)"

definition read_base :: "nat \<Rightarrow> string \<Rightarrow> nat" where
  "read_base b s = foldl (\<lambda>v c. v * b + digit_val c) 0 s"

lemma digit_val_char: "d < 16 \<Longrightarrow> digit_val (digit_char d) = d"
  by (simp add: digit_val_def of_digit_char)

lemma read_show_base: "2 \<le> b \<Longrightarrow> b \<le> 16 \<Longrightarrow> read_base b (show_base b n) = n"
proof (induction n rule: less_induct)
  case (less n)
  show ?case
  proof (cases "n < b")
    case True
    then show ?thesis
      using less.prems by (subst show_base.simps) (simp add: read_base_def digit_val_char)
  next
    case False
    then have "n div b < n" using less.prems by simp
    with less have "read_base b (show_base b (n div b)) = n div b" by blast
    moreover have "n mod b < 16" using less.prems by (meson mod_less_divisor less_le_trans
          zero_less_numeral)
    ultimately show ?thesis
      using False less.prems by (subst show_base.simps) (simp add: read_base_def digit_val_char)
  qed
qed

lemma show_base_inject: "2 \<le> b \<Longrightarrow> b \<le> 16 \<Longrightarrow> show_base b m = show_base b n \<longleftrightarrow> m = n"
  by (metis read_show_base)

lemma show_base_code:
  assumes "2 \<le> b" "b \<le> 16" "c \<in> set (show_base b n)"
  shows "(48 \<le> (of_char c :: nat) \<and> of_char c < (58::nat)) \<or> (97 \<le> (of_char c :: nat) \<and> of_char c < (103::nat))"
proof -
  from set_show_base [OF assms(1)] assms(3) obtain d where "d < b" "c = digit_char d" by blast
  with assms(2) show ?thesis by (simp add: of_digit_char)
qed

lemma show_base_nul_free [simp]: "2 \<le> b \<Longrightarrow> b \<le> 16 \<Longrightarrow> nul_free (show_base b n)"
  using show_base_code [of b NUL n] by (auto simp: nul_free_def)

lemma separator_cases:
  "c \<notin> set s \<Longrightarrow> c \<notin> set t \<Longrightarrow> s @ c # s' = t @ c # t' \<longleftrightarrow> s = t \<and> s' = t'"
proof (induction s arbitrary: t)
  case Nil
  then show ?case by (cases t) auto
next
  case (Cons a s)
  then show ?case by (cases t) auto
qed

subsection \<open>Text built up piece by piece\<close>

fun join :: "string \<Rightarrow> string list \<Rightarrow> string" where
  "join sep [] = []"
| "join sep [s] = s"
| "join sep (s # t # ss) = s @ sep @ join sep (t # ss)"

lemma join_Cons: "join sep (s # ss) = s @ (if ss = [] then [] else sep @ join sep ss)"
  by (cases ss) simp_all

lemma join_snoc: "join sep (ss @ [s]) = (if ss = [] then s else join sep ss @ sep @ s)"
  by (induction ss) (simp_all add: join_Cons)

lemma join_nul_free: "nul_free sep \<Longrightarrow> (\<And>s. s \<in> set ss \<Longrightarrow> nul_free s) \<Longrightarrow> nul_free (join sep ss)"
  by (induction ss) (auto simp: join_Cons)

lemma length_join:
  assumes "ss \<noteq> []" "\<And>s. s \<in> set ss \<Longrightarrow> length s \<le> k"
  shows "Suc (length (join [c] ss)) \<le> Suc k * length ss"
  using assms
proof (induction ss)
  case (Cons s ss)
  then show ?case by (cases "ss = []") (force simp: join_Cons)+
qed simp

lemma join_inject:
  assumes "xs \<noteq> []" "ys \<noteq> []" "\<And>s. s \<in> set xs \<Longrightarrow> c \<notin> set s" "\<And>s. s \<in> set ys \<Longrightarrow> c \<notin> set s"
    and "join [c] xs = join [c] ys"
  shows "xs = ys"
  using assms
proof (induction xs arbitrary: ys)
  case (Cons x xs)
  then obtain y ys' where ys: "ys = y # ys'" by (cases ys) auto
  have c: "c \<notin> set x" "c \<notin> set y" using Cons.prems ys by auto
  have two: "c \<in> set (join [c] (z # zs))" if "zs \<noteq> []" for z zs using that by (simp add: join_Cons)
  show ?case
  proof (cases "xs = [] \<or> ys' = []")
    case True
    have "xs = [] \<longleftrightarrow> ys' = []"
    proof (rule ccontr)
      assume "(xs = []) \<noteq> (ys' = [])"
      with True consider "xs = []" "ys' \<noteq> []" | "xs \<noteq> []" "ys' = []" by blast
      then show False using two [of ys' y] two [of xs x] c Cons.prems(5) ys by cases auto
    qed
    with True Cons.prems(5) ys show ?thesis by simp
  next
    case False
    with Cons.prems(5) ys have "x @ c # join [c] xs = y @ c # join [c] ys'" by (simp add: join_Cons)
    then have eq: "x = y" "join [c] xs = join [c] ys'" using separator_cases [OF c] by simp_all
    moreover have "xs = ys'" using Cons.prems(3,4) ys False eq(2) by (intro Cons.IH) simp_all
    ultimately show ?thesis using ys by simp
  qed
qed simp

text \<open>A buffer whose first cells hold \<open>acc\<close>; \<open>snprintf(buf + pos, buf_len - pos, ...)\<close> with
  \<open>pos\<close> at the end of that text appends to it when there is room.\<close>

definition holds :: "cbuf \<Rightarrow> string \<Rightarrow> bool" where
  "holds p acc \<longleftrightarrow> take (length acc) p = acc"

lemma holds_Nil [simp]: "holds p []"
  by (simp add: holds_def)

lemma holds_length: "holds p acc \<Longrightarrow> length acc \<le> length p"
  by (metis holds_def length_take min.cobounded1)

lemma holds_c_str: "holds p acc \<Longrightarrow> nul_free acc \<Longrightarrow> length acc < length p \<Longrightarrow> p ! length acc = NUL \<Longrightarrow>
    c_str p = Some acc"
proof -
  assume a: "holds p acc" "nul_free acc" "length acc < length p" "p ! length acc = NUL"
  then have "p = acc @ NUL # drop (Suc (length acc)) p"
    by (metis holds_def append_take_drop_id Cons_nth_drop_Suc)
  with a(2) c_str_terminated [of acc "drop (Suc (length acc)) p"] show ?thesis by simp
qed

lemma snprintf_append:
  assumes "holds p acc" "unat pos = length acc" "unat len = length p"
    and "length acc + length s < length p"
  obtains q where "snprintf p pos (len - pos) s = Some (q, int (length s))" "length q = length p"
    "holds q (acc @ s)" "q ! length (acc @ s) = NUL"
proof -
  let ?q = "acc @ s @ NUL # drop (Suc (length acc + length s)) p"
  have "unat (len - pos) = length p - length acc"
    using assms by (simp add: unat_sub_le)
  then have "snprintf p pos (len - pos) s = Some (?q, int (length s))"
    using assms snprintf_fits [of pos s p "len - pos"] by (simp add: holds_def)
  moreover have "length ?q = length p" "holds ?q (acc @ s)" "?q ! length (acc @ s) = NUL"
    using assms by (simp_all add: holds_def nth_append)
  ultimately show thesis using that by blast
qed

lemma mem_set_append:
  assumes "holds p acc" "unat pos = length acc" "length acc < length p" "length p < 2 ^ 64"
  obtains q where "mem_set p pos c = Some q" "length q = length p" "holds q (acc @ [c])"
    "unat (pos + 1) = length (acc @ [c])"
proof -
  have "take (Suc (length acc)) (p[length acc := c]) = acc @ [c]"
    using assms by (simp add: holds_def take_Suc_conv_app_nth take_update_cancel)
  moreover have "unat (pos + 1) = Suc (length acc)"
    using assms by (simp add: unat_word_ariths)
  ultimately show thesis
    using that [of "p[length acc := c]"] assms by (simp add: mem_set_def holds_def)
qed

end
