(* ===== verification/NS_Util.thy ===== *)
theory NS_Util
  imports NS_CString
begin

section \<open>util.c: bounds checks and big-endian readers\<close>

text \<open>
  \<open>ns_bounds_check\<close> and the four readers \<open>ns_read_u8\<close>, \<open>ns_read_u16_be\<close>,
  \<open>ns_read_u32_be\<close>, \<open>ns_read_u64_be\<close>, through which the protocol parsers touch packet
  bytes. The lemmas show that the check is exactly \<open>offset + size \<le> length\<close> without
  overflow, that a reader that accepts reads the big-endian value of its window and never
  leaves the buffer, and that a reader that refuses touches nothing. The interface the parsers
  use is the locale \<open>be_reader\<close>, interpreted on each of the four readers.
\<close>

definition ns_bounds_check :: "size_t \<Rightarrow> size_t \<Rightarrow> size_t \<Rightarrow> bool" where
  "ns_bounds_check len offset sz = (if offset > len then False else sz \<le> len - offset)"

definition ns_read_u8 :: "bytes \<Rightarrow> size_t \<Rightarrow> size_t \<Rightarrow> u8 option option" where
  "ns_read_u8 data len offset =
     (if \<not> ns_bounds_check len offset 1 then Some None
      else do { b \<leftarrow> mem_get data offset; Some (Some b) })"

definition ns_read_u16_be :: "bytes \<Rightarrow> size_t \<Rightarrow> size_t \<Rightarrow> u16 option option" where
  "ns_read_u16_be data len offset =
     (if \<not> ns_bounds_check len offset 2 then Some None
      else do {
        b0 \<leftarrow> mem_get data offset;
        b1 \<leftarrow> mem_get data (offset + 1);
        Some (Some (push_bit 8 (ucast b0) OR ucast b1)) })"

definition ns_read_u32_be :: "bytes \<Rightarrow> size_t \<Rightarrow> size_t \<Rightarrow> u32 option option" where
  "ns_read_u32_be data len offset =
     (if \<not> ns_bounds_check len offset 4 then Some None
      else do {
        b0 \<leftarrow> mem_get data offset;
        b1 \<leftarrow> mem_get data (offset + 1);
        b2 \<leftarrow> mem_get data (offset + 2);
        b3 \<leftarrow> mem_get data (offset + 3);
        Some (Some (push_bit 24 (ucast b0) OR push_bit 16 (ucast b1) OR
                    push_bit 8 (ucast b2) OR ucast b3)) })"

text \<open>The loop of \<open>ns_read_u64_be\<close>, with the number of iterations still to run.\<close>

primrec ns_read_u64_be_loop :: "nat \<Rightarrow> bytes \<Rightarrow> size_t \<Rightarrow> size_t \<Rightarrow> u64 \<Rightarrow> u64 option" where
  "ns_read_u64_be_loop 0 data offset i v = Some v"
| "ns_read_u64_be_loop (Suc n) data offset i v = do {
     b \<leftarrow> mem_get data (offset + i);
     ns_read_u64_be_loop n data offset (i + 1) (push_bit 8 v OR ucast b) }"

definition ns_read_u64_be :: "bytes \<Rightarrow> size_t \<Rightarrow> size_t \<Rightarrow> u64 option option" where
  "ns_read_u64_be data len offset =
     (if \<not> ns_bounds_check len offset 8 then Some None
      else do { v \<leftarrow> ns_read_u64_be_loop 8 data offset 0 0; Some (Some v) })"

subsection \<open>The bounds check\<close>

lemma ns_bounds_check_iff: "ns_bounds_check len offset sz \<longleftrightarrow> unat offset + unat sz \<le> unat len"
proof (cases "offset > len")
  case True
  then show ?thesis by (simp add: ns_bounds_check_def word_less_nat_alt)
next
  case False
  then have "unat (len - offset) = unat len - unat offset"
    by (simp add: unat_sub_le word_less_nat_alt)
  with False show ?thesis
    by (auto simp: ns_bounds_check_def word_le_nat_alt word_less_nat_alt)
qed

subsection \<open>The value of a byte window\<close>

definition be_nat :: "bytes \<Rightarrow> nat" where
  "be_nat bs = foldl (\<lambda>v b. v * 256 + unat b) 0 bs"

lemma be_nat_snoc [simp]: "be_nat [] = 0" "be_nat (bs @ [b]) = be_nat bs * 256 + unat b"
  by (simp_all add: be_nat_def)

lemma be_nat_bound: "be_nat bs < 256 ^ length bs"
proof (induction bs rule: rev_induct)
  case (snoc b bs)
  then have "be_nat bs * 256 + unat b < (be_nat bs + 1) * 256"
    using unat_lt_256 [of b] by simp
  also have "\<dots> \<le> 256 ^ length bs * 256"
    using snoc by (intro mult_right_mono) auto
  finally show ?case by simp
qed simp

lemma be_nat_inject:
  "length xs = length ys \<Longrightarrow> be_nat xs = be_nat ys \<Longrightarrow> xs = ys"
proof (induction xs arbitrary: ys rule: rev_induct)
  case (snoc x xs)
  obtain ys' y where ys: "ys = ys' @ [y]" using snoc.prems(1) by (cases ys rule: rev_cases) auto
  have eq: "be_nat xs * 256 + unat x = be_nat ys' * 256 + unat y" using snoc.prems(2) ys by simp
  have digits: "(v * 256 + unat b) div 256 = v" "(v * 256 + unat b) mod 256 = unat b" for v and b :: u8
    using unat_lt_256 [of b] by simp_all
  have "be_nat xs = be_nat ys'" "unat x = unat y" using digits [of "be_nat xs" x] digits [of "be_nat ys'" y] eq by simp_all
  moreover from this(1) have "xs = ys'" using snoc.IH snoc.prems(1) ys by simp
  ultimately show ?case using ys by (simp add: word_unat_eq_iff)
qed simp

definition window :: "bytes \<Rightarrow> nat \<Rightarrow> nat \<Rightarrow> bytes" where
  "window data i n = take n (drop i data)"

lemma window_Suc: "i + n < length data \<Longrightarrow> window data i (Suc n) = window data i n @ [data ! (i + n)]"
  by (simp add: window_def take_Suc_conv_app_nth)

lemma window_0 [simp]: "window data i 0 = []"
  by (simp add: window_def)

lemma window_take [wire]: "i + n \<le> m \<Longrightarrow> window (take m data) i n = window data i n"
  by (simp add: window_def drop_take min_def)

lemma window_skip [wire]: "length xs \<le> i \<Longrightarrow> window (xs @ ys) i n = window ys (i - length xs) n"
  by (simp add: window_def)

lemma window_drop [wire]: "window (drop k data) i n = window data (k + i) n"
  by (simp add: window_def add.commute)

definition be16 :: "bytes \<Rightarrow> nat \<Rightarrow> u16" where
  "be16 data i = of_nat (be_nat (window data i 2))"

definition be32 :: "bytes \<Rightarrow> nat \<Rightarrow> u32" where
  "be32 data i = of_nat (be_nat (window data i 4))"

definition be64 :: "bytes \<Rightarrow> nat \<Rightarrow> u64" where
  "be64 data i = of_nat (be_nat (window data i 8))"

lemma be_take [wire]:
  "i + 2 \<le> m \<Longrightarrow> be16 (take m data) i = be16 data i"
  "i + 4 \<le> m \<Longrightarrow> be32 (take m data) i = be32 data i"
  "i + 8 \<le> m \<Longrightarrow> be64 (take m data) i = be64 data i"
  by (simp_all add: be16_def be32_def be64_def wire)

lemma be_skip [wire]:
  "length xs \<le> i \<Longrightarrow> be16 (xs @ ys) i = be16 ys (i - length xs)"
  "length xs \<le> i \<Longrightarrow> be32 (xs @ ys) i = be32 ys (i - length xs)"
  by (simp_all add: be16_def be32_def wire)

lemma wire_cons:
  "0 < i \<Longrightarrow> be16 (x # ys) i = be16 ys (i - 1)" "0 < i \<Longrightarrow> be32 (x # ys) i = be32 ys (i - 1)"
  "0 < i \<Longrightarrow> window (x # ys) i n = window ys (i - 1) n"
  by (simp_all add: be16_def be32_def window_def drop_Cons')

lemma unat_of_nat_less: "n < 2 ^ LENGTH('a::len) \<Longrightarrow> unat (of_nat n :: 'a word) = n"
  by (simp add: unat_of_nat)

lemma be_nat_window_bound: "be_nat (window data i n) < 256 ^ n"
proof -
  have "be_nat (window data i n) < 256 ^ length (window data i n)" by (rule be_nat_bound)
  also have "\<dots> \<le> 256 ^ n" by (rule power_increasing) (simp_all add: window_def)
  finally show ?thesis .
qed

lemma unat_be16 [unats]: "unat (be16 data i) = be_nat (window data i 2)"
  using be_nat_window_bound [of data i 2] by (simp add: be16_def unat_of_nat_less)

lemma unat_be32 [unats]: "unat (be32 data i) = be_nat (window data i 4)"
  using be_nat_window_bound [of data i 4] by (simp add: be32_def unat_of_nat_less)

lemma unat_be64 [unats]: "unat (be64 data i) = be_nat (window data i 8)"
  using be_nat_window_bound [of data i 8] by (simp add: be64_def unat_of_nat_less)

subsection \<open>The readers\<close>

text \<open>The shift-and-or chains of the readers, one byte at a time.\<close>

lemma shift_or_step:
  assumes "8 \<le> LENGTH('a::len)" "256 ^ Suc k \<le> (2::nat) ^ LENGTH('a)"
    and "unat (v :: 'a word) = be_nat bs" "length bs = k"
  shows "unat (push_bit 8 v OR ucast b) = be_nat (bs @ [b])"
proof -
  have "be_nat bs * 256 < 256 ^ Suc k" using be_nat_bound [of bs] assms(4) by simp
  with assms have "unat v * 256 < 2 ^ LENGTH('a)" by linarith
  from unat_shift_or_byte [OF assms(1) this] assms(3) show ?thesis by simp
qed

lemma shift_or_first: "8 \<le> LENGTH('a::len) \<Longrightarrow> unat (ucast (b :: u8) :: 'a word) = be_nat [b]"
  by (simp add: be_nat_def unat_ucast_up)

lemma u16_of_bytes: "unat (push_bit 8 (ucast b0) OR ucast b1 :: u16) = be_nat [b0, b1]"
  using shift_or_step [of 1 "ucast b0 :: u16" "[b0]" b1] by (simp add: shift_or_first)

lemma u32_of_bytes:
  "unat (push_bit 24 (ucast b0) OR push_bit 16 (ucast b1) OR push_bit 8 (ucast b2) OR ucast b3 :: u32)
     = be_nat [b0, b1, b2, b3]"
proof -
  let ?v1 = "push_bit 8 (ucast b0) OR ucast b1 :: u32"
  let ?v2 = "push_bit 8 ?v1 OR ucast b2"
  have v1: "unat ?v1 = be_nat [b0, b1]"
    using shift_or_step [of 1 "ucast b0 :: u32" "[b0]" b1] by (simp add: shift_or_first)
  have v2: "unat ?v2 = be_nat [b0, b1, b2]"
    using shift_or_step [of 2 ?v1 "[b0, b1]" b2] v1 by simp
  have "unat (push_bit 8 ?v2 OR ucast b3) = be_nat [b0, b1, b2, b3]"
    using shift_or_step [of 3 ?v2 "[b0, b1, b2]" b3] v2 by simp
  then show ?thesis by (simp add: push_bit_or or.assoc)
qed

lemma window_2: "i + 1 < length data \<Longrightarrow> window data i 2 = [data ! i, data ! (i + 1)]"
  using window_Suc [of i 0 data] window_Suc [of i 1 data] by (simp add: numeral_2_eq_2)

lemma window_4:
  "i + 3 < length data \<Longrightarrow>
     window data i 4 = [data ! i, data ! (i + 1), data ! (i + 2), data ! (i + 3)]"
  using window_2 [of i data] window_Suc [of i 2 data] window_Suc [of i 3 data]
  by (simp add: numeral_eq_Suc)

lemma ns_read_u64_be_loop_value:
  assumes "unat offset + k + n \<le> length data" "unat offset + k + n < 2 ^ 64"
    and "unat i = k" "unat v = be_nat (window data (unat offset) k)" "k + n \<le> 8"
  shows "\<exists>r. ns_read_u64_be_loop n data offset i v = Some r \<and>
             unat r = be_nat (window data (unat offset) (k + n))"
  using assms
proof (induction n arbitrary: i v k)
  case 0
  then show ?case by simp
next
  case (Suc n)
  have i: "unat (offset + i) = unat offset + k" "unat (i + 1) = Suc k"
    using Suc.prems by (simp_all add: unat_word_ariths)
  let ?b = "data ! (unat offset + k)"
  have len: "length (window data (unat offset) k) = k" using Suc.prems by (simp add: window_def)
  have "256 ^ Suc k \<le> (256 ^ 8 :: nat)" using Suc.prems by (intro power_increasing) auto
  then have "unat (push_bit 8 v OR ucast ?b) = be_nat (window data (unat offset) k @ [?b])"
    using shift_or_step [of k v "window data (unat offset) k" ?b] Suc.prems len by simp
  also have "\<dots> = be_nat (window data (unat offset) (Suc k))"
    using Suc.prems by (simp add: window_Suc)
  finally show ?case
    using Suc.IH [of "Suc k" "i + 1" "push_bit 8 v OR ucast ?b"] Suc.prems i
    by (simp add: mem_get_def)
qed

lemma ns_read_u8_in [cmem]:
  "unat offset + 1 \<le> unat len \<Longrightarrow> unat len \<le> length data \<Longrightarrow>
     ns_read_u8 data len offset = Some (Some (data ! unat offset))"
  by (simp add: ns_read_u8_def ns_bounds_check_iff mem_get_def)

lemma ns_read_u16_be_in [cmem]:
  assumes "unat offset + 2 \<le> unat len" "unat len \<le> length data"
  shows "ns_read_u16_be data len offset = Some (Some (be16 data (unat offset)))"
proof -
  have "unat (offset + 1) = unat offset + 1"
    using unat_add_le [of offset 1 len] assms by simp
  then have "ns_read_u16_be data len offset =
      Some (Some (push_bit 8 (ucast (data ! unat offset)) OR ucast (data ! (unat offset + 1))))"
    using assms by (simp add: ns_read_u16_be_def ns_bounds_check_iff mem_get_def)
  moreover have "\<dots> = Some (Some (be16 data (unat offset)))"
    using assms by (simp add: word_unat_eq_iff u16_of_bytes unat_be16 window_2)
  ultimately show ?thesis by simp
qed

lemma ns_read_u32_be_in [cmem]:
  assumes "unat offset + 4 \<le> unat len" "unat len \<le> length data"
  shows "ns_read_u32_be data len offset = Some (Some (be32 data (unat offset)))"
proof -
  have "unat (offset + 1) = unat offset + 1" "unat (offset + 2) = unat offset + 2"
    "unat (offset + 3) = unat offset + 3"
    using unat_add_le [of offset 1 len] unat_add_le [of offset 2 len]
      unat_add_le [of offset 3 len] assms by simp_all
  then have "ns_read_u32_be data len offset =
      Some (Some (push_bit 24 (ucast (data ! unat offset)) OR
        push_bit 16 (ucast (data ! (unat offset + 1))) OR
        push_bit 8 (ucast (data ! (unat offset + 2))) OR ucast (data ! (unat offset + 3))))"
    using assms by (simp add: ns_read_u32_be_def ns_bounds_check_iff mem_get_def)
  moreover have "\<dots> = Some (Some (be32 data (unat offset)))"
    using assms by (simp add: word_unat_eq_iff u32_of_bytes unat_be32 window_4)
  ultimately show ?thesis by simp
qed

lemma ns_read_u64_be_in [cmem]:
  assumes "unat offset + 8 \<le> unat len" "unat len \<le> length data"
  shows "ns_read_u64_be data len offset = Some (Some (be64 data (unat offset)))"
proof -
  have "unat len < 2 ^ 64" using unsigned_less [of len] by simp
  then obtain r where "ns_read_u64_be_loop 8 data offset 0 0 = Some r"
    "unat r = be_nat (window data (unat offset) 8)"
    using ns_read_u64_be_loop_value [of offset 0 8 data 0 0] assms by auto
  then show ?thesis
    using assms by (simp add: ns_read_u64_be_def ns_bounds_check_iff word_unat_eq_iff unat_be64)
qed

lemma ns_read_refused [cmem]:
  "unat len < unat offset + 1 \<Longrightarrow> ns_read_u8 data len offset = Some None"
  "unat len < unat offset + 2 \<Longrightarrow> ns_read_u16_be data len offset = Some None"
  "unat len < unat offset + 4 \<Longrightarrow> ns_read_u32_be data len offset = Some None"
  "unat len < unat offset + 8 \<Longrightarrow> ns_read_u64_be data len offset = Some None"
  by (simp_all add: ns_read_u8_def ns_read_u16_be_def ns_read_u32_be_def ns_read_u64_be_def
      ns_bounds_check_iff)

subsection \<open>Writing big-endian fields (specification side)\<close>

text \<open>The inverse of a reader: the \<open>k\<close> bytes a sender puts on the wire for a field of value
  \<open>n\<close>. Packet formats are specified with it.\<close>

primrec to_be :: "nat \<Rightarrow> nat \<Rightarrow> bytes" where
  "to_be 0 n = []"
| "to_be (Suc k) n = to_be k (n div 256) @ [of_nat (n mod 256)]"

lemma length_to_be [simp]: "length (to_be k n) = k"
  by (induction k arbitrary: n) simp_all

lemma be_nat_to_be: "be_nat (to_be k n) = n mod 256 ^ k"
proof (induction k arbitrary: n)
  case (Suc k)
  have "unat (of_nat (n mod 256) :: u8) = n mod 256" by (simp add: unat_of_nat)
  then have "be_nat (to_be (Suc k) n) = (n div 256) mod 256 ^ k * 256 + n mod 256"
    by (simp add: Suc)
  also have "\<dots> = n mod 256 ^ Suc k"
    by (simp add: mod_mult2_eq mult.commute)
  finally show ?case .
qed simp

lemma window_at: "i = length pre \<Longrightarrow> n = length w \<Longrightarrow> window (pre @ w @ post) i n = w"
  by (simp add: window_def)

lemma be_here [wire]:
  "be16 (to_be 2 n @ ys) 0 = of_nat n" "be16 (to_be 2 n) 0 = of_nat n"
  "be32 (to_be 4 n @ ys) 0 = of_nat n" "be32 (to_be 4 n) 0 = of_nat n"
  by (simp_all add: word_unat_eq_iff unat_be16 unat_be32 window_def be_nat_to_be unat_of_nat)

subsection \<open>The interface of a big-endian reader\<close>

text \<open>What a parser may rely on: inside the captured length the reader yields the value of its
  window, outside it refuses, and neither case touches a byte it must not.\<close>

locale be_reader =
  fixes read :: "bytes \<Rightarrow> size_t \<Rightarrow> size_t \<Rightarrow> 'w::len word option option"
    and val :: "bytes \<Rightarrow> nat \<Rightarrow> 'w word"
    and width :: nat
  assumes read_in: "unat offset + width \<le> unat len \<Longrightarrow> unat len \<le> length data \<Longrightarrow>
      read data len offset = Some (Some (val data (unat offset)))"
    and read_out: "unat len < unat offset + width \<Longrightarrow> read data len offset = Some None"
    and val_window: "unat (val data i) = be_nat (window data i width)"
begin

lemma read_total: "unat len \<le> length data \<Longrightarrow> \<exists>r. read data len offset = Some r"
  by (cases "unat offset + width \<le> unat len") (auto simp: read_in read_out)

lemma read_Some_iff:
  "unat len \<le> length data \<Longrightarrow>
     read data len offset = Some (Some v) \<longleftrightarrow>
       unat offset + width \<le> unat len \<and> v = val data (unat offset)"
  by (cases "unat offset + width \<le> unat len") (auto simp: read_in read_out)

lemma val_cong: "window data i width = window data' i' width \<Longrightarrow> val data i = val data' i'"
  by (simp add: word_unat_eq_iff val_window)

text \<open>The result is a function of the captured bytes alone.\<close>

lemma read_local:
  assumes "unat len \<le> length data" "unat len \<le> length data'"
    and same: "take (unat len) data = take (unat len) data'"
  shows "read data len offset = read data' len offset"
proof (cases "unat offset + width \<le> unat len")
  case True
  have "window (take (unat len) d) (unat offset) width = window d (unat offset) width" for d
    using True by (simp add: window_def drop_take min_def)
  with same have "window data (unat offset) width = window data' (unat offset) width" by metis
  with True assms show ?thesis by (simp add: read_in val_cong [of data])
next
  case False
  then show ?thesis by (simp add: read_out)
qed

text \<open>A field written big endian is read back.\<close>

lemma read_to_be:
  assumes "LENGTH('w) = 8 * width" "unat len = length (pre @ to_be width n @ post)"
    and "unat offset = length pre"
  shows "read (pre @ to_be width n @ post) len offset = Some (Some (of_nat n))"
proof -
  have "(2::nat) ^ LENGTH('w) = 256 ^ width" using assms(1) by (simp add: power_mult)
  then have "unat (val (pre @ to_be width n @ post) (unat offset)) = unat (of_nat n :: 'w word)"
    using assms(3) by (simp add: val_window window_at be_nat_to_be unat_of_nat)
  then have "val (pre @ to_be width n @ post) (unat offset) = of_nat n"
    by (simp add: word_unat_eq_iff)
  then show ?thesis using assms by (simp add: read_in)
qed

end

lemma be_nat_window_1: "i < length data \<Longrightarrow> be_nat (window data i 1) = unat (data ! i)"
  using window_Suc [of i 0 data] by (simp add: be_nat_def)

definition be8 :: "bytes \<Rightarrow> nat \<Rightarrow> u8" where
  "be8 data i = of_nat (be_nat (window data i 1))"

lemma unat_be8 [unats]: "unat (be8 data i) = be_nat (window data i 1)"
  using be_nat_window_bound [of data i 1] by (simp add: be8_def unat_of_nat_less)

lemma be8_nth: "i < length data \<Longrightarrow> be8 data i = data ! i"
  using be_nat_window_1 [of i data] by (simp add: word_unat_eq_iff unat_be8)

interpretation r8: be_reader ns_read_u8 be8 1
  by unfold_locales (simp_all add: cmem unat_be8 be8_nth)

interpretation r16: be_reader ns_read_u16_be be16 2
  by unfold_locales (simp_all add: cmem unat_be16)

interpretation r32: be_reader ns_read_u32_be be32 4
  by unfold_locales (simp_all add: cmem unat_be32)

interpretation r64: be_reader ns_read_u64_be be64 8
  by unfold_locales (simp_all add: cmem unat_be64)

subsection \<open>A \<open>uint32_t\<close> filled by \<open>memcpy\<close>\<close>

text \<open>IPv4 addresses are copied out of the packet byte by byte (\<open>memcpy(&addr, data + k, 4)\<close>),
  so the integer has the host's byte order; its bytes in memory are again the wire's.\<close>

definition u32_of_mem :: "bytes \<Rightarrow> u32" where
  "u32_of_mem bs = ucast (bs ! 0) OR push_bit 8 (ucast (bs ! 1)) OR
     push_bit 16 (ucast (bs ! 2)) OR push_bit 24 (ucast (bs ! 3))"

definition mem_of_u32 :: "u32 \<Rightarrow> bytes" where
  "mem_of_u32 w = [ucast w, ucast (drop_bit 8 w), ucast (drop_bit 16 w), ucast (drop_bit 24 w)]"

definition memcpy_u32 :: "bytes \<Rightarrow> size_t \<Rightarrow> u32 option" where
  "memcpy_u32 data offset = do { bs \<leftarrow> mem_read data offset 4; Some (u32_of_mem bs) }"

lemma memcpy_u32_in [cmem]:
  "unat offset + 4 \<le> length data \<Longrightarrow>
     memcpy_u32 data offset = Some (u32_of_mem (window data (unat offset) 4))"
  by (simp add: memcpy_u32_def mem_read_def window_def)

lemma mem_of_u32_of_mem: "length bs = 4 \<Longrightarrow> mem_of_u32 (u32_of_mem bs) = bs"
proof -
  assume "length bs = 4"
  then obtain a b c d where bs: "bs = [a, b, c, d]"
    by (auto simp: numeral_eq_Suc length_Suc_conv)
  have "ucast (u32_of_mem bs) = a" "ucast (drop_bit 8 (u32_of_mem bs)) = b"
    "ucast (drop_bit 16 (u32_of_mem bs)) = c" "ucast (drop_bit 24 (u32_of_mem bs)) = d"
    unfolding u32_of_mem_def bs
    by (rule bit_word_eqI, simp add: bit_simps, auto dest: bit_imp_le_length)+
  with bs show ?thesis by (simp add: mem_of_u32_def)
qed

lemma u32_of_mem_of_u32: "u32_of_mem (mem_of_u32 w) = w"
proof (rule bit_word_eqI)
  fix n assume "n < LENGTH(32)"
  then consider "n < 8" | "8 \<le> n" "n < 16" | "16 \<le> n" "n < 24" | "24 \<le> n" "n < 32" by fastforce
  then show "bit (u32_of_mem (mem_of_u32 w)) n = bit w n"
    by cases (auto simp: u32_of_mem_def mem_of_u32_def bit_simps)
qed

lemma length_mem_of_u32 [simp]: "length (mem_of_u32 w) = 4"
  by (simp add: mem_of_u32_def)

subsection \<open>Properties\<close>

text \<open>C27: the bounds check is exact. \<open>ns_bounds_check\<close> holds if and only if the range ends
  inside the buffer, as numbers, for all lengths, offsets and sizes; the obvious
  \<open>offset + size \<le> length\<close> in machine arithmetic does not have this property.\<close>

theorem bounds_check_exact:
  "(ns_bounds_check len offset sz \<longleftrightarrow> unat offset + unat sz \<le> unat len) \<and>
   (\<exists>len' offset' sz'. offset' + sz' \<le> len' \<and> \<not> ns_bounds_check len' offset' sz')"
proof -
  have "(1 :: size_t) + 0xFFFFFFFFFFFFFFFF \<le> 4 \<and> \<not> ns_bounds_check 4 1 0xFFFFFFFFFFFFFFFF"
    by code_simp
  then show ?thesis using ns_bounds_check_iff by blast
qed

text \<open>The readers are exact. On a buffer that really has the captured length, each of the four readers
  refuses a window that is not inside the captured bytes and otherwise returns the big-endian value
  of the window; neither reads any other byte.\<close>

lemma readers_exact:
  assumes "unat len \<le> length data"
  shows "ns_read_u8 data len offset =
      Some (if unat offset + 1 \<le> unat len then Some (of_nat (be_nat (window data (unat offset) 1))) else None) \<and>
    ns_read_u16_be data len offset =
      Some (if unat offset + 2 \<le> unat len then Some (of_nat (be_nat (window data (unat offset) 2))) else None) \<and>
    ns_read_u32_be data len offset =
      Some (if unat offset + 4 \<le> unat len then Some (of_nat (be_nat (window data (unat offset) 4))) else None) \<and>
    ns_read_u64_be data len offset =
      Some (if unat offset + 8 \<le> unat len then Some (of_nat (be_nat (window data (unat offset) 8))) else None)"
  using assms r8.read_in r8.read_out r16.read_in r16.read_out r32.read_in r32.read_out r64.read_in r64.read_out
  by (simp_all add: be8_def be16_def be32_def be64_def not_le)

lemma readers_exact_example:
  "ns_read_u16_be [0x12, 0x34, 0x56] 3 1 = Some (Some 0x3456) \<and> ns_read_u16_be [0x12, 0x34, 0x56] 3 2 = Some None"
  using readers_exact [of 3 "[0x12, 0x34, 0x56]" 1] readers_exact [of 3 "[0x12, 0x34, 0x56]" 2]
  by (simp add: window_def be_nat_def)

end
