(* ===== verification/NS_Hexdump.thy ===== *)
theory NS_Hexdump
  imports NS_Util
begin

section \<open>util.c: the hex dump\<close>

text \<open>
  \<open>append_line\<close>, \<open>ns_hex_dump\<close> and its file writer. The sink of the dump is the
  source's callback: a function that takes its context and a line and says whether it could be
  written. Shown: \<open>append_line\<close> never leaves the buffer and never lets the position pass its
  end, whatever text it is given; the dump loop ends, reads only the given bytes, and hands the
  sink exactly the rows of the dump, in order, until the sink refuses one.
\<close>

definition append_line :: "cbuf \<Rightarrow> size_t \<Rightarrow> size_t \<Rightarrow> string \<Rightarrow> (cbuf \<times> size_t) option" where
  "append_line buf buf_len pos s =
     (if pos \<ge> buf_len then Some (buf, pos)
      else do {
        (buf, written) \<leftarrow> snprintf buf pos (buf_len - pos) s;
        if written \<le> 0 then Some (buf, pos)
        else do {
          let remaining = buf_len - pos;
          let actual = (if word_of_int written < remaining then word_of_int written else remaining - 1);
          Some (buf, pos + actual) } })"

text \<open>The three loops of \<open>ns_hex_dump\<close>: the 16 hexadecimal cells of a row (with the number of
  cells still to print), its ASCII column, and the rows.\<close>

primrec hex_cells :: "nat \<Rightarrow> bytes \<Rightarrow> size_t \<Rightarrow> size_t \<Rightarrow> size_t \<Rightarrow> cbuf \<Rightarrow> size_t \<Rightarrow> (cbuf \<times> size_t) option" where
  "hex_cells 0 data offset chunk i line pos = Some (line, pos)"
| "hex_cells (Suc n) data offset chunk i line pos = do {
     (line, pos) \<leftarrow> (if i < chunk
        then do { b \<leftarrow> mem_get data (offset + i);
                  append_line line 128 pos (zero_pad 2 (hex (unat b)) @ '' '') }
        else append_line line 128 pos ''   '');
     (line, pos) \<leftarrow> (if i = 7 then append_line line 128 pos '' '' else Some (line, pos));
     hex_cells n data offset chunk (i + 1) line pos }"

definition printable :: "u8 \<Rightarrow> char" where
  "printable c = (if c \<ge> 0x20 \<and> c < 0x7f then char_of (unat c) else CHR ''.'')"

primrec hex_ascii :: "nat \<Rightarrow> bytes \<Rightarrow> size_t \<Rightarrow> size_t \<Rightarrow> cbuf \<Rightarrow> size_t \<Rightarrow> (cbuf \<times> size_t) option" where
  "hex_ascii 0 data offset i line pos = Some (line, pos)"
| "hex_ascii (Suc n) data offset i line pos =
     (if pos + 1 < 128
      then do {
        c \<leftarrow> mem_get data (offset + i);
        line \<leftarrow> mem_set line pos (printable c);
        hex_ascii n data offset (i + 1) line (pos + 1) }
      else Some (line, pos))"

definition hex_dump_row :: "bytes \<Rightarrow> size_t \<Rightarrow> size_t \<Rightarrow> cbuf \<Rightarrow> cbuf option" where
  "hex_dump_row data len offset line = do {
     let chunk = (if len - offset < 16 then len - offset else 16);
     (line, pos) \<leftarrow> append_line line 128 0 (zero_pad 4 (hex (unat offset)) @ ''  '');
     (line, pos) \<leftarrow> hex_cells 16 data offset chunk 0 line pos;
     (line, pos) \<leftarrow> append_line line 128 pos '' '';
     (line, pos) \<leftarrow> hex_ascii (unat chunk) data offset 0 line pos;
     (line, pos) \<leftarrow> (if pos + 1 < 128
        then do { line \<leftarrow> mem_set line pos (CHR 0x0A); Some (line, pos + 1) }
        else Some (line, pos));
     mem_set line pos NUL }"

partial_function (option) hex_dump_loop ::
  "bytes \<Rightarrow> size_t \<Rightarrow> ('c \<Rightarrow> string \<Rightarrow> bool \<times> 'c) \<Rightarrow> cbuf \<Rightarrow> size_t \<Rightarrow> 'c \<Rightarrow> (bool \<times> 'c) option" where
  [code]: "hex_dump_loop data len sink line offset ctx =
     (if offset < len
      then do {
        line \<leftarrow> hex_dump_row data len offset line;
        s \<leftarrow> c_str line;
        (let (ok, ctx) = sink ctx s in
         if \<not> ok then Some (False, ctx)
         else hex_dump_loop data len sink line (offset + 16) ctx) }
      else Some (True, ctx))"

definition ns_hex_dump :: "bytes \<Rightarrow> size_t \<Rightarrow> ('c \<Rightarrow> string \<Rightarrow> bool \<times> 'c) \<Rightarrow> 'c \<Rightarrow> (bool \<times> 'c) option" where
  "ns_hex_dump data len sink ctx = hex_dump_loop data len sink (stack_buf 128) 0 ctx"

text \<open>The file sink, over the library's \<open>fputs\<close>; \<open>ns_hex_dump_file\<close> drops the result.\<close>

definition ns_hex_dump_file_write ::
  "('f \<Rightarrow> string \<Rightarrow> int \<times> 'f) \<Rightarrow> 'f \<Rightarrow> string \<Rightarrow> bool \<times> 'f" where
  "ns_hex_dump_file_write fputs out chunk = (let (r, out) = fputs out chunk in (r \<ge> 0, out))"

definition ns_hex_dump_file ::
  "('f \<Rightarrow> string \<Rightarrow> int \<times> 'f) \<Rightarrow> bytes \<Rightarrow> size_t \<Rightarrow> 'f \<Rightarrow> 'f option" where
  "ns_hex_dump_file fputs data len out = do {
     (_, out) \<leftarrow> ns_hex_dump data len (ns_hex_dump_file_write fputs) out;
     Some out }"

subsection \<open>Appending with a clamp\<close>

lemma append_line_clamp:
  assumes "holds p acc" "unat pos = length acc" "unat len = length p"
    and "length acc < length p" "length s < 2 ^ 31"
  obtains q pos' where "append_line p len pos s = Some (q, pos')" "length q = length p"
    "holds q (take (length p - 1) (acc @ s))" "unat pos' = min (length p - 1) (length acc + length s)"
proof -
  let ?n = "len - pos" and ?w = "word_of_int (int (length s)) :: size_t"
  let ?t = "take (length p - length acc - 1) s"
  let ?q = "acc @ ?t @ NUL # drop (Suc (length acc + length ?t)) p"
  define pos' where "pos' = (if s = [] then pos else pos + (if ?w < ?n then ?w else ?n - 1))"
  have n: "unat ?n = length p - length acc" "\<not> pos \<ge> len" "?n \<noteq> 0"
    using assms by (auto simp: unat_sub_le word_le_nat_alt)
  have w: "unat ?w = length s" using assms(5) by (simp add: unat_of_nat)
  have n1: "unat (?n - 1) = length p - length acc - 1"
    using n assms(4) by (subst unat_sub_le) auto
  have room: "length acc + Suc (length ?t) \<le> length p" using assms(4) by (auto simp: min_def)
  have "snprintf p pos ?n s = Some (?q, int (length s))"
    using n assms(1,2) room by (simp add: snprintf_def mem_write_def holds_def)
  then have "append_line p len pos s = Some (?q, pos')"
    using n(2) by (cases s) (simp_all add: append_line_def pos'_def)
  moreover have "length ?q = length p" using room by simp
  moreover have "holds ?q (take (length p - 1) (acc @ s))"
    using assms(4) by (auto simp: holds_def min_def)
  moreover have "unat pos' = min (length p - 1) (length acc + length s)"
  proof -
    have lt: "length p < 2 ^ 64" using assms(3) unat_lt_2p64 [of len] by simp
    have c: "?w < ?n \<longleftrightarrow> length acc + length s < length p"
      using n w assms(4) by (auto simp: word_less_nat_alt)
    show ?thesis
      using assms(2,4) n1 w c lt by (auto simp: pos'_def unat_word_ariths min_def)
  qed
  ultimately show thesis using that by blast
qed

lemma append_line_fits:
  assumes "holds p acc" "unat pos = length acc" "unat len = length p"
    and "length acc + length s < length p" "length s < 2 ^ 31"
  obtains q pos' where "append_line p len pos s = Some (q, pos')" "length q = length p"
    "holds q (acc @ s)" "unat pos' = length (acc @ s)"
proof -
  have "length acc < length p" using assms(4) by simp
  from append_line_clamp [OF assms(1-3) this assms(5)] obtain q pos' where
    "append_line p len pos s = Some (q, pos')" "length q = length p"
    "holds q (take (length p - 1) (acc @ s))" "unat pos' = min (length p - 1) (length acc + length s)" .
  with assms(4) that show thesis by auto
qed

subsection \<open>The rows\<close>

definition hex_cell :: "bytes \<Rightarrow> nat \<Rightarrow> string" where
  "hex_cell bs i = (if i < length bs then zero_pad 2 (hex (unat (bs ! i))) @ '' '' else ''   '') @
     (if i = 7 then '' '' else [])"

definition hex_row :: "nat \<Rightarrow> bytes \<Rightarrow> string" where
  "hex_row off bs = zero_pad 4 (hex off) @ ''  '' @ concat (map (hex_cell bs) [0..<16]) @ '' '' @
     map printable bs @ [CHR 0x0A]"

fun hex_rows :: "nat \<Rightarrow> bytes \<Rightarrow> string list" where
  "hex_rows off bs = (if bs = [] then [] else hex_row off (take 16 bs) # hex_rows (off + 16) (drop 16 bs))"

declare hex_rows.simps [simp del]

text \<open>What a sink does with a list of lines: it is fed until it refuses one.\<close>

fun feed :: "('c \<Rightarrow> string \<Rightarrow> bool \<times> 'c) \<Rightarrow> 'c \<Rightarrow> string list \<Rightarrow> bool \<times> 'c" where
  "feed sink ctx [] = (True, ctx)"
| "feed sink ctx (l # ls) = (let (ok, ctx) = sink ctx l in if ok then feed sink ctx ls else (False, ctx))"

lemma hex_cell_length: "length (hex_cell bs i) \<le> 4"
  using length_show_base [of 16 "unat (bs ! i)" 1] unat_lt_256 [of "bs ! i"]
  by (auto simp: hex_cell_def zero_pad_def)

lemma mem_get_window:
  assumes "window data off (length bs) = bs" "k < length bs" "unat j = off + k"
  shows "mem_get data j = Some (bs ! k)"
proof -
  have "length (window data off (length bs)) = length bs" using assms(1) by simp
  with assms(2) have "off + k < length data" by (simp add: window_def)
  moreover have "bs ! k = data ! (off + k)"
    using assms(2) \<open>off + k < length data\<close> by (subst assms(1) [symmetric]) (simp add: window_def)
  ultimately show ?thesis by (simp add: mem_get_def assms(3))
qed

lemma hex_cells_text:
  assumes "holds line acc" "unat pos = length acc" "length line = 128" "length acc + 4 * n < 128"
    and "unat i + n = 16" "unat chunk = length bs" "length bs \<le> 16"
    and "window data (unat offset) (length bs) = bs" "unat offset + 16 \<le> 2 ^ 64"
  shows "\<exists>line' pos'. hex_cells n data offset chunk i line pos = Some (line', pos') \<and> length line' = 128 \<and>
    holds line' (acc @ concat (map (hex_cell bs) [unat i..<16])) \<and>
    unat pos' = length (acc @ concat (map (hex_cell bs) [unat i..<16]))"
  using assms(1-5)
proof (induction n arbitrary: line acc pos i)
  case 0
  then show ?case by simp
next
  case (Suc n)
  let ?c1 = "if unat i < length bs then zero_pad 2 (hex (unat (bs ! unat i))) @ '' '' else ''   ''"
  let ?c2 = "if i = 7 then '' '' else []"
  have cell: "hex_cell bs (unat i) = ?c1 @ ?c2"
    by (simp add: hex_cell_def word_unat_eq_iff)
  have len: "length ?c1 + length ?c2 \<le> 4"
    using hex_cell_length [of bs "unat i"] unfolding cell by simp
  have i: "unat (i + 1) = Suc (unat i)" "unat (offset + i) = unat offset + unat i"
    using Suc.prems(5) assms(9) by (simp_all add: unat_word_ariths)
  have get: "mem_get data (offset + i) = Some (bs ! unat i)" if "unat i < length bs"
    using mem_get_window [OF assms(8)] that i by simp
  obtain l1 p1 where 1: "append_line line 128 pos ?c1 = Some (l1, p1)" "length l1 = 128"
    "holds l1 (acc @ ?c1)" "unat p1 = length (acc @ ?c1)"
    using append_line_fits [OF Suc.prems(1,2), of 128 ?c1] Suc.prems(3,4) len by auto
  have lt: "i < chunk \<longleftrightarrow> unat i < length bs" using assms(6) by (simp add: word_less_nat_alt)
  obtain l2 p2 where 2: "(if i = 7 then append_line l1 128 p1 '' '' else Some (l1, p1)) = Some (l2, p2)"
    "length l2 = 128" "holds l2 ((acc @ ?c1) @ ?c2)" "unat p2 = length ((acc @ ?c1) @ ?c2)"
  proof (cases "i = 7")
    case True
    then show thesis using that append_line_fits [OF 1(3,4), of 128 "'' ''"] 1(2) Suc.prems(4) len by auto
  qed (use that 1 in simp)
  have "hex_cells (Suc n) data offset chunk i line pos = hex_cells n data offset chunk (i + 1) l2 p2"
    using 1(1) 2(1) get lt by (cases "unat i < length bs") simp_all
  moreover have "[unat i..<16] = unat i # [unat (i + 1)..<16]"
    using i Suc.prems(5) by (simp add: upt_conv_Cons)
  ultimately show ?case
    using Suc.IH [OF 2(3,4,2), of "i + 1"] Suc.prems(4,5) len i by (simp add: cell)
qed

lemma hex_ascii_text:
  assumes "holds line acc" "unat pos = length acc" "length line = 128" "length acc + n + 1 < 128"
    and "unat i + n = length bs" "length bs \<le> 16"
    and "window data (unat offset) (length bs) = bs" "unat offset + 16 \<le> 2 ^ 64"
  shows "\<exists>line' pos'. hex_ascii n data offset i line pos = Some (line', pos') \<and> length line' = 128 \<and>
    holds line' (acc @ map printable (drop (unat i) bs)) \<and>
    unat pos' = length (acc @ map printable (drop (unat i) bs))"
  using assms(1-5)
proof (induction n arbitrary: line acc pos i)
  case 0
  then show ?case by simp
next
  case (Suc n)
  have i: "unat (i + 1) = Suc (unat i)" "unat (offset + i) = unat offset + unat i"
    using Suc.prems(5) assms(6,8) by (simp_all add: unat_word_ariths)
  have "unat i < length bs" using Suc.prems(5) by simp
  then have get: "mem_get data (offset + i) = Some (bs ! unat i)"
    using mem_get_window [OF assms(7)] i by simp
  let ?c = "printable (bs ! unat i)"
  obtain l1 where 1: "mem_set line pos ?c = Some l1" "length l1 = 128" "holds l1 (acc @ [?c])"
    "unat (pos + 1) = length (acc @ [?c])"
    using mem_set_append [OF Suc.prems(1,2), of ?c] Suc.prems(3,4) by auto
  have "pos + 1 < 128" using 1(4) Suc.prems(4) by (simp add: word_less_nat_alt)
  then have "hex_ascii (Suc n) data offset i line pos = hex_ascii n data offset (i + 1) l1 (pos + 1)"
    using get 1(1) by simp
  moreover have "map printable (drop (unat i) bs) = ?c # map printable (drop (unat (i + 1)) bs)"
    using i \<open>unat i < length bs\<close> by (metis Cons_nth_drop_Suc list.simps(9))
  ultimately show ?case
    using Suc.IH [OF 1(3,4,2), of "i + 1"] Suc.prems(4,5) i by simp
qed

lemma printable_nul_free [simp]: "nul_free (map printable bs)"
proof -
  have "printable b \<noteq> NUL" for b
  proof
    assume eq: "printable b = NUL"
    have "of_char (printable b) \<noteq> (0 :: nat)"
      by (auto simp: printable_def word_le_nat_alt word_less_nat_alt)
    then show False unfolding eq by simp
  qed
  then show ?thesis by (induction bs) simp_all
qed

lemma hex_cells_length: "length (concat (map (hex_cell bs) xs)) \<le> 4 * length xs"
proof (induction xs)
  case (Cons x xs)
  then show ?case using hex_cell_length [of bs x] by simp
qed simp

lemma offset_length: "length (zero_pad 4 (hex (unat (off :: size_t)))) \<le> 16"
  using length_show_base [of 16 "unat off" 15] unat_lt_2p64 [of off] by (simp add: zero_pad_def)

lemma hex_row_nul_free [simp]: "nul_free (hex_row off bs)"
proof -
  have "nul_free (zero_pad w (hex n))" for w n by (simp add: zero_pad_def nul_free_def [of "replicate _ _"])
  then have "nul_free (hex_cell bs i)" for i by (simp add: hex_cell_def)
  then have "nul_free (concat (map (hex_cell bs) xs))" for xs by (induction xs) simp_all
  with \<open>\<And>w n. nul_free (zero_pad w (hex n))\<close> show ?thesis by (simp add: hex_row_def)
qed

lemma hex_dump_row_text:
  assumes "unat offset < unat len" "unat len \<le> length data" "unat offset + 16 \<le> 2 ^ 64" "length line = 128"
  obtains line' where "hex_dump_row data len offset line = Some line'" "length line' = 128"
    "c_str line' = Some (hex_row (unat offset) (take 16 (drop (unat offset) (take (unat len) data))))"
proof -
  let ?chunk = "if len - offset < 16 then len - offset else 16"
  define bs where "bs = take 16 (drop (unat offset) (take (unat len) data))"
  have chunk: "unat ?chunk = length bs" "length bs \<le> 16"
    using assms by (auto simp: bs_def word_less_nat_alt unat_sub_le min_def)
  have win: "window data (unat offset) (length bs) = bs"
    using assms by (auto simp: bs_def window_def drop_take min_def)
  let ?h = "zero_pad 4 (hex (unat offset)) @ ''  ''"
  have h: "length ?h \<le> 18" using offset_length [of offset] by simp
  obtain l1 p1 where 1: "append_line line 128 0 ?h = Some (l1, p1)" "length l1 = 128" "holds l1 ?h"
    "unat p1 = length ?h"
    using append_line_fits [of line "[]" 0 128 ?h] h assms(4) by auto
  let ?cells = "concat (map (hex_cell bs) [0..<16])"
  have cl: "length ?cells \<le> 64" using hex_cells_length [of bs "[0..<16]"] by simp
  obtain l2 p2 where 2: "hex_cells 16 data offset ?chunk 0 l1 p1 = Some (l2, p2)" "length l2 = 128"
    "holds l2 (?h @ ?cells)" "unat p2 = length (?h @ ?cells)"
    using hex_cells_text [OF 1(3,4,2), of 16 0 ?chunk bs data offset] h chunk win assms(3) by auto
  let ?u = "(?h @ ?cells) @ '' ''"
  obtain l3 p3 where 3: "append_line l2 128 p2 '' '' = Some (l3, p3)" "length l3 = 128" "holds l3 ?u"
    "unat p3 = length ?u"
    using append_line_fits [OF 2(3,4), of 128 "'' ''"] 2(2) h cl by auto
  have ul: "length ?u \<le> 83" using h cl by simp
  let ?v = "?u @ map printable bs"
  obtain l4 p4 where 4: "hex_ascii (unat ?chunk) data offset 0 l3 p3 = Some (l4, p4)" "length l4 = 128"
    "holds l4 ?v" "unat p4 = length ?v"
    using hex_ascii_text [OF 3(3,4,2), of "length bs" 0 bs data offset] ul chunk win assms(3) by auto
  obtain l5 where 5: "mem_set l4 p4 (CHR 0x0A) = Some l5" "length l5 = 128" "holds l5 (?v @ [CHR 0x0A])"
    "unat (p4 + 1) = length (?v @ [CHR 0x0A])"
    using mem_set_append [OF 4(3,4), of "CHR 0x0A"] 4(2) ul chunk(2) by auto
  have vl: "length ?v \<le> 99" using ul chunk(2) by simp
  have "p4 + 1 < 128" using 5(4) vl by (simp add: word_less_nat_alt)
  define R where "R = hex_row (unat offset) bs"
  have row: "?v @ [CHR 0x0A] = R" by (simp add: R_def hex_row_def)
  have Rl: "length R \<le> 100" using vl unfolding row [symmetric] by simp
  have R: "holds l5 R" "unat (p4 + 1) = length R" using 5(3,4) unfolding row .
  have "hex_dump_row data len offset line = Some (l5[length R := NUL])"
    using 1(1) 2(1) 3(1) 4(1) 5(1,2) R(2) Rl \<open>p4 + 1 < 128\<close>
    by (simp add: hex_dump_row_def mem_set_def [of l5] Let_def)
  moreover have "c_str (l5[length R := NUL]) = Some R"
    using 5(2) R(1) Rl by (intro holds_c_str) (simp_all add: R_def, simp add: holds_def)
  ultimately show thesis using that 5(2) by (simp add: bs_def R_def)
qed

lemma hex_dump_loop_rows:
  assumes "unat len \<le> length data" "unat len + 16 \<le> 2 ^ 64" "length line = 128" "unat offset \<le> unat len + 15"
  shows "hex_dump_loop data len sink line offset ctx =
    Some (feed sink ctx (hex_rows (unat offset) (drop (unat offset) (take (unat len) data))))"
  using assms(3,4)
proof (induction "unat len + 16 - unat offset" arbitrary: line offset ctx rule: less_induct)
  case less
  show ?case
  proof (cases "unat offset < unat len")
    case True
    obtain line' where row: "hex_dump_row data len offset line = Some line'" "length line' = 128"
      "c_str line' = Some (hex_row (unat offset) (take 16 (drop (unat offset) (take (unat len) data))))"
      using hex_dump_row_text [OF True assms(1) _ less.prems(1)] True assms(2) by auto
    have next_off: "unat (offset + 16) = unat offset + 16"
      using True assms(2) by (simp add: unat_word_ariths)
    have "hex_dump_loop data len sink line' (offset + 16) ctx' =
      Some (feed sink ctx' (hex_rows (unat (offset + 16)) (drop (unat (offset + 16)) (take (unat len) data))))" for ctx'
      using True next_off by (intro less.hyps row(2)) auto
    moreover have "drop (unat offset) (take (unat len) data) \<noteq> []" using True assms(1) by simp
    ultimately show ?thesis
      using True row next_off
      by (subst hex_dump_loop.simps, subst hex_rows.simps)
        (simp add: word_less_nat_alt add.commute split: prod.splits)
  next
    case False
    then show ?thesis
      by (subst hex_dump_loop.simps, subst hex_rows.simps) (simp add: word_less_nat_alt)
  qed
qed

lemma ns_hex_dump_rows:
  "unat len \<le> length data \<Longrightarrow> unat len + 16 \<le> 2 ^ 64 \<Longrightarrow>
     ns_hex_dump data len sink ctx = Some (feed sink ctx (hex_rows 0 (take (unat len) data)))"
  unfolding ns_hex_dump_def by (subst hex_dump_loop_rows) (simp_all add: stack_buf_def)

subsection \<open>Properties\<close>

text \<open>C28: the hex dump. For every buffer of the given length (less than 16 bytes from the top of the
  address space), \<open>ns_hex_dump\<close> ends, stays inside the buffer and its line, and feeds the sink
  the rows of the dump in order, stopping at the first one the sink refuses and reporting whether
  there was one.\<close>

theorem hex_dump_exact:
  assumes "unat len \<le> length data" "unat len + 16 \<le> 2 ^ 64"
  shows "ns_hex_dump data len sink ctx = Some (feed sink ctx (hex_rows 0 (take (unat len) data)))"
  using ns_hex_dump_rows [OF assms] .

theorem hex_dump_exact_witness:
  "ns_hex_dump [0x41, 0] 2 (\<lambda>ls l. (True, ls @ [l])) [] =
     Some (True, [''0000  41 00 '' @ replicate 44 CHR '' '' @ ''A.'' @ [CHR 0x0A]])"
proof -
  have "hex_rows 0 [0x41, 0] = [''0000  41 00 '' @ replicate 44 CHR '' '' @ ''A.'' @ [CHR 0x0A]]" by code_simp
  then show ?thesis using hex_dump_exact [of 2 "[0x41, 0]" "\<lambda>ls l. (True, ls @ [l])" "[]"] by simp
qed

text \<open>\<open>append_line\<close> clamps. Whatever text it is given, it stays inside the buffer, the buffer then
  holds the old text followed by as much of the new one as fits before the terminator, and the
  position it returns is the end of that text, still inside the buffer.\<close>

lemma append_line_clamps:
  assumes "take (unat pos) buf = acc" "unat pos = length acc" "unat buf_len = length buf"
    and "length acc < length buf" "length s < 2 ^ 31"
  shows "\<exists>q pos'. append_line buf buf_len pos s = Some (q, pos') \<and> length q = length buf \<and>
    take (unat pos') q = take (length buf - 1) (acc @ s) \<and>
    unat pos' = min (length buf - 1) (length acc + length s)"
proof -
  have "holds buf acc" using assms(1,2) by (simp add: holds_def)
  from append_line_clamp [OF this assms(2-5)] obtain q pos' where "append_line buf buf_len pos s = Some (q, pos')"
    "length q = length buf" "holds q (take (length buf - 1) (acc @ s))"
    "unat pos' = min (length buf - 1) (length acc + length s)" .
  moreover have "length (take (length buf - 1) (acc @ s)) = min (length buf - 1) (length acc + length s)"
    by (simp only: length_take length_append min.commute)
  ultimately show ?thesis unfolding holds_def by metis
qed

lemma append_line_clamps_example:
  "\<exists>q pos'. append_line (stack_buf 4) 4 0 ''abcdef'' = Some (q, pos') \<and> take (unat pos') q = ''abc'' \<and> unat pos' = 3"
  using append_line_clamps [of 0 "stack_buf 4" "[]" 4 "''abcdef''"] by (auto simp: stack_buf_def)

end
