(* ===== verification/NS_Probing.thy ===== *)
theory NS_Probing
  imports Main
begin

section \<open>Linear probing\<close>

text \<open>
  The contract of an open-addressing table without deletion, over any key type, capacity and home
  position: the invariant that makes a search that stops at the first free slot complete, the
  finite map such a table stands for, and what an update, an insertion and a failed search do to
  that map. The flow table of \<^verbatim>\<open>stats.c\<close> is an instance.
\<close>

type_synonym ('k, 'v) slots = "('k \<times> 'v) option list"

text \<open>The \<open>i\<close>-th slot that a search for a key with home position \<open>h\<close> looks at, and the
  entries of a table in slot order.\<close>

definition probe :: "nat \<Rightarrow> nat \<Rightarrow> nat \<Rightarrow> nat" where
  "probe cap h i = (h + i) mod cap"

definition entries :: "('k, 'v) slots \<Rightarrow> ('k \<times> 'v) list" where
  "entries t = List.map_filter id t"

definition table_map :: "('k, 'v) slots \<Rightarrow> 'k \<rightharpoonup> 'v" where
  "table_map t = map_of (entries t)"

text \<open>The first \<open>n\<close> slots of a search hold other keys.\<close>

definition passed :: "nat \<Rightarrow> nat \<Rightarrow> ('k, 'v) slots \<Rightarrow> 'k \<Rightarrow> nat \<Rightarrow> bool" where
  "passed cap h t k n \<longleftrightarrow> (\<forall>i < n. \<exists>k' v. t ! probe cap h i = Some (k', v) \<and> k' \<noteq> k)"

definition probe_inv :: "nat \<Rightarrow> ('k \<Rightarrow> nat) \<Rightarrow> ('k, 'v) slots \<Rightarrow> bool" where
  "probe_inv cap home t \<longleftrightarrow> length t = cap \<and>
     (\<forall>j < cap. \<forall>k v. t ! j = Some (k, v) \<longrightarrow>
        (\<exists>n < cap. j = probe cap (home k) n \<and> passed cap (home k) t k n))"

lemma passed_Suc:
  "passed cap h t k n \<Longrightarrow> t ! probe cap h n = Some (k', v) \<Longrightarrow> k' \<noteq> k \<Longrightarrow> passed cap h t k (Suc n)"
  by (auto simp: passed_def less_Suc_eq)

lemma set_entries: "set (entries t) = {e. Some e \<in> set t}"
  by (induction t) (auto simp: entries_def map_filter_simps split: option.splits)

lemma entries_Nil [simp]: "entries [] = []"
  by (simp add: entries_def map_filter_simps)

lemma entries_replicate [simp]: "entries (replicate n None) = []"
  by (induction n) (simp_all add: entries_def map_filter_simps)

lemma entries_append [simp]: "entries (xs @ ys) = entries xs @ entries ys"
  by (simp add: entries_def map_filter_def)

lemma entries_Cons [simp]: "entries (x # xs) = (case x of None \<Rightarrow> entries xs | Some e \<Rightarrow> e # entries xs)"
  by (simp add: entries_def map_filter_simps split: option.splits)

lemma entries_update:
  assumes "j < length t"
  shows "entries (t[j := Some e]) = entries (take j t) @ e # entries (drop (Suc j) t)"
  using assms by (simp add: upd_conv_take_nth_drop)

lemma entries_split:
  assumes "j < length t"
  shows "entries t = entries (take j t) @ (case t ! j of None \<Rightarrow> [] | Some e \<Rightarrow> [e]) @ entries (drop (Suc j) t)"
proof -
  have "entries t = entries (take j t @ t ! j # drop (Suc j) t)" using assms by (simp add: id_take_nth_drop [symmetric])
  then show ?thesis by (simp split: option.splits)
qed

lemma length_entries: "length (entries t) \<le> length t"
  by (induction t) (auto split: option.splits)

lemma length_entries_full: "length (entries t) = length t \<longleftrightarrow> None \<notin> set t"
proof (induction t)
  case (Cons x t)
  then show ?case using length_entries [of t] by (cases x) auto
qed simp

locale probing =
  fixes cap :: nat and home :: "'k \<Rightarrow> nat"
  assumes cap_pos: "0 < cap" and home_less: "home k < cap"
begin

lemma probe_less: "probe cap h i < cap"
  using cap_pos by (simp add: probe_def)

text \<open>A search of \<open>cap\<close> steps visits every slot.\<close>

lemma probe_onto: "j < cap \<Longrightarrow> \<exists>i < cap. probe cap (home k) i = j"
proof -
  assume j: "j < cap"
  let ?i = "(j + cap - home k) mod cap"
  have "home k + (j + cap - home k) = j + cap" using home_less [of k] by simp
  then have "probe cap (home k) ?i = j" using j by (simp add: probe_def mod_add_right_eq)
  moreover have "?i < cap" using cap_pos by simp
  ultimately show ?thesis by blast
qed

lemma empty_inv: "probe_inv cap home (replicate cap None)"
  by (simp add: probe_inv_def)

lemma key_slot_unique:
  fixes t :: "('k, 'v) slots"
  assumes "probe_inv cap home t" "i < cap" "j < cap" "t ! i = Some (k, v)" "t ! j = Some (k, w)"
  shows "i = j"
proof -
  obtain m where m: "i = probe cap (home k) m" "passed cap (home k) t k m"
    using assms unfolding probe_inv_def by blast
  obtain n where n: "j = probe cap (home k) n" "passed cap (home k) t k n"
    using assms unfolding probe_inv_def by blast
  have "\<not> m < n" using assms m n unfolding passed_def by fastforce
  moreover have "\<not> n < m" using assms m n unfolding passed_def by fastforce
  ultimately show ?thesis using m n by simp
qed

lemma keys_distinct:
  assumes inv: "probe_inv cap home (t :: ('k, 'v) slots)"
  shows "distinct (map fst (entries t))"
proof -
  have len: "length t = cap" using inv by (simp add: probe_inv_def)
  have "distinct (map fst (entries (take n t)))" if "n \<le> cap" for n
    using that
  proof (induction n)
    case (Suc n)
    then have n: "n < length t" "n < cap" using len by simp_all
    have "fst e \<notin> fst ` set (entries (take n t))" if e: "t ! n = Some e" for e
    proof
      assume "fst e \<in> fst ` set (entries (take n t))"
      then obtain v where "Some (fst e, v) \<in> set (take n t)" by (auto simp: set_entries)
      then obtain i where i: "i < n" "t ! i = Some (fst e, v)" using n by (auto simp: in_set_conv_nth)
      have "t ! n = Some (fst e, snd e)" using e by simp
      from key_slot_unique [OF inv _ n(2) i(2) this] i(1) n(2) show False by simp
    qed
    with Suc n show ?case by (auto simp: take_Suc_conv_app_nth split: option.splits)
  qed simp
  from this [of cap] len show ?thesis by simp
qed

lemma table_map_slot:
  assumes "probe_inv cap home (t :: ('k, 'v) slots)"
  shows "table_map t k = Some v \<longleftrightarrow> (\<exists>j < cap. t ! j = Some (k, v))"
proof -
  have "table_map t k = Some v \<longleftrightarrow> (k, v) \<in> set (entries t)"
    using keys_distinct [OF assms] by (simp add: table_map_def)
  also have "\<dots> \<longleftrightarrow> (\<exists>j < cap. t ! j = Some (k, v))"
    using assms by (auto simp: set_entries in_set_conv_nth probe_inv_def)
  finally show ?thesis .
qed

lemma card_dom: "probe_inv cap home (t :: ('k, 'v) slots) \<Longrightarrow> card (dom (table_map t)) = length (entries t)"
  using distinct_card [OF keys_distinct, of t] by (simp add: table_map_def dom_map_of_conv_image_fst)

lemma passed_mono: "passed cap h t k n \<Longrightarrow> m \<le> n \<Longrightarrow> passed cap h t k m"
  by (simp add: passed_def)

lemma passed_update:
  assumes "passed cap h t k n" "length t = cap" "\<And>i. i < n \<Longrightarrow> probe cap h i = j \<Longrightarrow> k' \<noteq> k"
  shows "passed cap h (t[j := Some (k', v)]) k n"
  unfolding passed_def
proof (intro allI impI)
  fix i assume i: "i < n"
  then obtain k'' v'' where "t ! probe cap h i = Some (k'', v'')" "k'' \<noteq> k" using assms(1) by (auto simp: passed_def)
  with assms(2,3) i probe_less [of h i]
  show "\<exists>k'' v''. t[j := Some (k', v)] ! probe cap h i = Some (k'', v'') \<and> k'' \<noteq> k"
    by (cases "probe cap h i = j") auto
qed

text \<open>Writing a key into the slot where its search ends keeps the invariant, whether the slot was free
  or held that key.\<close>

lemma write_inv:
  assumes inv: "probe_inv cap home (t :: ('k, 'v) slots)" and n: "n < cap" "passed cap (home k) t k n"
    and slot: "t ! probe cap (home k) n = None \<or> (\<exists>v. t ! probe cap (home k) n = Some (k, v))"
  shows "probe_inv cap home (t[probe cap (home k) n := Some (k, w)])"
proof -
  let ?j = "probe cap (home k) n"
  have len: "length t = cap" using inv by (simp add: probe_inv_def)
  have "\<exists>m < cap. i = probe cap (home k') m \<and> passed cap (home k') (t[?j := Some (k, w)]) k' m"
    if i: "i < cap" and e: "t[?j := Some (k, w)] ! i = Some (k', v')" for i k' v'
  proof (cases "i = ?j")
    case True
    then have k: "k' = k" using e len i by simp
    have "probe cap (home k) i' \<noteq> ?j" if "i' < n" for i'
      using n(2) slot that unfolding passed_def by fastforce
    then have "passed cap (home k) (t[?j := Some (k, w)]) k n" using passed_update [OF n(2) len] by blast
    with True k n(1) show ?thesis by blast
  next
    case False
    then have "t ! i = Some (k', v')" using e by simp
    then obtain m where m: "m < cap" "i = probe cap (home k') m" "passed cap (home k') t k' m"
      using inv i unfolding probe_inv_def by blast
    have "k \<noteq> k'" if "i' < m" "probe cap (home k') i' = ?j" for i'
      using m(3) slot that unfolding passed_def by fastforce
    then have "passed cap (home k') (t[?j := Some (k, w)]) k' m" using passed_update [OF m(3) len] by blast
    with m show ?thesis by blast
  qed
  with len show ?thesis by (simp add: probe_inv_def)
qed

lemma write_map:
  assumes inv: "probe_inv cap home (t :: ('k, 'v) slots)" and n: "n < cap" "passed cap (home k) t k n"
    and slot: "t ! probe cap (home k) n = None \<or> (\<exists>v. t ! probe cap (home k) n = Some (k, v))"
  shows "table_map (t[probe cap (home k) n := Some (k, w)]) = (table_map t)(k \<mapsto> w)"
proof
  fix k'
  let ?j = "probe cap (home k) n" let ?t = "t[probe cap (home k) n := Some (k, w)]"
  note inv' = write_inv [OF assms, of w]
  have j: "?j < cap" "length t = cap" using inv probe_less by (simp_all add: probe_inv_def)
  have w: "table_map ?t k = Some w" using table_map_slot [OF inv'] j by (metis nth_list_update_eq)
  have other: "table_map ?t k' = Some v \<longleftrightarrow> table_map t k' = Some v" if "k' \<noteq> k" for v
  proof -
    have "?t ! i = Some (k', v) \<longleftrightarrow> t ! i = Some (k', v)" if "i < cap" for i
      using slot \<open>k' \<noteq> k\<close> j that by (cases "i = ?j") auto
    then show ?thesis using table_map_slot [OF inv'] table_map_slot [OF inv] by auto
  qed
  then have "table_map ?t k' = table_map t k'" if "k' \<noteq> k" using that by (metis option.exhaust)
  then show "table_map ?t k' = ((table_map t)(k \<mapsto> w)) k'"
    using w by simp
qed

text \<open>A search that found a free slot, or went round the table, proves the key absent; in the second
  case the table is full.\<close>

lemma absent:
  assumes inv: "probe_inv cap home (t :: ('k, 'v) slots)" and n: "n \<le> cap" "passed cap (home k) t k n"
    and slot: "n = cap \<or> t ! probe cap (home k) n = None"
  shows "table_map t k = None"
proof (rule ccontr)
  assume "table_map t k \<noteq> None"
  then obtain v j where "j < cap" "t ! j = Some (k, v)" using table_map_slot [OF inv] by blast
  with inv obtain m where m: "m < cap" "j = probe cap (home k) m" "passed cap (home k) t k m"
    unfolding probe_inv_def by blast
  have "\<not> m < n" using n(2) \<open>t ! j = Some (k, v)\<close> m(2) unfolding passed_def by fastforce
  with slot m n have "n < m" using \<open>t ! j = Some (k, v)\<close> by (cases "n = m") auto
  then show False using m(1,3) slot unfolding passed_def by fastforce
qed

lemma full:
  assumes inv: "probe_inv cap home (t :: ('k, 'v) slots)" and n: "passed cap (home k) t k cap"
  shows "card (dom (table_map t)) = cap"
proof -
  have len: "length t = cap" using inv by (simp add: probe_inv_def)
  have "t ! j \<noteq> None" if "j < cap" for j
    using probe_onto [OF that, of k] n unfolding passed_def by force
  then have "None \<notin> set t" using len by (auto simp: in_set_conv_nth)
  then show ?thesis using card_dom [OF inv] length_entries_full [of t] len by simp
qed

lemma not_full:
  assumes inv: "probe_inv cap home (t :: ('k, 'v) slots)" and "j < cap" "t ! j = None"
  shows "card (dom (table_map t)) < cap"
proof -
  have len: "length t = cap" using inv by (simp add: probe_inv_def)
  then have "None \<in> set t" using assms(2,3) by (metis nth_mem)
  then have "length (entries t) \<noteq> length t" by (simp add: length_entries_full)
  then show ?thesis using card_dom [OF inv] length_entries [of t] len by simp
qed

end

end
