(* ===== verification/NS_Proto.thy ===== *)
theory NS_Proto
  imports NS_Util
begin

section \<open>proto_common.h: parse results and the contract of a header parser\<close>

text \<open>
  A parser takes the buffer, the number of captured bytes and the structure its caller passes by
  pointer, and returns the status with the structure as it is left. A parser with a
  \<open>header_len\<close> out-parameter also returns that variable, \<open>None\<close> when it was not
  assigned. The contract the packet decoder relies on is stated as two locales; each protocol
  theory interprets one of them on its parser.
\<close>

datatype ns_parse_status_t =
  NS_PARSE_OK | NS_PARSE_TRUNCATED | NS_PARSE_MALFORMED | NS_PARSE_UNSUPPORTED

type_synonym 'o body_res = "(ns_parse_status_t \<times> 'o) option"
type_synonym 'o header_res = "(ns_parse_status_t \<times> 'o \<times> size_t option) option"

text \<open>A parser with no \<open>header_len\<close>: defined on every captured buffer, and a function of the
  captured bytes only.\<close>

locale body_parser =
  fixes parse :: "bytes \<Rightarrow> size_t \<Rightarrow> 'o \<Rightarrow> (ns_parse_status_t \<times> 'o) option"
    and min_len :: nat
  assumes total: "unat len \<le> length data \<Longrightarrow> \<exists>st out'. parse data len out = Some (st, out')"
    and ok_min: "unat len \<le> length data \<Longrightarrow> parse data len out = Some (NS_PARSE_OK, out') \<Longrightarrow>
      min_len \<le> unat len"
    and captured_only: "unat len \<le> length data \<Longrightarrow>
      parse (take (unat len) data) len out = parse data len out"
begin

text \<open>The call \<open>parse(data + offset, length - offset, out)\<close>.\<close>

lemma parse_at:
  assumes "unat offset \<le> unat len" "unat len \<le> length data"
  obtains st out' where "parse (drop (unat offset) data) (len - offset) out = Some (st, out')"
    "st = NS_PARSE_OK \<Longrightarrow> unat offset + min_len \<le> unat len"
proof -
  have "unat (len - offset) \<le> length (drop (unat offset) data)"
    using assms by (simp add: unat_sub_le)
  then obtain st out' where p: "parse (drop (unat offset) data) (len - offset) out = Some (st, out')"
    and "st = NS_PARSE_OK \<Longrightarrow> min_len \<le> unat (len - offset)"
    using total ok_min by metis
  moreover from this assms have "st = NS_PARSE_OK \<Longrightarrow> unat offset + min_len \<le> unat len"
    by (simp add: unat_sub_le)
  ultimately show thesis using that by blast
qed

end

text \<open>A parser that reports the length of the header it accepted: when it accepts, the length is
  assigned, at least the protocol's minimum and at most the captured length.\<close>

locale header_parser =
  fixes parse :: "bytes \<Rightarrow> size_t \<Rightarrow> 'o \<Rightarrow> (ns_parse_status_t \<times> 'o \<times> size_t option) option"
    and min_len :: nat
  assumes total: "unat len \<le> length data \<Longrightarrow> \<exists>st out' h. parse data len out = Some (st, out', h)"
    and ok_header: "unat len \<le> length data \<Longrightarrow> parse data len out = Some (NS_PARSE_OK, out', h) \<Longrightarrow>
      \<exists>n. h = Some n \<and> min_len \<le> unat n \<and> unat n \<le> unat len"
    and captured_only: "unat len \<le> length data \<Longrightarrow>
      parse (take (unat len) data) len out = parse data len out"
begin

text \<open>The call \<open>parse(data + offset, length - offset, out, &n)\<close> and the offset of the next
  layer: \<open>offset + n\<close> does not wrap and stays inside the captured bytes.\<close>

lemma parse_at:
  assumes "unat offset \<le> unat len" "unat len \<le> length data"
  obtains st out' h where "parse (drop (unat offset) data) (len - offset) out = Some (st, out', h)"
    "st = NS_PARSE_OK \<Longrightarrow> \<exists>n. h = Some n \<and> min_len \<le> unat n \<and>
       unat (offset + n) = unat offset + unat n \<and> unat (offset + n) \<le> unat len"
proof -
  have rem: "unat (len - offset) = unat len - unat offset" using assms by (simp add: unat_sub_le)
  then have "unat (len - offset) \<le> length (drop (unat offset) data)" using assms by simp
  then obtain st out' h where
    p: "parse (drop (unat offset) data) (len - offset) out = Some (st, out', h)"
    and h: "st = NS_PARSE_OK \<Longrightarrow> \<exists>n. h = Some n \<and> min_len \<le> unat n \<and> unat n \<le> unat (len - offset)"
    using total ok_header by metis
  have "\<exists>n. h = Some n \<and> min_len \<le> unat n \<and>
       unat (offset + n) = unat offset + unat n \<and> unat (offset + n) \<le> unat len"
    if "st = NS_PARSE_OK"
  proof -
    from h [OF that] obtain n where n: "h = Some n" "min_len \<le> unat n" "unat n \<le> unat (len - offset)"
      by blast
    then have "unat offset + unat n \<le> unat len" using rem assms by simp
    then show ?thesis using n unat_add_le [of offset n len] by auto
  qed
  with p show thesis using that by blast
qed

end

end
