(* ===== verification/NS_Ethernet.thy ===== *)
theory NS_Ethernet
  imports NS_Proto
begin

section \<open>ethernet.c: Ethernet II framing with an optional 802.1Q tag\<close>

text \<open>
  \<open>ns_parse_ethernet\<close> with its structure. The parser clears and fills the structure before
  it knows whether the VLAN tag was captured, so a truncated tag leaves the two addresses behind;
  the model keeps that. Shown: the exact result on every captured buffer, the contract
  \<open>header_parser\<close>, and the round trip from a frame's fields.
\<close>

abbreviation NS_ETH_ADDR_LEN :: size_t where "NS_ETH_ADDR_LEN \<equiv> 6"
abbreviation NS_ETH_HEADER_LEN :: size_t where "NS_ETH_HEADER_LEN \<equiv> 14"
abbreviation NS_VLAN_TAG_LEN :: size_t where "NS_VLAN_TAG_LEN \<equiv> 4"
abbreviation NS_ETHERTYPE_IPV4 :: u16 where "NS_ETHERTYPE_IPV4 \<equiv> 0x0800"
abbreviation NS_ETHERTYPE_ARP :: u16 where "NS_ETHERTYPE_ARP \<equiv> 0x0806"
abbreviation NS_ETHERTYPE_IPV6 :: u16 where "NS_ETHERTYPE_IPV6 \<equiv> 0x86DD"
abbreviation NS_ETHERTYPE_VLAN :: u16 where "NS_ETHERTYPE_VLAN \<equiv> 0x8100"

record ns_eth_info_t =
  eth_destination :: bytes
  eth_source :: bytes
  eth_ethertype :: u16
  eth_has_vlan :: bool
  eth_vlan_id :: u16

text \<open>The structure after \<open>memset(out, 0, sizeof(*out))\<close>.\<close>

definition ns_eth_zero :: ns_eth_info_t where
  "ns_eth_zero = \<lparr> eth_destination = replicate 6 0, eth_source = replicate 6 0,
     eth_ethertype = 0, eth_has_vlan = False, eth_vlan_id = 0 \<rparr>"

definition ns_parse_ethernet :: "bytes \<Rightarrow> size_t \<Rightarrow> ns_eth_info_t \<Rightarrow> ns_eth_info_t header_res" where
  "ns_parse_ethernet data len out =
     (if \<not> ns_bounds_check len 0 NS_ETH_HEADER_LEN then Some (NS_PARSE_TRUNCATED, out, None)
      else do {
        let out = ns_eth_zero;
        dst \<leftarrow> mem_read data 0 NS_ETH_ADDR_LEN;
        let out = out\<lparr> eth_destination := dst \<rparr>;
        src \<leftarrow> mem_read data NS_ETH_ADDR_LEN NS_ETH_ADDR_LEN;
        let out = out\<lparr> eth_source := src \<rparr>;
        rd \<leftarrow> ns_read_u16_be data len (2 * NS_ETH_ADDR_LEN);
        (case rd of
           None \<Rightarrow> Some (NS_PARSE_TRUNCATED, out, None)
         | Some ethertype \<Rightarrow>
             (if ethertype = NS_ETHERTYPE_VLAN
              then (if \<not> ns_bounds_check len 0 (NS_ETH_HEADER_LEN + NS_VLAN_TAG_LEN)
                    then Some (NS_PARSE_TRUNCATED, out, None)
                    else do {
                      vlan_field \<leftarrow> out_param (ns_read_u16_be data len (2 * NS_ETH_ADDR_LEN + 2));
                      inner_type \<leftarrow> out_param (ns_read_u16_be data len (2 * NS_ETH_ADDR_LEN + 4));
                      let out = out\<lparr> eth_has_vlan := True, eth_vlan_id := vlan_field AND 0x0FFF \<rparr>;
                      Some (NS_PARSE_OK, out\<lparr> eth_ethertype := inner_type \<rparr>,
                            Some (NS_ETH_HEADER_LEN + NS_VLAN_TAG_LEN)) })
              else Some (NS_PARSE_OK, out\<lparr> eth_ethertype := ethertype \<rparr>,
                         Some NS_ETH_HEADER_LEN))) })"

subsection \<open>The result on every captured buffer\<close>

lemma ns_parse_ethernet_eq:
  assumes "unat len \<le> length data"
  shows "ns_parse_ethernet data len out = Some (
    let macs = ns_eth_zero\<lparr> eth_destination := take 6 data, eth_source := take 6 (drop 6 data) \<rparr> in
    if unat len < 14 then (NS_PARSE_TRUNCATED, out, None)
    else if be16 data 12 \<noteq> 0x8100 then (NS_PARSE_OK, macs\<lparr> eth_ethertype := be16 data 12 \<rparr>, Some 14)
    else if unat len < 18 then (NS_PARSE_TRUNCATED, macs, None)
    else (NS_PARSE_OK, macs\<lparr> eth_ethertype := be16 data 16, eth_has_vlan := True,
            eth_vlan_id := be16 data 14 AND 0x0FFF \<rparr>, Some 18))"
  using assms
  by (simp add: ns_parse_ethernet_def ns_bounds_check_iff cmem Let_def not_le not_less)

interpretation eth: header_parser ns_parse_ethernet 14
proof unfold_locales
  fix data :: bytes and len :: size_t and out out' h
  assume len: "unat len \<le> length data"
  show "\<exists>st out' h. ns_parse_ethernet data len out = Some (st, out', h)"
    using ns_parse_ethernet_eq [OF len] by (metis prod_cases3)
  show "ns_parse_ethernet data len out = Some (NS_PARSE_OK, out', h) \<Longrightarrow>
      \<exists>n. h = Some n \<and> 14 \<le> unat n \<and> unat n \<le> unat len"
    using ns_parse_ethernet_eq [OF len, of out] by (auto simp: Let_def split: if_splits)
  show "ns_parse_ethernet (take (unat len) data) len out = ns_parse_ethernet data len out"
    using len by (auto simp: ns_parse_ethernet_eq Let_def wire take_drop min_def not_less)
qed

subsection \<open>Frames\<close>

definition eth_frame :: "bytes \<Rightarrow> bytes \<Rightarrow> nat option \<Rightarrow> nat \<Rightarrow> bytes \<Rightarrow> bytes" where
  "eth_frame dst src tci ethertype payload =
     dst @ src @ (case tci of None \<Rightarrow> [] | Some t \<Rightarrow> to_be 2 0x8100 @ to_be 2 t) @
     to_be 2 ethertype @ payload"

lemma ns_parse_ethernet_frame:
  assumes "length dst = 6" "length src = 6" "ethertype < 65536" "tci = None \<Longrightarrow> ethertype \<noteq> 0x8100"
    and "unat len = length (eth_frame dst src tci ethertype payload)"
  shows "ns_parse_ethernet (eth_frame dst src tci ethertype payload) len out =
    Some (NS_PARSE_OK,
      \<lparr> eth_destination = dst, eth_source = src, eth_ethertype = of_nat ethertype,
        eth_has_vlan = (tci \<noteq> None),
        eth_vlan_id = (case tci of None \<Rightarrow> 0 | Some t \<Rightarrow> of_nat (t mod 4096)) \<rparr>,
      Some (if tci = None then 14 else 18))"
proof (cases tci)
  case None
  have "(of_nat ethertype :: u16) \<noteq> 0x8100"
    using assms None by (simp add: word_unat_eq_iff unat_of_nat)
  with assms None show ?thesis
    by (simp add: ns_parse_ethernet_eq eth_frame_def wire ns_eth_zero_def)
next
  case (Some t)
  have "(of_nat t AND 0x0FFF :: u16) = of_nat (t mod 4096)"
    using unat_and_mask [of "of_nat t :: u16" 12]
    by (simp add: word_unat_eq_iff unat_of_nat mask_eq_exp_minus_1 mod_mod_cancel)
  with assms Some show ?thesis
    by (simp add: ns_parse_ethernet_eq eth_frame_def wire ns_eth_zero_def)
qed

subsection \<open>Properties\<close>

text \<open>C22: an Ethernet frame, with or without a VLAN tag, is read back: addresses, EtherType, the VLAN
  identifier (the low 12 bits of the tag) and the offset of the payload.\<close>

theorem ethernet_roundtrip:
  assumes "length dst = 6" "length src = 6" "ethertype < 65536" "tci = None \<Longrightarrow> ethertype \<noteq> 0x8100"
    and "unat len = length (eth_frame dst src tci ethertype payload)"
  shows "ns_parse_ethernet (eth_frame dst src tci ethertype payload) len out =
    Some (NS_PARSE_OK,
      \<lparr> eth_destination = dst, eth_source = src, eth_ethertype = of_nat ethertype,
        eth_has_vlan = (tci \<noteq> None),
        eth_vlan_id = (case tci of None \<Rightarrow> 0 | Some t \<Rightarrow> of_nat (t mod 4096)) \<rparr>,
      Some (if tci = None then 14 else 18))"
  using ns_parse_ethernet_frame [OF assms] .

theorem ethernet_roundtrip_witness:
  "ns_parse_ethernet (eth_frame [1, 2, 3, 4, 5, 6] [7, 8, 9, 10, 11, 12] (Some 0xE005) 0x0800 [42]) 19 ns_eth_zero =
    Some (NS_PARSE_OK, \<lparr> eth_destination = [1, 2, 3, 4, 5, 6], eth_source = [7, 8, 9, 10, 11, 12],
      eth_ethertype = 0x0800, eth_has_vlan = True, eth_vlan_id = 5 \<rparr>, Some 18)"
  using ethernet_roundtrip [where dst = "[1, 2, 3, 4, 5, 6]" and src = "[7, 8, 9, 10, 11, 12]" and ethertype = "0x0800"
    and tci = "Some 0xE005" and len = 19 and payload = "[42]" and out = ns_eth_zero]
  by (simp add: eth_frame_def)

end
