(* ===== verification/NS_Arp.thy ===== *)
theory NS_Arp
  imports NS_Ethernet
begin

section \<open>arp.c: ARP for Ethernet and IPv4\<close>

text \<open>
  \<open>ns_parse_arp\<close>: the fixed part, the test that the packet is the Ethernet/IPv4 case
  (anything else is unsupported, not malformed), and the four addresses. The protocol addresses
  keep the wire's byte order.
\<close>

abbreviation NS_ARP_OP_REQUEST :: u16 where "NS_ARP_OP_REQUEST \<equiv> 1"
abbreviation NS_ARP_OP_REPLY :: u16 where "NS_ARP_OP_REPLY \<equiv> 2"
abbreviation NS_ARP_HTYPE_ETHERNET :: u16 where "NS_ARP_HTYPE_ETHERNET \<equiv> 1"
abbreviation NS_ARP_PTYPE_IPV4 :: u16 where "NS_ARP_PTYPE_IPV4 \<equiv> 0x0800"
abbreviation NS_ARP_HEADER_LEN :: size_t where "NS_ARP_HEADER_LEN \<equiv> 8"

record ns_arp_info_t =
  arp_operation :: u16
  arp_sender_mac :: bytes
  arp_sender_ip :: u32
  arp_target_mac :: bytes
  arp_target_ip :: u32

definition ns_arp_zero :: ns_arp_info_t where
  "ns_arp_zero = \<lparr> arp_operation = 0, arp_sender_mac = replicate 6 0, arp_sender_ip = 0,
     arp_target_mac = replicate 6 0, arp_target_ip = 0 \<rparr>"

definition ns_parse_arp :: "bytes \<Rightarrow> size_t \<Rightarrow> ns_arp_info_t \<Rightarrow> ns_arp_info_t body_res" where
  "ns_parse_arp data len out =
     (if \<not> ns_bounds_check len 0 NS_ARP_HEADER_LEN then Some (NS_PARSE_TRUNCATED, out)
      else do {
        htype \<leftarrow> out_param (ns_read_u16_be data len 0);
        ptype \<leftarrow> out_param (ns_read_u16_be data len 2);
        hlen \<leftarrow> out_param (ns_read_u8 data len 4);
        plen \<leftarrow> out_param (ns_read_u8 data len 5);
        operation \<leftarrow> out_param (ns_read_u16_be data len 6);
        (if htype \<noteq> NS_ARP_HTYPE_ETHERNET \<or> ptype \<noteq> NS_ARP_PTYPE_IPV4 \<or> hlen \<noteq> 6 \<or> plen \<noteq> 4
         then Some (NS_PARSE_UNSUPPORTED, out)
         else do {
           let body_len = (2 * ucast hlen + 2 * ucast plen :: size_t);
           (if \<not> ns_bounds_check len NS_ARP_HEADER_LEN body_len then Some (NS_PARSE_TRUNCATED, out)
            else do {
              let out = ns_arp_zero\<lparr> arp_operation := operation \<rparr>;
              let off = NS_ARP_HEADER_LEN;
              smac \<leftarrow> mem_read data off NS_ETH_ADDR_LEN;
              let off = off + NS_ETH_ADDR_LEN;
              sip \<leftarrow> memcpy_u32 data off;
              let off = off + 4;
              tmac \<leftarrow> mem_read data off NS_ETH_ADDR_LEN;
              let off = off + NS_ETH_ADDR_LEN;
              tip \<leftarrow> memcpy_u32 data off;
              Some (NS_PARSE_OK, out\<lparr> arp_sender_mac := smac, arp_sender_ip := sip,
                      arp_target_mac := tmac, arp_target_ip := tip \<rparr>) }) }) })"

definition arp_supported :: "bytes \<Rightarrow> bool" where
  "arp_supported data \<longleftrightarrow>
     be16 data 0 = 1 \<and> be16 data 2 = 0x0800 \<and> data ! 4 = 6 \<and> data ! 5 = 4"

lemma ns_parse_arp_eq:
  assumes "unat len \<le> length data"
  shows "ns_parse_arp data len out = Some (
    if unat len < 8 then (NS_PARSE_TRUNCATED, out)
    else if \<not> arp_supported data then (NS_PARSE_UNSUPPORTED, out)
    else if unat len < 28 then (NS_PARSE_TRUNCATED, out)
    else (NS_PARSE_OK,
      \<lparr> arp_operation = be16 data 6, arp_sender_mac = window data 8 6,
        arp_sender_ip = u32_of_mem (window data 14 4), arp_target_mac = window data 18 6,
        arp_target_ip = u32_of_mem (window data 24 4) \<rparr>))"
  using assms
  by (simp add: ns_parse_arp_def arp_supported_def ns_bounds_check_iff cmem ns_arp_zero_def Let_def
      not_le not_less window_def)

interpretation arp: body_parser ns_parse_arp 28
proof unfold_locales
  fix data :: bytes and len :: size_t and out out'
  assume len: "unat len \<le> length data"
  show "\<exists>st out'. ns_parse_arp data len out = Some (st, out')"
    using ns_parse_arp_eq [OF len] by (metis surj_pair)
  show "ns_parse_arp data len out = Some (NS_PARSE_OK, out') \<Longrightarrow> 28 \<le> unat len"
    using ns_parse_arp_eq [OF len, of out] by (auto split: if_splits)
  show "ns_parse_arp (take (unat len) data) len out = ns_parse_arp data len out"
    using len by (auto simp: ns_parse_arp_eq arp_supported_def wire not_less)
qed

definition arp_packet :: "nat \<Rightarrow> bytes \<Rightarrow> bytes \<Rightarrow> bytes \<Rightarrow> bytes \<Rightarrow> bytes" where
  "arp_packet op smac sip tmac tip =
     to_be 2 1 @ to_be 2 0x0800 @ [6, 4] @ to_be 2 op @ smac @ sip @ tmac @ tip"

lemma ns_parse_arp_packet:
  assumes "length smac = 6" "length sip = 4" "length tmac = 6" "length tip = 4"
    and "unat len = length (arp_packet op smac sip tmac tip @ padding)"
  shows "ns_parse_arp (arp_packet op smac sip tmac tip @ padding) len out =
    Some (NS_PARSE_OK, \<lparr> arp_operation = of_nat op, arp_sender_mac = smac,
      arp_sender_ip = u32_of_mem sip, arp_target_mac = tmac, arp_target_ip = u32_of_mem tip \<rparr>)"
  using assms
  by (simp add: ns_parse_arp_eq arp_supported_def arp_packet_def wire nth_append window_def
      be_skip(1) [of "[6, 4]", simplified])

subsection \<open>Properties\<close>

text \<open>C23: an Ethernet/IPv4 ARP packet, with any trailing padding, is read back; a packet whose complete fixed part
  announces other address types or sizes is reported as unsupported, not as malformed.\<close>

theorem arp_exact:
  assumes "length smac = 6" "length sip = 4" "length tmac = 6" "length tip = 4"
    and "unat len = length (arp_packet op smac sip tmac tip @ padding)"
    and "unat n \<le> length data" "8 \<le> unat n" "\<not> arp_supported data"
  shows "ns_parse_arp (arp_packet op smac sip tmac tip @ padding) len out =
      Some (NS_PARSE_OK, \<lparr> arp_operation = of_nat op, arp_sender_mac = smac,
        arp_sender_ip = u32_of_mem sip, arp_target_mac = tmac, arp_target_ip = u32_of_mem tip \<rparr>) \<and>
    ns_parse_arp data n out = Some (NS_PARSE_UNSUPPORTED, out)"
  using ns_parse_arp_packet [OF assms(1-5)] ns_parse_arp_eq [OF assms(6), of out] assms(7,8) by simp

theorem arp_exact_witness:
  "ns_parse_arp (arp_packet 1 [1, 2, 3, 4, 5, 6] [10, 0, 0, 1] (replicate 6 0) [10, 0, 0, 2] @ []) 28 ns_arp_zero =
      Some (NS_PARSE_OK, \<lparr> arp_operation = 1, arp_sender_mac = [1, 2, 3, 4, 5, 6],
        arp_sender_ip = u32_of_mem [10, 0, 0, 1], arp_target_mac = replicate 6 0, arp_target_ip = u32_of_mem [10, 0, 0, 2] \<rparr>) \<and>
    ns_parse_arp (replicate 8 0) 8 ns_arp_zero = Some (NS_PARSE_UNSUPPORTED, ns_arp_zero)"
  using arp_exact [of "[1, 2, 3, 4, 5, 6]" "[10, 0, 0, 1]" "replicate 6 0" "[10, 0, 0, 2]" 28 1 "[]" 8 "replicate 8 0" ns_arp_zero]
  by (simp add: arp_packet_def arp_supported_def)

end
