(* ===== verification/NS_Ipv4.thy ===== *)
theory NS_Ipv4
  imports NS_Proto
begin

section \<open>ipv4.c: the IPv4 header\<close>

text \<open>
  \<open>ns_parse_ipv4\<close>: version, header length, the fixed fields and the fragmentation flags.
  \<open>total_length\<close> is checked against the header only, never against the captured length.
  Shown: the exact result on every captured buffer, the contract \<open>header_parser\<close>, and the
  round trip from an encoded header with options.
\<close>

abbreviation NS_IPV4_MIN_HEADER_LEN :: size_t where "NS_IPV4_MIN_HEADER_LEN \<equiv> 20"

record ns_ipv4_info_t =
  ip4_version :: u8
  ip4_ihl :: u8
  ip4_dscp :: u8
  ip4_ecn :: u8
  ip4_total_length :: u16
  ip4_identification :: u16
  ip4_flag_df :: bool
  ip4_flag_mf :: bool
  ip4_fragment_offset :: u16
  ip4_ttl :: u8
  ip4_protocol :: u8
  ip4_header_checksum :: u16
  ip4_source :: u32
  ip4_destination :: u32
  ip4_header_length :: size_t
  ip4_is_fragment :: bool
  ip4_is_initial_fragment :: bool

definition ns_ipv4_zero :: ns_ipv4_info_t where
  "ns_ipv4_zero = \<lparr> ip4_version = 0, ip4_ihl = 0, ip4_dscp = 0, ip4_ecn = 0, ip4_total_length = 0,
     ip4_identification = 0, ip4_flag_df = False, ip4_flag_mf = False, ip4_fragment_offset = 0,
     ip4_ttl = 0, ip4_protocol = 0, ip4_header_checksum = 0, ip4_source = 0, ip4_destination = 0,
     ip4_header_length = 0, ip4_is_fragment = False, ip4_is_initial_fragment = False \<rparr>"

definition ns_parse_ipv4 :: "bytes \<Rightarrow> size_t \<Rightarrow> ns_ipv4_info_t \<Rightarrow> ns_ipv4_info_t header_res" where
  "ns_parse_ipv4 data len out =
     (if \<not> ns_bounds_check len 0 NS_IPV4_MIN_HEADER_LEN then Some (NS_PARSE_TRUNCATED, out, None)
      else do {
        version_ihl \<leftarrow> out_param (ns_read_u8 data len 0);
        let version = drop_bit 4 version_ihl;
        let ihl = version_ihl AND 0x0F;
        (if version \<noteq> 4 then Some (NS_PARSE_MALFORMED, out, None)
         else if ihl < 5 then Some (NS_PARSE_MALFORMED, out, None)
         else do {
           let hdr_len = (ucast ihl * 4 :: size_t);
           (if \<not> ns_bounds_check len 0 hdr_len then Some (NS_PARSE_TRUNCATED, out, None)
            else do {
              dscp_ecn \<leftarrow> out_param (ns_read_u8 data len 1);
              total_length \<leftarrow> out_param (ns_read_u16_be data len 2);
              identification \<leftarrow> out_param (ns_read_u16_be data len 4);
              flags_frag \<leftarrow> out_param (ns_read_u16_be data len 6);
              ttl \<leftarrow> out_param (ns_read_u8 data len 8);
              protocol \<leftarrow> out_param (ns_read_u8 data len 9);
              checksum \<leftarrow> out_param (ns_read_u16_be data len 10);
              src \<leftarrow> memcpy_u32 data 12;
              dst \<leftarrow> memcpy_u32 data 16;
              (if ucast total_length < hdr_len then Some (NS_PARSE_MALFORMED, out, None)
               else do {
                 let out = ns_ipv4_zero\<lparr>
                   ip4_version := version, ip4_ihl := ihl,
                   ip4_dscp := drop_bit 2 dscp_ecn, ip4_ecn := dscp_ecn AND 0x03,
                   ip4_total_length := total_length, ip4_identification := identification,
                   ip4_flag_df := flags_frag AND 0x4000 \<noteq> 0,
                   ip4_flag_mf := flags_frag AND 0x2000 \<noteq> 0,
                   ip4_fragment_offset := flags_frag AND 0x1FFF,
                   ip4_ttl := ttl, ip4_protocol := protocol, ip4_header_checksum := checksum,
                   ip4_source := src, ip4_destination := dst, ip4_header_length := hdr_len \<rparr>;
                 let out = out\<lparr> ip4_is_fragment := ip4_flag_mf out \<or> ip4_fragment_offset out \<noteq> 0 \<rparr>;
                 let out = out\<lparr> ip4_is_initial_fragment :=
                   ip4_is_fragment out \<and> ip4_fragment_offset out = 0 \<rparr>;
                 Some (NS_PARSE_OK, out, Some hdr_len) }) }) }) })"

subsection \<open>The result on every captured buffer\<close>

definition ip4_hlen :: "bytes \<Rightarrow> nat" where
  "ip4_hlen data = unat (data ! 0) mod 16 * 4"

definition ip4_decoded :: "bytes \<Rightarrow> ns_ipv4_info_t" where
  "ip4_decoded data =
     (let frag = be16 data 6 in
      \<lparr> ip4_version = 4, ip4_ihl = data ! 0 AND 0x0F, ip4_dscp = drop_bit 2 (data ! 1),
        ip4_ecn = data ! 1 AND 0x03, ip4_total_length = be16 data 2, ip4_identification = be16 data 4,
        ip4_flag_df = (frag AND 0x4000 \<noteq> 0), ip4_flag_mf = (frag AND 0x2000 \<noteq> 0),
        ip4_fragment_offset = frag AND 0x1FFF, ip4_ttl = data ! 8, ip4_protocol = data ! 9,
        ip4_header_checksum = be16 data 10, ip4_source = u32_of_mem (window data 12 4),
        ip4_destination = u32_of_mem (window data 16 4), ip4_header_length = of_nat (ip4_hlen data),
        ip4_is_fragment = (frag AND 0x2000 \<noteq> 0 \<or> frag AND 0x1FFF \<noteq> 0),
        ip4_is_initial_fragment = (frag AND 0x2000 \<noteq> 0 \<and> frag AND 0x1FFF = 0) \<rparr>)"

lemma ns_parse_ipv4_eq:
  assumes "unat len \<le> length data"
  shows "ns_parse_ipv4 data len out = Some (
    if unat len < 20 then (NS_PARSE_TRUNCATED, out, None)
    else if unat (data ! 0) div 16 \<noteq> 4 \<or> ip4_hlen data < 20 then (NS_PARSE_MALFORMED, out, None)
    else if unat len < ip4_hlen data then (NS_PARSE_TRUNCATED, out, None)
    else if unat (be16 data 2) < ip4_hlen data then (NS_PARSE_MALFORMED, out, None)
    else (NS_PARSE_OK, ip4_decoded data, Some (of_nat (ip4_hlen data))))"
proof -
  let ?ihl = "data ! 0 AND 0x0F"
  have ihl: "unat ?ihl = unat (data ! 0) mod 16"
    using unat_and_mask [of "data ! 0" 4] by (simp add: mask_eq_exp_minus_1)
  have hlen: "unat (ucast ?ihl * 4 :: size_t) = ip4_hlen data"
    by (simp add: unat_word_ariths unat_ucast_up ihl ip4_hlen_def)
  then have hdr: "(ucast ?ihl * 4 :: size_t) = of_nat (ip4_hlen data)"
    by (simp flip: hlen)
  have ver: "drop_bit 4 (data ! 0) = 4 \<longleftrightarrow> unat (data ! 0) div 16 = 4"
    by (simp add: word_unat_eq_iff unat_drop_bit)
  have lt5: "?ihl < 5 \<longleftrightarrow> ip4_hlen data < 20"
    by (simp add: word_less_nat_alt ihl ip4_hlen_def)
  have tot: "(ucast (be16 data 2) :: size_t) < of_nat (ip4_hlen data) \<longleftrightarrow>
      unat (be16 data 2) < ip4_hlen data"
    using hlen hdr by (simp add: word_less_nat_alt unat_ucast_up)
  show ?thesis
    using assms hlen [unfolded hdr]
    by (auto simp: ns_parse_ipv4_def ns_bounds_check_iff cmem Let_def hdr ver lt5 tot
        ns_ipv4_zero_def ip4_decoded_def)
qed

interpretation ip4: header_parser ns_parse_ipv4 20
proof unfold_locales
  fix data :: bytes and len :: size_t and out out' h
  assume len: "unat len \<le> length data"
  show "\<exists>st out' h. ns_parse_ipv4 data len out = Some (st, out', h)"
    using ns_parse_ipv4_eq [OF len] by (metis prod_cases3)
  have "ip4_hlen data < 2 ^ 64"
    by (simp add: ip4_hlen_def less_trans [of _ 64] mult.commute)
  then show "ns_parse_ipv4 data len out = Some (NS_PARSE_OK, out', h) \<Longrightarrow>
      \<exists>n. h = Some n \<and> 20 \<le> unat n \<and> unat n \<le> unat len"
    using ns_parse_ipv4_eq [OF len, of out] by (auto simp: unat_of_nat_less split: if_splits)
  show "ns_parse_ipv4 (take (unat len) data) len out = ns_parse_ipv4 data len out"
    using len
    by (auto simp: ns_parse_ipv4_eq ip4_hlen_def ip4_decoded_def wire not_less Let_def)
qed

subsection \<open>Encoded headers\<close>

text \<open>An IPv4 header as RFC 791 lays it out, from the values of its fields, and when the fields of
  the structure describe a header.\<close>

definition ipv4_bytes :: "ns_ipv4_info_t \<Rightarrow> bytes \<Rightarrow> bytes" where
  "ipv4_bytes i options =
     [of_nat (unat (ip4_version i) * 16 + unat (ip4_ihl i)),
      of_nat (unat (ip4_dscp i) * 4 + unat (ip4_ecn i))] @
     to_be 2 (unat (ip4_total_length i)) @ to_be 2 (unat (ip4_identification i)) @
     to_be 2 (of_bool (ip4_flag_df i) * 0x4000 + of_bool (ip4_flag_mf i) * 0x2000 +
              unat (ip4_fragment_offset i)) @
     [ip4_ttl i, ip4_protocol i] @ to_be 2 (unat (ip4_header_checksum i)) @
     mem_of_u32 (ip4_source i) @ mem_of_u32 (ip4_destination i) @ options"

definition ipv4_wf :: "ns_ipv4_info_t \<Rightarrow> bytes \<Rightarrow> bool" where
  "ipv4_wf i options \<longleftrightarrow>
     ip4_version i = 4 \<and> 5 \<le> unat (ip4_ihl i) \<and> unat (ip4_ihl i) < 16 \<and>
     unat (ip4_ihl i) * 4 = 20 + length options \<and>
     unat (ip4_dscp i) < 64 \<and> unat (ip4_ecn i) < 4 \<and> unat (ip4_fragment_offset i) < 8192 \<and>
     ip4_header_length i = of_nat (20 + length options) \<and>
     20 + length options \<le> unat (ip4_total_length i) \<and>
     ip4_is_fragment i = (ip4_flag_mf i \<or> ip4_fragment_offset i \<noteq> 0) \<and>
     ip4_is_initial_fragment i = (ip4_is_fragment i \<and> ip4_fragment_offset i = 0)"

lemma length_ipv4_bytes [simp]: "length (ipv4_bytes i options) = 20 + length options"
  by (simp add: ipv4_bytes_def)

lemma ipv4_flag_word:
  fixes w :: u16
  assumes "frag < 8192" and w_def: "w = of_nat (of_bool df * 0x4000 + of_bool mf * 0x2000 + frag)"
  shows "w AND 0x4000 \<noteq> 0 \<longleftrightarrow> df" "w AND 0x2000 \<noteq> 0 \<longleftrightarrow> mf" "w AND 0x1FFF = of_nat frag"
proof -
  have w: "unat w = of_bool df * 0x4000 + of_bool mf * 0x2000 + frag"
    using assms by (auto simp: w_def unat_of_nat unat_word_ariths)
  have "unat w div 0x4000 = of_bool df" "unat w div 0x2000 = 2 * of_bool df + of_bool mf"
    using assms(1) by (auto simp: w intro!: div_nat_eqI)
  then show "w AND 0x4000 \<noteq> 0 \<longleftrightarrow> df" "w AND 0x2000 \<noteq> 0 \<longleftrightarrow> mf"
    using and_exp_neq_0 [of 14 w] and_exp_neq_0 [of 13 w] by simp_all
  have "unat w = frag + (2 * of_bool df + of_bool mf) * 0x2000" by (simp add: w)
  then have "unat w mod 0x2000 = frag" using assms(1) by (simp only: mod_mult_self1 mod_less)
  then show "w AND 0x1FFF = of_nat frag"
    using unat_and_mask [of w 13] assms(1)
    by (simp add: word_unat_eq_iff unat_of_nat mask_eq_exp_minus_1)
qed

lemma ipv4_bytes_decoded:
  assumes wf: "ipv4_wf i options" and pkt_def: "pkt = ipv4_bytes i options @ payload"
  shows "unat (pkt ! 0) div 16 = 4" "ip4_hlen pkt = 20 + length options"
    "unat (be16 pkt 2) = unat (ip4_total_length i)" "ip4_decoded pkt = i"
proof -
  have b0: "unat (pkt ! 0) = 64 + unat (ip4_ihl i)"
    using wf by (simp add: pkt_def ipv4_bytes_def ipv4_wf_def unat_of_nat unat_word_ariths)
  have "unat (ip4_ihl i) < 16" using wf by (simp add: ipv4_wf_def)
  then have q: "(64 + unat (ip4_ihl i)) div 16 = 4" "(64 + unat (ip4_ihl i)) mod 16 = unat (ip4_ihl i)"
    by presburger+
  then show "unat (pkt ! 0) div 16 = 4" and hlen: "ip4_hlen pkt = 20 + length options"
    using wf by (simp_all add: ipv4_wf_def ip4_hlen_def b0)
  have b1: "unat (pkt ! 1) = unat (ip4_dscp i) * 4 + unat (ip4_ecn i)"
    using wf by (simp add: pkt_def ipv4_bytes_def ipv4_wf_def unat_of_nat unat_word_ariths)
  have nibbles: "pkt ! 0 AND 0x0F = ip4_ihl i" "drop_bit 2 (pkt ! 1) = ip4_dscp i"
    "pkt ! 1 AND 0x03 = ip4_ecn i"
    using unat_and_mask [of "pkt ! 0" 4] unat_and_mask [of "pkt ! 1" 2] b0 b1 q wf
    by (simp_all add: word_unat_eq_iff unat_drop_bit mask_eq_exp_minus_1 ipv4_wf_def)
  have words: "be16 pkt 2 = ip4_total_length i" "be16 pkt 4 = ip4_identification i"
    "be16 pkt 10 = ip4_header_checksum i" "pkt ! 8 = ip4_ttl i" "pkt ! 9 = ip4_protocol i"
    "window pkt 12 4 = mem_of_u32 (ip4_source i)" "window pkt 16 4 = mem_of_u32 (ip4_destination i)"
    "be16 pkt 6 = of_nat (of_bool (ip4_flag_df i) * 0x4000 + of_bool (ip4_flag_mf i) * 0x2000 +
              unat (ip4_fragment_offset i))"
    by (simp_all add: pkt_def ipv4_bytes_def wire_cons wire nth_append window_def)
  then show "unat (be16 pkt 2) = unat (ip4_total_length i)" by simp
  have frag: "unat (ip4_fragment_offset i) < 8192" using wf by (simp add: ipv4_wf_def)
  show "ip4_decoded pkt = i"
    using wf unfolding ip4_decoded_def words nibbles Let_def ipv4_flag_word [OF frag refl] hlen
    by (cases i) (auto simp: ipv4_wf_def u32_of_mem_of_u32 simp del: of_nat_add)
qed

lemma ns_parse_ipv4_bytes:
  assumes wf: "ipv4_wf i options" and len: "unat len = length (ipv4_bytes i options @ payload)"
  shows "ns_parse_ipv4 (ipv4_bytes i options @ payload) len out =
    Some (NS_PARSE_OK, i, Some (ip4_header_length i))"
proof -
  have "\<not> unat (ip4_total_length i) < 20 + length options"
    "ip4_header_length i = of_nat (20 + length options)"
    using wf by (simp_all add: ipv4_wf_def del: of_nat_add)
  with len show ?thesis
    by (simp add: ns_parse_ipv4_eq ipv4_bytes_decoded [OF wf refl])
qed

subsection \<open>Properties\<close>

text \<open>C18: an IPv4 header with any options is read back field by field, including the fragmentation flags,
  and its length is reported.\<close>

theorem ipv4_roundtrip:
  assumes "ipv4_wf i options" "unat len = length (ipv4_bytes i options @ payload)"
  shows "ns_parse_ipv4 (ipv4_bytes i options @ payload) len out = Some (NS_PARSE_OK, i, Some (ip4_header_length i))"
  using ns_parse_ipv4_bytes [OF assms] .

definition sample_ipv4 :: ns_ipv4_info_t where
  "sample_ipv4 = ns_ipv4_zero\<lparr> ip4_version := 4, ip4_ihl := 6, ip4_total_length := 100, ip4_flag_mf := True,
     ip4_fragment_offset := 185, ip4_is_fragment := True, ip4_header_length := 24, ip4_protocol := 6, ip4_ttl := 64 \<rparr>"

theorem ipv4_roundtrip_witness:
  "ns_parse_ipv4 (ipv4_bytes sample_ipv4 [1, 1, 1, 0] @ [7]) 25 ns_ipv4_zero = Some (NS_PARSE_OK, sample_ipv4, Some 24)"
proof -
  have "ipv4_wf sample_ipv4 [1, 1, 1, 0]" by (simp add: ipv4_wf_def sample_ipv4_def ns_ipv4_zero_def)
  from ipv4_roundtrip [OF this, of 25 "[7]"] show ?thesis by (simp add: sample_ipv4_def)
qed



end
