(* ===== verification/NS_Ipv6.thy ===== *)
theory NS_Ipv6
  imports NS_Proto
begin

section \<open>ipv6.c: the IPv6 header and its extension headers\<close>

text \<open>
  \<open>ns_parse_ipv6\<close> and \<open>ns_ipv6_skip_extension_headers\<close>. The walk over the extension
  headers is specified by the relation \<open>ext_walk\<close> (a chain of \<open>k\<close> headers, each inside
  the captured bytes); the lemmas show that the walk accepts exactly the chains of at most seven
  headers, reports where they end, and never moves the offset past the captured bytes.
\<close>

abbreviation NS_IPV6_ADDR_LEN :: size_t where "NS_IPV6_ADDR_LEN \<equiv> 16"
abbreviation NS_IPV6_HEADER_LEN :: size_t where "NS_IPV6_HEADER_LEN \<equiv> 40"
abbreviation NS_IPV6_NEXT_HOP_BY_HOP :: u8 where "NS_IPV6_NEXT_HOP_BY_HOP \<equiv> 0"
abbreviation NS_IPV6_NEXT_ROUTING :: u8 where "NS_IPV6_NEXT_ROUTING \<equiv> 43"
abbreviation NS_IPV6_NEXT_FRAGMENT :: u8 where "NS_IPV6_NEXT_FRAGMENT \<equiv> 44"
abbreviation NS_IPV6_NEXT_DEST_OPTS :: u8 where "NS_IPV6_NEXT_DEST_OPTS \<equiv> 60"
abbreviation NS_IPV6_MAX_EXTENSION_HEADERS :: nat where "NS_IPV6_MAX_EXTENSION_HEADERS \<equiv> 8"

record ns_ipv6_info_t =
  ip6_version :: u8
  ip6_traffic_class :: u8
  ip6_flow_label :: u32
  ip6_payload_length :: u16
  ip6_next_header :: u8
  ip6_hop_limit :: u8
  ip6_source :: bytes
  ip6_destination :: bytes
  ip6_header_length :: size_t

definition ns_ipv6_zero :: ns_ipv6_info_t where
  "ns_ipv6_zero = \<lparr> ip6_version = 0, ip6_traffic_class = 0, ip6_flow_label = 0,
     ip6_payload_length = 0, ip6_next_header = 0, ip6_hop_limit = 0, ip6_source = replicate 16 0,
     ip6_destination = replicate 16 0, ip6_header_length = 0 \<rparr>"

definition ns_parse_ipv6 :: "bytes \<Rightarrow> size_t \<Rightarrow> ns_ipv6_info_t \<Rightarrow> ns_ipv6_info_t header_res" where
  "ns_parse_ipv6 data len out =
     (if \<not> ns_bounds_check len 0 NS_IPV6_HEADER_LEN then Some (NS_PARSE_TRUNCATED, out, None)
      else do {
        first_word \<leftarrow> out_param (ns_read_u32_be data len 0);
        let version = (ucast (drop_bit 28 first_word) :: u8);
        (if version \<noteq> 6 then Some (NS_PARSE_MALFORMED, out, None)
         else do {
           payload_length \<leftarrow> out_param (ns_read_u16_be data len 4);
           next_header \<leftarrow> out_param (ns_read_u8 data len 6);
           hop_limit \<leftarrow> out_param (ns_read_u8 data len 7);
           let out = ns_ipv6_zero\<lparr> ip6_version := version,
             ip6_traffic_class := ucast (drop_bit 20 first_word AND 0xFF),
             ip6_flow_label := first_word AND 0x000FFFFF,
             ip6_payload_length := payload_length, ip6_next_header := next_header,
             ip6_hop_limit := hop_limit \<rparr>;
           src \<leftarrow> mem_read data 8 NS_IPV6_ADDR_LEN;
           dst \<leftarrow> mem_read data 24 NS_IPV6_ADDR_LEN;
           let out = out\<lparr> ip6_source := src, ip6_destination := dst,
             ip6_header_length := NS_IPV6_HEADER_LEN \<rparr>;
           Some (NS_PARSE_OK, out, Some NS_IPV6_HEADER_LEN) }) })"

text \<open>The loop of \<open>ns_ipv6_skip_extension_headers\<close> with the iterations still allowed; the
  result is the returned \<open>bool\<close> with \<open>*offset\<close> and \<open>*next_header\<close>.\<close>

fun ns_ipv6_skip_loop ::
  "nat \<Rightarrow> bytes \<Rightarrow> size_t \<Rightarrow> size_t \<Rightarrow> u8 \<Rightarrow> (bool \<times> size_t \<times> u8) option" where
  "ns_ipv6_skip_loop 0 data len offset next_header = Some (False, offset, next_header)"
| "ns_ipv6_skip_loop (Suc n) data len offset next_header =
     (if next_header = NS_IPV6_NEXT_HOP_BY_HOP \<or> next_header = NS_IPV6_NEXT_ROUTING \<or>
         next_header = NS_IPV6_NEXT_DEST_OPTS
      then (if \<not> ns_bounds_check len offset 2 then Some (False, offset, next_header)
            else do {
              nxt \<leftarrow> out_param (ns_read_u8 data len offset);
              ext_len_units \<leftarrow> out_param (ns_read_u8 data len (offset + 1));
              let ext_len = ((ucast ext_len_units + 1) * 8 :: size_t);
              (if \<not> ns_bounds_check len offset ext_len then Some (False, offset, next_header)
               else ns_ipv6_skip_loop n data len (offset + ext_len) nxt) })
      else if next_header = NS_IPV6_NEXT_FRAGMENT
      then do {
        rd \<leftarrow> ns_read_u8 data len offset;
        (case rd of
           None \<Rightarrow> Some (False, offset, next_header)
         | Some nxt \<Rightarrow>
             (if \<not> ns_bounds_check len offset 8 then Some (False, offset, next_header)
              else ns_ipv6_skip_loop n data len (offset + 8) nxt)) }
      else Some (True, offset, next_header))"

definition ns_ipv6_skip_extension_headers ::
  "bytes \<Rightarrow> size_t \<Rightarrow> size_t \<Rightarrow> u8 \<Rightarrow> (bool \<times> size_t \<times> u8) option" where
  "ns_ipv6_skip_extension_headers data len offset next_header =
     ns_ipv6_skip_loop NS_IPV6_MAX_EXTENSION_HEADERS data len offset next_header"

subsection \<open>The header on every captured buffer\<close>

definition ip6_decoded :: "bytes \<Rightarrow> ns_ipv6_info_t" where
  "ip6_decoded data =
     \<lparr> ip6_version = 6, ip6_traffic_class = ucast (drop_bit 20 (be32 data 0) AND 0xFF),
       ip6_flow_label = be32 data 0 AND 0x000FFFFF, ip6_payload_length = be16 data 4,
       ip6_next_header = data ! 6, ip6_hop_limit = data ! 7, ip6_source = window data 8 16,
       ip6_destination = window data 24 16, ip6_header_length = 40 \<rparr>"

lemma ns_parse_ipv6_eq:
  assumes "unat len \<le> length data"
  shows "ns_parse_ipv6 data len out = Some (
    if unat len < 40 then (NS_PARSE_TRUNCATED, out, None)
    else if unat (be32 data 0) div 2 ^ 28 \<noteq> 6 then (NS_PARSE_MALFORMED, out, None)
    else (NS_PARSE_OK, ip6_decoded data, Some 40))"
proof -
  have "unat (be32 data 0) div 2 ^ 28 < 16" using unat_lt_2p32 [of "be32 data 0"] by simp
  then have "unat (ucast (drop_bit 28 (be32 data 0)) :: u8) = unat (be32 data 0) div 2 ^ 28"
    by (simp add: unsigned_ucast_eq unat_drop_bit take_bit_nat_eq_self)
  then have "(ucast (drop_bit 28 (be32 data 0)) :: u8) = 6 \<longleftrightarrow> unat (be32 data 0) div 2 ^ 28 = 6"
    by (simp add: word_unat_eq_iff)
  with assms show ?thesis
    by (auto simp: ns_parse_ipv6_def ns_bounds_check_iff cmem Let_def ns_ipv6_zero_def
        ip6_decoded_def window_def)
qed

interpretation ip6: header_parser ns_parse_ipv6 40
proof unfold_locales
  fix data :: bytes and len :: size_t and out out' h
  assume len: "unat len \<le> length data"
  show "\<exists>st out' h. ns_parse_ipv6 data len out = Some (st, out', h)"
    using ns_parse_ipv6_eq [OF len] by (metis prod_cases3)
  show "ns_parse_ipv6 data len out = Some (NS_PARSE_OK, out', h) \<Longrightarrow>
      \<exists>n. h = Some n \<and> 40 \<le> unat n \<and> unat n \<le> unat len"
    using ns_parse_ipv6_eq [OF len, of out] by (auto split: if_splits)
  show "ns_parse_ipv6 (take (unat len) data) len out = ns_parse_ipv6 data len out"
    using len by (auto simp: ns_parse_ipv6_eq ip6_decoded_def wire not_less)
qed

subsection \<open>Encoded headers\<close>

definition ipv6_bytes :: "ns_ipv6_info_t \<Rightarrow> bytes" where
  "ipv6_bytes i =
     to_be 4 (unat (ip6_version i) * 2 ^ 28 + unat (ip6_traffic_class i) * 2 ^ 20 +
              unat (ip6_flow_label i)) @
     to_be 2 (unat (ip6_payload_length i)) @ [ip6_next_header i, ip6_hop_limit i] @
     ip6_source i @ ip6_destination i"

definition ipv6_wf :: "ns_ipv6_info_t \<Rightarrow> bool" where
  "ipv6_wf i \<longleftrightarrow> ip6_version i = 6 \<and> unat (ip6_flow_label i) < 2 ^ 20 \<and> length (ip6_source i) = 16 \<and>
     length (ip6_destination i) = 16 \<and> ip6_header_length i = 40"

lemma length_ipv6_bytes [simp]: "ipv6_wf i \<Longrightarrow> length (ipv6_bytes i) = 40"
  by (simp add: ipv6_bytes_def ipv6_wf_def)

lemma ipv6_bytes_decoded:
  assumes wf: "ipv6_wf i" and pkt: "pkt = ipv6_bytes i @ payload"
  shows "unat (be32 pkt 0) div 2 ^ 28 = 6" "ip6_decoded pkt = i"
proof -
  let ?tc = "unat (ip6_traffic_class i)" and ?fl = "unat (ip6_flow_label i)"
  have fl: "?fl < 2 ^ 20" and tc: "?tc < 256"
    using wf unat_lt_256 [of "ip6_traffic_class i"] by (simp_all add: ipv6_wf_def)
  have "be32 pkt 0 = of_nat (6 * 2 ^ 28 + ?tc * 2 ^ 20 + ?fl)"
    using wf by (simp add: pkt ipv6_bytes_def ipv6_wf_def be_here del: of_nat_add)
  then have w: "unat (be32 pkt 0) = 6 * 2 ^ 28 + ?tc * 2 ^ 20 + ?fl"
    using fl tc by (simp add: unat_of_nat del: of_nat_add)
  show "unat (be32 pkt 0) div 2 ^ 28 = 6"
    unfolding w using fl tc by (intro div_nat_eqI) simp_all
  have "unat (be32 pkt 0) div 2 ^ 20 = 6 * 256 + ?tc"
    unfolding w using fl by (intro div_nat_eqI) simp_all
  then have "unat (be32 pkt 0) div 2 ^ 20 = ?tc + 6 * 256" by simp
  then have "unat (be32 pkt 0) div 2 ^ 20 mod 256 = ?tc"
    using tc by (simp only: mod_mult_self1 mod_less)
  then have "unat (drop_bit 20 (be32 pkt 0) AND 0xFF) = ?tc"
    using unat_and_mask [of "drop_bit 20 (be32 pkt 0)" 8]
    by (simp add: unat_drop_bit mask_eq_exp_minus_1)
  then have tcw: "ucast (drop_bit 20 (be32 pkt 0) AND 0xFF) = ip6_traffic_class i"
    using tc by (simp add: word_unat_eq_iff unsigned_ucast_eq take_bit_nat_eq_self)
  have "unat (be32 pkt 0) mod 2 ^ 20 = ?fl"
    unfolding w using fl by (simp add: mod_add_left_eq [symmetric])
  then have flw: "be32 pkt 0 AND 0x000FFFFF = ip6_flow_label i"
    using unat_and_mask [of "be32 pkt 0" 20] by (simp add: word_unat_eq_iff mask_eq_exp_minus_1)
  have words: "be16 pkt 4 = ip6_payload_length i" "pkt ! 6 = ip6_next_header i"
    "pkt ! 7 = ip6_hop_limit i" "window pkt 8 16 = ip6_source i" "window pkt 24 16 = ip6_destination i"
    using wf by (simp_all add: pkt ipv6_bytes_def ipv6_wf_def wire nth_append window_def)
  show "ip6_decoded pkt = i"
    using wf unfolding ip6_decoded_def tcw flw words by (cases i) (simp add: ipv6_wf_def)
qed

lemma ns_parse_ipv6_bytes:
  assumes wf: "ipv6_wf i" and len: "unat len = length (ipv6_bytes i @ payload)"
  shows "ns_parse_ipv6 (ipv6_bytes i @ payload) len out = Some (NS_PARSE_OK, i, Some 40)"
  using len wf by (simp add: ns_parse_ipv6_eq ipv6_bytes_decoded [OF wf refl, simplified])

subsection \<open>Chains of extension headers\<close>

definition is_ext :: "u8 \<Rightarrow> bool" where
  "is_ext nh \<longleftrightarrow> nh = 0 \<or> nh = 43 \<or> nh = 44 \<or> nh = 60"

definition ext_size :: "bytes \<Rightarrow> nat \<Rightarrow> u8 \<Rightarrow> nat" where
  "ext_size data off nh = (if nh = 44 then 8 else (unat (data ! (off + 1)) + 1) * 8)"

text \<open>\<open>ext_walk data n off nh k off' nh'\<close>: from a header of type \<open>nh\<close> at \<open>off\<close>, \<open>k\<close>
  extension headers lie one after the other inside the first \<open>n\<close> bytes and lead to a header of
  type \<open>nh'\<close> at \<open>off'\<close>.\<close>

inductive ext_walk :: "bytes \<Rightarrow> nat \<Rightarrow> nat \<Rightarrow> u8 \<Rightarrow> nat \<Rightarrow> nat \<Rightarrow> u8 \<Rightarrow> bool" for data n where
  stop: "ext_walk data n off nh 0 off nh"
| step: "is_ext nh \<Longrightarrow> off + ext_size data off nh \<le> n \<Longrightarrow>
     ext_walk data n (off + ext_size data off nh) (data ! off) k off' nh' \<Longrightarrow>
     ext_walk data n off nh (Suc k) off' nh'"

inductive_cases ext_walk_0E: "ext_walk data n off nh 0 off' nh'"
inductive_cases ext_walk_SucE: "ext_walk data n off nh (Suc k) off' nh'"

lemma ext_size_ge: "8 \<le> ext_size data off nh"
  by (simp add: ext_size_def)

lemma ns_ipv6_skip_loop_Suc:
  assumes "unat len \<le> length data" "unat offset \<le> unat len"
  shows "ns_ipv6_skip_loop (Suc n) data len offset nh =
    (if \<not> is_ext nh then Some (True, offset, nh)
     else if unat len < unat offset + ext_size data (unat offset) nh then Some (False, offset, nh)
     else ns_ipv6_skip_loop n data len (offset + of_nat (ext_size data (unat offset) nh))
            (data ! unat offset))"
proof (cases "unat offset + 2 \<le> unat len")
  case True
  let ?u = "data ! (unat offset + 1)"
  have off1: "unat (offset + 1) = unat offset + 1"
    using unat_add_le [of offset 1 len] True by simp
  have ext: "unat ((ucast ?u + 1) * 8 :: size_t) = (unat ?u + 1) * 8"
    using unat_lt_256 [of ?u] by (simp add: unat_word_ariths unat_ucast_up)
  have extw: "((ucast ?u + 1) * 8 :: size_t) = of_nat ((unat ?u + 1) * 8)"
    by (simp flip: ext)
  show ?thesis
    using True assms off1 ext extw
    by (auto simp: ns_bounds_check_iff cmem is_ext_def ext_size_def not_le) (simp_all add: add.commute)
next
  case False
  have "unat len < unat offset + ext_size data (unat offset) nh"
    using False ext_size_ge [of data "unat offset" nh] by linarith
  with False assms show ?thesis
    by (cases "unat offset + 1 \<le> unat len") (auto simp: ns_bounds_check_iff cmem is_ext_def)
qed

lemma ext_step_offset:
  fixes offset len :: size_t
  assumes "unat offset + ext_size data (unat offset) nh \<le> unat len"
  shows "unat (offset + of_nat (ext_size data (unat offset) nh)) =
    unat offset + ext_size data (unat offset) nh"
proof -
  have "unat (of_nat (ext_size data (unat offset) nh) :: size_t) = ext_size data (unat offset) nh"
    using assms unat_lt_2p64 [of len] by (intro unat_of_nat_less) simp
  with assms show ?thesis using unat_add_le [of offset _ len] by metis
qed

text \<open>The walk is defined on every captured buffer and leaves the offset inside it.\<close>

lemma ns_ipv6_skip_loop_inside:
  assumes "unat len \<le> length data" "unat offset \<le> unat len"
  shows "\<exists>b off' nh'. ns_ipv6_skip_loop n data len offset nh = Some (b, off', nh') \<and>
    unat offset \<le> unat off' \<and> unat off' \<le> unat len"
  using assms(2)
proof (induction n arbitrary: offset nh)
  case 0
  then show ?case by auto
next
  case (Suc n)
  let ?off = "offset + of_nat (ext_size data (unat offset) nh)"
  show ?case
  proof (cases "is_ext nh \<and> unat offset + ext_size data (unat offset) nh \<le> unat len")
    case True
    then have "unat ?off = unat offset + ext_size data (unat offset) nh" "unat ?off \<le> unat len"
      using ext_step_offset [of offset data nh len] by simp_all
    with Suc.IH [of ?off "data ! unat offset"] True show ?thesis
      using ns_ipv6_skip_loop_Suc [OF assms(1) Suc.prems] by fastforce
  next
    case False
    then show ?thesis
      using ns_ipv6_skip_loop_Suc [OF assms(1) Suc.prems] Suc.prems by auto
  qed
qed

text \<open>With \<open>n\<close> iterations it accepts exactly the chains of fewer than \<open>n\<close> headers.\<close>

lemma ns_ipv6_skip_loop_iff:
  assumes "unat len \<le> length data" "unat offset \<le> unat len"
  shows "ns_ipv6_skip_loop n data len offset nh = Some (True, off', nh') \<longleftrightarrow>
    (\<exists>k < n. ext_walk data (unat len) (unat offset) nh k (unat off') nh' \<and> \<not> is_ext nh')"
  using assms(2)
proof (induction n arbitrary: offset nh)
  case 0
  then show ?case by simp
next
  case (Suc n)
  let ?sz = "ext_size data (unat offset) nh"
  let ?off = "offset + of_nat ?sz"
  have more: "(\<exists>k < Suc n. ext_walk data (unat len) (unat offset) nh k (unat off') nh' \<and> \<not> is_ext nh') \<longleftrightarrow>
      (if is_ext nh then unat offset + ?sz \<le> unat len \<and>
         (\<exists>k < n. ext_walk data (unat len) (unat offset + ?sz) (data ! unat offset) k (unat off') nh' \<and>
            \<not> is_ext nh')
       else off' = offset \<and> nh' = nh)" (is "?L \<longleftrightarrow> ?R")
  proof
    assume ?L
    then obtain k where "k < Suc n" "ext_walk data (unat len) (unat offset) nh k (unat off') nh'"
      "\<not> is_ext nh'" by blast
    then show ?R by (cases k) (auto elim!: ext_walk_0E ext_walk_SucE simp: word_unat_eq_iff)
  next
    assume ?R
    then show ?L by (auto split: if_splits intro: ext_walk.intros)
  qed
  show ?case
    unfolding ns_ipv6_skip_loop_Suc [OF assms(1) Suc.prems] more
    using Suc.IH [of ?off "data ! unat offset"] ext_step_offset [of offset data nh len]
    by (auto simp: not_less)
qed

subsection \<open>Properties\<close>

text \<open>C20: an IPv6 fixed header is read back field by field.\<close>

theorem ipv6_roundtrip:
  assumes "ipv6_wf i" "unat len = length (ipv6_bytes i @ payload)"
  shows "ns_parse_ipv6 (ipv6_bytes i @ payload) len out = Some (NS_PARSE_OK, i, Some 40)"
  using ns_parse_ipv6_bytes [OF assms] .

definition sample_ipv6 :: ns_ipv6_info_t where
  "sample_ipv6 = ns_ipv6_zero\<lparr> ip6_version := 6, ip6_traffic_class := 0xB8, ip6_flow_label := 0xABCDE,
     ip6_next_header := 58, ip6_hop_limit := 255, ip6_header_length := 40 \<rparr>"

theorem ipv6_roundtrip_witness:
  "ns_parse_ipv6 (ipv6_bytes sample_ipv6 @ [1]) 41 ns_ipv6_zero = Some (NS_PARSE_OK, sample_ipv6, Some 40)"
proof -
  have wf: "ipv6_wf sample_ipv6" by (simp add: ipv6_wf_def sample_ipv6_def ns_ipv6_zero_def)
  from ipv6_roundtrip [OF wf, of 41 "[1]"] show ?thesis using length_ipv6_bytes [OF wf] by simp
qed

text \<open>C15: the extension-header walk. On every captured buffer it ends within the captured bytes, and it
  succeeds at a given offset with a given upper-layer protocol if and only if at most seven
  extension headers lead there, each inside the captured bytes.\<close>

theorem ipv6_extension_walk_exact:
  assumes "unat len \<le> length data" "unat offset \<le> unat len"
  shows "(\<exists>b off' nh'. ns_ipv6_skip_extension_headers data len offset nh = Some (b, off', nh') \<and>
      unat offset \<le> unat off' \<and> unat off' \<le> unat len) \<and>
    (ns_ipv6_skip_extension_headers data len offset nh = Some (True, off', nh') \<longleftrightarrow>
      (\<exists>k < 8. ext_walk data (unat len) (unat offset) nh k (unat off') nh' \<and> \<not> is_ext nh'))"
  unfolding ns_ipv6_skip_extension_headers_def
  using ns_ipv6_skip_loop_inside [OF assms, of 8 nh] ns_ipv6_skip_loop_iff [OF assms, of 8 nh off' nh'] by simp

theorem ipv6_extension_walk_exact_witness:
  "ns_ipv6_skip_extension_headers [6, 0, 0, 0, 0, 0, 0, 0] 8 0 60 = Some (True, 8, 6)"
proof -
  have "ext_walk [6, 0, 0, 0, 0, 0, 0, 0] 8 0 60 1 8 6"
    using ext_walk.step [of 60 0 "[6, 0, 0, 0, 0, 0, 0, 0]" 8 0 8 6]
    by (simp add: is_ext_def ext_size_def ext_walk.stop)
  then have "\<exists>k < 8. ext_walk [6, 0, 0, 0, 0, 0, 0, 0] 8 0 60 k 8 6 \<and> \<not> is_ext 6"
    by (intro exI [of _ 1]) (simp add: is_ext_def)
  then show ?thesis
    using ipv6_extension_walk_exact [of 8 "[6, 0, 0, 0, 0, 0, 0, 0]" 0 60 8 6] by simp
qed

text \<open>C29: although the limit is named eight, a chain of eight extension headers that is complete, inside the
  captured bytes and followed by an upper-layer header is refused.\<close>

theorem ipv6_eight_extensions_refused:
  assumes "unat len \<le> length data" "unat offset \<le> unat len"
    and "ext_walk data (unat len) (unat offset) nh 8 e nh'" "\<not> is_ext nh'"
  shows "\<exists>off' nh''. ns_ipv6_skip_extension_headers data len offset nh = Some (False, off', nh'')"
proof -
  have unique: "ext_walk data n i x k e y \<Longrightarrow> \<not> is_ext y \<Longrightarrow> ext_walk data n i x k' e' y' \<Longrightarrow> \<not> is_ext y' \<Longrightarrow> k' = k"
    for n i x k e y k' e' y'
  proof (induction k arbitrary: i x k')
    case 0
    then show ?case by (cases k') (auto elim!: ext_walk_0E ext_walk_SucE)
  next
    case (Suc k)
    then show ?case by (cases k') (auto elim!: ext_walk_0E ext_walk_SucE)
  qed
  obtain b off' nh'' where r: "ns_ipv6_skip_extension_headers data len offset nh = Some (b, off', nh'')"
    using ns_ipv6_skip_loop_inside [OF assms(1,2), of 8 nh] unfolding ns_ipv6_skip_extension_headers_def by blast
  have "\<not> b"
  proof
    assume b
    with r obtain k where "k < 8" "ext_walk data (unat len) (unat offset) nh k (unat off') nh''" "\<not> is_ext nh''"
      using ns_ipv6_skip_loop_iff [OF assms(1,2), of 8 nh off' nh''] unfolding ns_ipv6_skip_extension_headers_def by auto
    with unique [OF assms(3,4) this(2,3)] show False by simp
  qed
  with r show ?thesis by simp
qed

definition eight_headers :: bytes where
  "eight_headers = concat (replicate 7 (60 # replicate 7 0)) @ 6 # replicate 7 0"

theorem ipv6_eight_extensions_refused_witness:
  "\<exists>off' nh''. ns_ipv6_skip_extension_headers eight_headers 64 0 60 = Some (False, off', nh'')"
proof (rule ipv6_eight_extensions_refused)
  have e: "eight_headers ! (8 * i) = (if i < 7 then 60 else 6)" "eight_headers ! (8 * i + 1) = 0" if "i < 8" for i
    using that by (auto simp: eight_headers_def less_Suc_eq numeral_eq_Suc)
  have "ext_walk eight_headers 64 (8 * i) 60 (8 - i) 64 6" if "i < 8" for i
    using that
  proof (induction "8 - i" arbitrary: i)
    case (Suc k)
    have sz: "ext_size eight_headers (8 * i) 60 = 8" using e(2) [OF Suc.prems] by (simp add: ext_size_def)
    have "ext_walk eight_headers 64 (8 * i + 8) (eight_headers ! (8 * i)) k 64 6"
    proof (cases "i = 7")
      case True
      then show ?thesis using Suc e(1) [of 7] ext_walk.stop [of eight_headers 64 64 6] by simp
    next
      case False
      then have "ext_walk eight_headers 64 (8 * Suc i) 60 (8 - Suc i) 64 6" using Suc.prems Suc.hyps(2) by (intro Suc.hyps(1)) auto
      moreover have "8 - Suc i = k" "8 * Suc i = 8 * i + 8" using Suc.hyps(2) by auto
      ultimately show ?thesis using e(1) [OF Suc.prems] False Suc.prems by (simp add: add.commute)
    qed
    then have "ext_walk eight_headers 64 (8 * i) 60 (Suc k) 64 6"
      using Suc.prems by (intro ext_walk.step) (simp_all add: sz is_ext_def)
    with Suc.hyps(2) show ?case by simp
  qed simp
  from this [of 0] show "ext_walk eight_headers (unat (64 :: size_t)) (unat (0 :: size_t)) 60 8 64 6" by simp
  have "length eight_headers = 64" by (simp add: eight_headers_def length_concat sum_list_replicate)
  then show "unat (64 :: size_t) \<le> length eight_headers" by simp
qed (simp_all add: is_ext_def)

end
