(* ===== verification/NS_Tcp.thy ===== *)
theory NS_Tcp
  imports NS_Proto
begin

section \<open>tcp.c: the TCP header and the flag text\<close>

text \<open>
  \<open>ns_parse_tcp\<close> and \<open>ns_tcp_flags_to_string\<close>. Shown: the exact result of the parser on
  every captured buffer, the contract \<open>header_parser\<close>, the round trip from an encoded segment,
  and that the flag text is complete in a buffer of 32 bytes, which is what the callers pass and
  exactly what all eight flags need.
\<close>

abbreviation NS_TCP_FLAG_FIN :: u8 where "NS_TCP_FLAG_FIN \<equiv> 0x01"
abbreviation NS_TCP_FLAG_SYN :: u8 where "NS_TCP_FLAG_SYN \<equiv> 0x02"
abbreviation NS_TCP_FLAG_RST :: u8 where "NS_TCP_FLAG_RST \<equiv> 0x04"
abbreviation NS_TCP_FLAG_PSH :: u8 where "NS_TCP_FLAG_PSH \<equiv> 0x08"
abbreviation NS_TCP_FLAG_ACK :: u8 where "NS_TCP_FLAG_ACK \<equiv> 0x10"
abbreviation NS_TCP_FLAG_URG :: u8 where "NS_TCP_FLAG_URG \<equiv> 0x20"
abbreviation NS_TCP_FLAG_ECE :: u8 where "NS_TCP_FLAG_ECE \<equiv> 0x40"
abbreviation NS_TCP_FLAG_CWR :: u8 where "NS_TCP_FLAG_CWR \<equiv> 0x80"

abbreviation NS_TCP_MIN_HEADER_LEN :: size_t where "NS_TCP_MIN_HEADER_LEN \<equiv> 20"

record ns_tcp_info_t =
  tcp_source_port :: u16
  tcp_destination_port :: u16
  tcp_sequence_number :: u32
  tcp_ack_number :: u32
  tcp_data_offset :: u8
  tcp_flags :: u8
  tcp_window_size :: u16
  tcp_checksum :: u16
  tcp_urgent_pointer :: u16
  tcp_header_length :: size_t

definition ns_tcp_zero :: ns_tcp_info_t where
  "ns_tcp_zero = \<lparr> tcp_source_port = 0, tcp_destination_port = 0, tcp_sequence_number = 0,
     tcp_ack_number = 0, tcp_data_offset = 0, tcp_flags = 0, tcp_window_size = 0, tcp_checksum = 0,
     tcp_urgent_pointer = 0, tcp_header_length = 0 \<rparr>"

definition ns_parse_tcp :: "bytes \<Rightarrow> size_t \<Rightarrow> ns_tcp_info_t \<Rightarrow> ns_tcp_info_t header_res" where
  "ns_parse_tcp data len out =
     (if \<not> ns_bounds_check len 0 NS_TCP_MIN_HEADER_LEN then Some (NS_PARSE_TRUNCATED, out, None)
      else do {
        src_port \<leftarrow> out_param (ns_read_u16_be data len 0);
        dst_port \<leftarrow> out_param (ns_read_u16_be data len 2);
        sq \<leftarrow> out_param (ns_read_u32_be data len 4);
        ack \<leftarrow> out_param (ns_read_u32_be data len 8);
        data_offset_reserved \<leftarrow> out_param (ns_read_u8 data len 12);
        flags \<leftarrow> out_param (ns_read_u8 data len 13);
        window_size \<leftarrow> out_param (ns_read_u16_be data len 14);
        checksum \<leftarrow> out_param (ns_read_u16_be data len 16);
        urgent \<leftarrow> out_param (ns_read_u16_be data len 18);
        let data_offset = drop_bit 4 data_offset_reserved;
        (if data_offset < 5 then Some (NS_PARSE_MALFORMED, out, None)
         else do {
           let hdr_len = (ucast data_offset * 4 :: size_t);
           (if \<not> ns_bounds_check len 0 hdr_len then Some (NS_PARSE_TRUNCATED, out, None)
            else do {
              let out = ns_tcp_zero\<lparr> tcp_source_port := src_port, tcp_destination_port := dst_port,
                tcp_sequence_number := sq, tcp_ack_number := ack, tcp_data_offset := data_offset,
                tcp_flags := flags, tcp_window_size := window_size, tcp_checksum := checksum,
                tcp_urgent_pointer := urgent, tcp_header_length := hdr_len \<rparr>;
              Some (NS_PARSE_OK, out, Some hdr_len) }) }) })"

definition kFlags :: "(u8 \<times> string) list" where
  "kFlags =
     [(NS_TCP_FLAG_SYN, ''SYN''), (NS_TCP_FLAG_ACK, ''ACK''), (NS_TCP_FLAG_FIN, ''FIN''),
      (NS_TCP_FLAG_RST, ''RST''), (NS_TCP_FLAG_PSH, ''PSH''), (NS_TCP_FLAG_URG, ''URG''),
      (NS_TCP_FLAG_ECE, ''ECE''), (NS_TCP_FLAG_CWR, ''CWR'')]"

text \<open>The loop over the table, with the rows still to visit; \<open>break\<close> returns the state.\<close>

fun ns_tcp_flags_loop ::
  "(u8 \<times> string) list \<Rightarrow> u8 \<Rightarrow> cbuf \<Rightarrow> size_t \<Rightarrow> size_t \<Rightarrow> bool \<Rightarrow> (cbuf \<times> size_t) option" where
  "ns_tcp_flags_loop [] flags buf buf_len pos first = Some (buf, pos)"
| "ns_tcp_flags_loop ((b, name) # ks) flags buf buf_len pos first =
     (if flags AND b = 0 then ns_tcp_flags_loop ks flags buf buf_len pos first
      else do {
        (buf, written) \<leftarrow> snprintf buf pos (buf_len - pos) ((if first then [] else '','') @ name);
        (if written < 0 \<or> word_of_int written \<ge> buf_len - pos then Some (buf, pos)
         else ns_tcp_flags_loop ks flags buf buf_len (pos + word_of_int written) False) })"

definition ns_tcp_flags_to_string :: "u8 \<Rightarrow> cbuf \<Rightarrow> size_t \<Rightarrow> cbuf option" where
  "ns_tcp_flags_to_string flags buf buf_len = do {
     buf \<leftarrow> mem_set buf 0 NUL;
     (buf, pos) \<leftarrow> ns_tcp_flags_loop kFlags flags buf buf_len 0 True;
     (if pos = 0 then do { (buf, _) \<leftarrow> snprintf buf 0 buf_len ''-''; Some buf }
      else Some buf) }"

subsection \<open>The parser on every captured buffer\<close>

definition tcp_hlen :: "bytes \<Rightarrow> nat" where
  "tcp_hlen data = unat (data ! 12) div 16 * 4"

definition tcp_decoded :: "bytes \<Rightarrow> ns_tcp_info_t" where
  "tcp_decoded data =
     \<lparr> tcp_source_port = be16 data 0, tcp_destination_port = be16 data 2,
       tcp_sequence_number = be32 data 4, tcp_ack_number = be32 data 8,
       tcp_data_offset = drop_bit 4 (data ! 12), tcp_flags = data ! 13,
       tcp_window_size = be16 data 14, tcp_checksum = be16 data 16, tcp_urgent_pointer = be16 data 18,
       tcp_header_length = of_nat (tcp_hlen data) \<rparr>"

lemma unat_nibble_lt: "unat (w :: u8) div 16 < 16"
  using unat_lt_256 [of w] by simp

lemma ns_parse_tcp_eq:
  assumes "unat len \<le> length data"
  shows "ns_parse_tcp data len out = Some (
    if unat len < 20 then (NS_PARSE_TRUNCATED, out, None)
    else if tcp_hlen data < 20 then (NS_PARSE_MALFORMED, out, None)
    else if unat len < tcp_hlen data then (NS_PARSE_TRUNCATED, out, None)
    else (NS_PARSE_OK, tcp_decoded data, Some (of_nat (tcp_hlen data))))"
proof -
  let ?off = "drop_bit 4 (data ! 12)"
  have hlen: "unat (ucast ?off * 4 :: size_t) = tcp_hlen data"
    using unat_nibble_lt [of "data ! 12"]
    by (simp add: unat_word_ariths unat_ucast_up unat_drop_bit tcp_hlen_def)
  then have hdr: "(ucast ?off * 4 :: size_t) = of_nat (tcp_hlen data)"
    by (simp flip: hlen)
  have lt5: "?off < 5 \<longleftrightarrow> tcp_hlen data < 20"
    by (simp add: word_less_nat_alt unat_drop_bit tcp_hlen_def)
  show ?thesis
    using assms hlen [unfolded hdr]
    by (auto simp: ns_parse_tcp_def ns_bounds_check_iff cmem Let_def hdr lt5
        ns_tcp_zero_def tcp_decoded_def)
qed

interpretation tcp: header_parser ns_parse_tcp 20
proof unfold_locales
  fix data :: bytes and len :: size_t and out out' h
  assume len: "unat len \<le> length data"
  show "\<exists>st out' h. ns_parse_tcp data len out = Some (st, out', h)"
    using ns_parse_tcp_eq [OF len] by (metis prod_cases3)
  have "tcp_hlen data < 2 ^ 64"
    using unat_nibble_lt [of "data ! 12"] by (simp add: tcp_hlen_def)
  then show "ns_parse_tcp data len out = Some (NS_PARSE_OK, out', h) \<Longrightarrow>
      \<exists>n. h = Some n \<and> 20 \<le> unat n \<and> unat n \<le> unat len"
    using ns_parse_tcp_eq [OF len, of out] by (auto simp: unat_of_nat_less split: if_splits)
  show "ns_parse_tcp (take (unat len) data) len out = ns_parse_tcp data len out"
    using len by (auto simp: ns_parse_tcp_eq tcp_hlen_def tcp_decoded_def wire not_less)
qed

subsection \<open>Encoded segments\<close>

definition tcp_bytes :: "ns_tcp_info_t \<Rightarrow> nat \<Rightarrow> bytes \<Rightarrow> bytes" where
  "tcp_bytes i reserved options =
     to_be 2 (unat (tcp_source_port i)) @ to_be 2 (unat (tcp_destination_port i)) @
     to_be 4 (unat (tcp_sequence_number i)) @ to_be 4 (unat (tcp_ack_number i)) @
     [of_nat (unat (tcp_data_offset i) * 16 + reserved), tcp_flags i] @
     to_be 2 (unat (tcp_window_size i)) @ to_be 2 (unat (tcp_checksum i)) @
     to_be 2 (unat (tcp_urgent_pointer i)) @ options"

definition tcp_wf :: "ns_tcp_info_t \<Rightarrow> nat \<Rightarrow> bytes \<Rightarrow> bool" where
  "tcp_wf i reserved options \<longleftrightarrow>
     unat (tcp_data_offset i) < 16 \<and> reserved < 16 \<and>
     unat (tcp_data_offset i) * 4 = 20 + length options \<and>
     tcp_header_length i = of_nat (20 + length options)"

lemma length_tcp_bytes [simp]: "length (tcp_bytes i reserved options) = 20 + length options"
  by (simp add: tcp_bytes_def)

lemma tcp_bytes_decoded:
  assumes wf: "tcp_wf i reserved options" and pkt: "pkt = tcp_bytes i reserved options @ payload"
  shows "tcp_hlen pkt = 20 + length options" "tcp_decoded pkt = i"
proof -
  have b12: "unat (pkt ! 12) = unat (tcp_data_offset i) * 16 + reserved"
    using wf by (simp add: pkt tcp_bytes_def tcp_wf_def nth_append unat_of_nat unat_word_ariths)
  have res: "reserved < 16" and off: "unat (tcp_data_offset i) * 4 = 20 + length options"
    and hl: "tcp_header_length i = of_nat (20 + length options)"
    using wf by (simp_all add: tcp_wf_def del: of_nat_add)
  have q: "unat (pkt ! 12) div 16 = unat (tcp_data_offset i)" using b12 res by simp
  then show hlen: "tcp_hlen pkt = 20 + length options" by (simp add: tcp_hlen_def off)
  have nibble: "drop_bit 4 (pkt ! 12) = tcp_data_offset i"
    using q by (simp add: word_unat_eq_iff unat_drop_bit)
  have words: "be16 pkt 0 = tcp_source_port i" "be16 pkt 2 = tcp_destination_port i"
    "be32 pkt 4 = tcp_sequence_number i" "be32 pkt 8 = tcp_ack_number i" "pkt ! 13 = tcp_flags i"
    "be16 pkt 14 = tcp_window_size i" "be16 pkt 16 = tcp_checksum i"
    "be16 pkt 18 = tcp_urgent_pointer i"
    by (simp_all add: pkt tcp_bytes_def wire wire_cons nth_append)
  show "tcp_decoded pkt = i"
    unfolding tcp_decoded_def words nibble hlen by (cases i) (use hl in simp)
qed

lemma ns_parse_tcp_bytes:
  assumes wf: "tcp_wf i reserved options"
    and len: "unat len = length (tcp_bytes i reserved options @ payload)"
  shows "ns_parse_tcp (tcp_bytes i reserved options @ payload) len out =
    Some (NS_PARSE_OK, i, Some (tcp_header_length i))"
proof -
  have "tcp_header_length i = of_nat (20 + length options)"
    using wf by (simp add: tcp_wf_def del: of_nat_add)
  with len show ?thesis by (simp add: ns_parse_tcp_eq tcp_bytes_decoded [OF wf refl])
qed

subsection \<open>The flag text\<close>

definition flag_names :: "(u8 \<times> string) list \<Rightarrow> u8 \<Rightarrow> string list" where
  "flag_names ks flags = map snd (filter (\<lambda>(b, _). flags AND b \<noteq> 0) ks)"

lemma flag_names_simps [simp]:
  "flag_names [] flags = []"
  "flag_names ((b, name) # ks) flags =
     (if flags AND b = 0 then flag_names ks flags else name # flag_names ks flags)"
  by (simp_all add: flag_names_def)

text \<open>One pass of the loop appends a separator, unless the text is empty, and a three-letter name.\<close>

lemma ns_tcp_flags_loop_text:
  assumes "unat buf_len = length buf" "holds buf (join '','' acc)" "buf ! length (join '','' acc) = NUL"
    and "unat pos = length (join '','' acc)" "first \<longleftrightarrow> acc = []"
    and "\<And>b name. (b, name) \<in> set ks \<Longrightarrow> length name = 3"
    and "unat pos + 4 * length ks + of_bool (acc \<noteq> []) \<le> length buf"
    and "length (join '','' acc) < length buf"
  shows "\<exists>buf' pos'. ns_tcp_flags_loop ks flags buf buf_len pos first = Some (buf', pos') \<and>
    length buf' = length buf \<and> holds buf' (join '','' (acc @ flag_names ks flags)) \<and>
    buf' ! length (join '','' (acc @ flag_names ks flags)) = NUL \<and>
    unat pos' = length (join '','' (acc @ flag_names ks flags)) \<and> unat pos' < length buf"
  using assms
proof (induction ks flags buf buf_len pos first arbitrary: acc rule: ns_tcp_flags_loop.induct)
  case (1 flags buf buf_len pos first)
  then show ?case by simp
next
  case (2 b name ks flags buf buf_len pos first)
  show ?case
  proof (cases "flags AND b = 0")
    case True
    have "\<exists>buf' pos'. ns_tcp_flags_loop ks flags buf buf_len pos first = Some (buf', pos') \<and>
      length buf' = length buf \<and> holds buf' (join '','' (acc @ flag_names ks flags)) \<and>
      buf' ! length (join '','' (acc @ flag_names ks flags)) = NUL \<and>
      unat pos' = length (join '','' (acc @ flag_names ks flags)) \<and> unat pos' < length buf"
      by (rule "2.IH"(1) [OF True]) (use "2.prems" in auto)
    with True show ?thesis by simp
  next
    case False
    let ?s = "(if first then [] else '','') @ name"
    have name: "length name = 3" using "2.prems"(6) [of b name] by simp
    have app: "join '','' acc @ ?s = join '','' (acc @ [name])"
      using "2.prems"(5) by (simp add: join_snoc)
    have room: "length (join '','' acc) + length ?s < length buf"
      using "2.prems"(4,5,7) name by auto
    obtain q where q: "snprintf buf pos (buf_len - pos) ?s = Some (q, int (length ?s))"
      "length q = length buf" "holds q (join '','' acc @ ?s)" "q ! length (join '','' acc @ ?s) = NUL"
      using snprintf_append [OF "2.prems"(2,4,1) room] by metis
    have w: "unat (word_of_int (int (length ?s)) :: size_t) = length ?s"
      using name by simp
    have pos': "unat (pos + word_of_int (int (length ?s))) = length (join '','' (acc @ [name]))"
      using unat_add_le [of pos "word_of_int (int (length ?s))" buf_len] w room "2.prems"(1,4)
      by (simp flip: app)
    have go: "\<not> (int (length ?s) < 0 \<or> word_of_int (int (length ?s)) \<ge> buf_len - pos)"
      using w room "2.prems"(1,4) by (simp add: not_le word_less_nat_alt unat_sub_le)
    have "\<exists>buf' pos'. ns_tcp_flags_loop ks flags q buf_len (pos + word_of_int (int (length ?s))) False
        = Some (buf', pos') \<and> length buf' = length q \<and>
      holds buf' (join '','' ((acc @ [name]) @ flag_names ks flags)) \<and>
      buf' ! length (join '','' ((acc @ [name]) @ flag_names ks flags)) = NUL \<and>
      unat pos' = length (join '','' ((acc @ [name]) @ flag_names ks flags)) \<and> unat pos' < length q"
    proof (rule "2.IH"(2) [OF False q(1) refl go])
      show "unat (pos + word_of_int (int (length ?s))) + 4 * length ks + of_bool (acc @ [name] \<noteq> [])
          \<le> length q"
        unfolding pos' app [symmetric] using "2.prems"(4,5,7) name q(2) by (auto split: if_splits)
      show "holds q (join '','' (acc @ [name]))" "q ! length (join '','' (acc @ [name])) = NUL"
        using q(3,4) by (simp_all only: app)
      show "length (join '','' (acc @ [name])) < length q"
        using room q(2) by (simp flip: app)
    qed (use "2.prems"(1,6) q(2) pos' in auto)
    moreover have "ns_tcp_flags_loop ((b, name) # ks) flags buf buf_len pos first =
        ns_tcp_flags_loop ks flags q buf_len (pos + word_of_int (int (length ?s))) False"
      using False go by (simp only: ns_tcp_flags_loop.simps q(1) Option.bind.simps prod.case if_False)
    ultimately show ?thesis using False q(2) by simp
  qed
qed

lemma flag_names_kFlags_Nil: "flag_names kFlags flags = [] \<longleftrightarrow> flags = 0"
proof
  assume "flag_names kFlags flags = []"
  then have none: "flags AND 2 ^ n = 0" if "n < 8" for n
    using that by (auto simp: kFlags_def less_Suc_eq numeral_eq_Suc split: if_splits)
  show "flags = 0"
    by (rule bit_word_eqI) (use none in \<open>simp add: and_exp_eq_0_iff_not_bit\<close>)
qed (simp add: kFlags_def)

lemma ns_tcp_flags_to_string_text:
  assumes "32 \<le> length buf" "unat buf_len = length buf"
  obtains q where "ns_tcp_flags_to_string flags buf buf_len = Some q" "length q = length buf"
    "c_str q = Some (if flags = 0 then ''-'' else join '','' (flag_names kFlags flags))"
proof -
  let ?names = "flag_names kFlags flags"
  let ?b = "buf[0 := NUL]"
  have in3: "(b, name) \<in> set kFlags \<Longrightarrow> length name = 3 \<and> nul_free name" for b name
    by (auto simp: kFlags_def)
  have "\<exists>q pos. ns_tcp_flags_loop kFlags flags ?b buf_len 0 True = Some (q, pos) \<and>
    length q = length ?b \<and> holds q (join '','' ([] @ ?names)) \<and>
    q ! length (join '','' ([] @ ?names)) = NUL \<and> unat pos = length (join '','' ([] @ ?names)) \<and> unat pos < length ?b"
  proof (rule ns_tcp_flags_loop_text)
    show "?b ! length (join '','' []) = NUL" using assms(1) by (cases buf) simp_all
    show "unat (0 :: size_t) + 4 * length kFlags + of_bool ([] \<noteq> ([] :: string list)) \<le> length ?b"
      using assms(1) by (simp add: kFlags_def)
    show "length (join '','' []) < length ?b" using assms(1) by (cases buf) simp_all
  qed (use assms in3 in simp_all)
  then obtain q pos where q: "ns_tcp_flags_loop kFlags flags ?b buf_len 0 True = Some (q, pos)"
    "length q = length buf" "holds q (join '','' ?names)" "q ! length (join '','' ?names) = NUL"
    "unat pos = length (join '','' ?names)" "unat pos < length buf" by auto
  have set0: "mem_set buf 0 NUL = Some ?b" using assms(1) by (cases buf) (simp_all add: mem_set_def)
  have names3: "name \<in> set ?names \<Longrightarrow> length name = 3 \<and> nul_free name" for name
    using in3 by (auto simp: flag_names_def)
  show thesis
  proof (cases "flags = 0")
    case True
    then have "?names = []" by (simp add: flag_names_kFlags_Nil)
    then have "pos = 0" using q(5) by (simp add: unat_eq_zero)
    moreover have "nul_free ''-''" "unat buf_len = length q" "0 < length q"
      using assms q(2) by auto
    from snprintf_whole [OF this] obtain q' where "snprintf q 0 buf_len ''-'' = Some (q', int (length ''-''))"
      "length q' = length q" "c_str q' = Some (take (length q - 1) ''-'')" .
    ultimately show thesis
      using that [of q'] True q assms(1) by (simp add: ns_tcp_flags_to_string_def set0)
  next
    case False
    then obtain a as where names: "?names = a # as" by (cases ?names) (auto simp: flag_names_kFlags_Nil)
    then have "pos \<noteq> 0" using q(5) names3 [of a] by (auto simp: join_Cons)
    moreover have "c_str q = Some (join '','' ?names)"
      using q names3 by (intro holds_c_str join_nul_free) auto
    ultimately show thesis
      using that [of q] False q by (simp add: ns_tcp_flags_to_string_def set0)
  qed
qed

subsection \<open>Properties\<close>

text \<open>C21: a TCP header with any options is read back field by field, whatever its reserved bits.\<close>

theorem tcp_roundtrip:
  assumes "tcp_wf i reserved options" "unat len = length (tcp_bytes i reserved options @ payload)"
  shows "ns_parse_tcp (tcp_bytes i reserved options @ payload) len out = Some (NS_PARSE_OK, i, Some (tcp_header_length i))"
  using ns_parse_tcp_bytes [OF assms] .

definition sample_tcp :: ns_tcp_info_t where
  "sample_tcp = ns_tcp_zero\<lparr> tcp_source_port := 443, tcp_destination_port := 50000, tcp_data_offset := 6,
     tcp_sequence_number := 0x12345678, tcp_flags := 0x12, tcp_header_length := 24 \<rparr>"

theorem tcp_roundtrip_witness:
  "ns_parse_tcp (tcp_bytes sample_tcp 3 [2, 4, 5, 0xB4] @ []) 24 ns_tcp_zero = Some (NS_PARSE_OK, sample_tcp, Some 24)"
proof -
  have "tcp_wf sample_tcp 3 [2, 4, 5, 0xB4]" by (simp add: tcp_wf_def sample_tcp_def ns_tcp_zero_def)
  from tcp_roundtrip [OF this, of 24 "[]"] show ?thesis by (simp add: sample_tcp_def)
qed

text \<open>The flags by their bits, as RFC 9293 numbers them from the right: bit 0 is FIN, bit 7 is CWR.\<close>

definition rfc_flag :: "nat \<Rightarrow> string" where
  "rfc_flag i = [''FIN'', ''SYN'', ''RST'', ''PSH'', ''ACK'', ''URG'', ''ECE'', ''CWR''] ! i"

text \<open>The names of the set bits; SYN and ACK come first, then the rest from the right.\<close>

definition flag_list :: "u8 \<Rightarrow> string list" where
  "flag_list flags = map rfc_flag (filter (bit flags) [1, 4, 0, 2, 3, 5, 6, 7])"

lemma flag_names_kFlags: "flag_names kFlags flags = flag_list flags"
proof -
  have b: "flags AND 1 = 0 \<longleftrightarrow> \<not> bit flags 0" "flags AND 2 = 0 \<longleftrightarrow> \<not> bit flags 1" "flags AND 4 = 0 \<longleftrightarrow> \<not> bit flags 2"
    "flags AND 8 = 0 \<longleftrightarrow> \<not> bit flags 3" "flags AND 16 = 0 \<longleftrightarrow> \<not> bit flags 4" "flags AND 32 = 0 \<longleftrightarrow> \<not> bit flags 5"
    "flags AND 64 = 0 \<longleftrightarrow> \<not> bit flags 6" "flags AND 128 = 0 \<longleftrightarrow> \<not> bit flags 7"
    using and_exp_eq_0_iff_not_bit [of flags 0] and_exp_eq_0_iff_not_bit [of flags 1] and_exp_eq_0_iff_not_bit [of flags 2]
      and_exp_eq_0_iff_not_bit [of flags 3] and_exp_eq_0_iff_not_bit [of flags 4] and_exp_eq_0_iff_not_bit [of flags 5]
      and_exp_eq_0_iff_not_bit [of flags 6] and_exp_eq_0_iff_not_bit [of flags 7] by simp_all
  show ?thesis by (simp add: flag_names_def kFlags_def flag_list_def rfc_flag_def b)
qed

text \<open>C26: the text of the TCP flags. With the 32-byte buffers the program uses, the names of the set bits, by their
  numbers in RFC 9293, are printed separated by commas, never cut, each exactly once and in the order SYN, ACK, FIN, RST,
  PSH, URG, ECE, CWR, and a dash stands for none. So a segment with PSH and ACK is shown as ACK,PSH, not as the
  PSH,ACK of the sample in README.md.\<close>

theorem tcp_flags_text:
  assumes "32 \<le> length buf" "unat buf_len = length buf"
  shows "\<exists>q. ns_tcp_flags_to_string flags buf buf_len = Some q \<and> length q = length buf \<and>
    c_str q = Some (if flags = 0 then ''-'' else join '','' (map (\<lambda>i.
      [''FIN'', ''SYN'', ''RST'', ''PSH'', ''ACK'', ''URG'', ''ECE'', ''CWR''] ! i) (filter (bit flags) [1, 4, 0, 2, 3, 5, 6, 7])))"
  using ns_tcp_flags_to_string_text [OF assms, of flags] unfolding flag_names_kFlags flag_list_def rfc_flag_def by blast

theorem tcp_flags_text_witness:
  "\<exists>q. ns_tcp_flags_to_string 0x18 (stack_buf 32) 32 = Some q \<and> c_str q = Some ''ACK,PSH''"
proof -
  have "flag_list 0x18 = [''ACK'', ''PSH'']" by code_simp
  with tcp_flags_text [of "stack_buf 32" 32 "0x18"] show ?thesis
    unfolding rfc_flag_def [symmetric] flag_list_def [symmetric] by (auto simp: stack_buf_def)
qed

end
