(* ===== verification/NS_Udp.thy ===== *)
theory NS_Udp
  imports NS_Proto
begin

section \<open>udp.c: the UDP header\<close>

text \<open>
  \<open>ns_parse_udp\<close>. The sender's length is only checked against the header that carries it.
\<close>

abbreviation NS_UDP_HEADER_LEN :: size_t where "NS_UDP_HEADER_LEN \<equiv> 8"

record ns_udp_info_t =
  udp_source_port :: u16
  udp_destination_port :: u16
  udp_length :: u16
  udp_checksum :: u16

definition ns_udp_zero :: ns_udp_info_t where
  "ns_udp_zero = \<lparr> udp_source_port = 0, udp_destination_port = 0, udp_length = 0, udp_checksum = 0 \<rparr>"

definition ns_parse_udp :: "bytes \<Rightarrow> size_t \<Rightarrow> ns_udp_info_t \<Rightarrow> ns_udp_info_t body_res" where
  "ns_parse_udp data len out =
     (if \<not> ns_bounds_check len 0 NS_UDP_HEADER_LEN then Some (NS_PARSE_TRUNCATED, out)
      else do {
        src_port \<leftarrow> out_param (ns_read_u16_be data len 0);
        dst_port \<leftarrow> out_param (ns_read_u16_be data len 2);
        udp_len \<leftarrow> out_param (ns_read_u16_be data len 4);
        checksum \<leftarrow> out_param (ns_read_u16_be data len 6);
        (if udp_len < 8 then Some (NS_PARSE_MALFORMED, out)
         else Some (NS_PARSE_OK, ns_udp_zero\<lparr> udp_source_port := src_port,
                udp_destination_port := dst_port, udp_length := udp_len,
                udp_checksum := checksum \<rparr>)) })"

lemma ns_parse_udp_eq:
  assumes "unat len \<le> length data"
  shows "ns_parse_udp data len out = Some (
    if unat len < 8 then (NS_PARSE_TRUNCATED, out)
    else if unat (be16 data 4) < 8 then (NS_PARSE_MALFORMED, out)
    else (NS_PARSE_OK, \<lparr> udp_source_port = be16 data 0, udp_destination_port = be16 data 2,
            udp_length = be16 data 4, udp_checksum = be16 data 6 \<rparr>))"
  using assms
  by (simp add: ns_parse_udp_def ns_bounds_check_iff cmem ns_udp_zero_def word_less_nat_alt not_le)

interpretation udp: body_parser ns_parse_udp 8
proof unfold_locales
  fix data :: bytes and len :: size_t and out out'
  assume len: "unat len \<le> length data"
  show "\<exists>st out'. ns_parse_udp data len out = Some (st, out')"
    using ns_parse_udp_eq [OF len] by (metis surj_pair)
  show "ns_parse_udp data len out = Some (NS_PARSE_OK, out') \<Longrightarrow> 8 \<le> unat len"
    using ns_parse_udp_eq [OF len, of out] by (auto split: if_splits)
  show "ns_parse_udp (take (unat len) data) len out = ns_parse_udp data len out"
    using len by (auto simp: ns_parse_udp_eq wire not_less)
qed

definition udp_bytes :: "ns_udp_info_t \<Rightarrow> bytes" where
  "udp_bytes i = to_be 2 (unat (udp_source_port i)) @ to_be 2 (unat (udp_destination_port i)) @
     to_be 2 (unat (udp_length i)) @ to_be 2 (unat (udp_checksum i))"

lemma length_udp_bytes [simp]: "length (udp_bytes i) = 8"
  by (simp add: udp_bytes_def)

lemma ns_parse_udp_bytes:
  assumes "8 \<le> unat (udp_length i)" "unat len = length (udp_bytes i @ payload)"
  shows "ns_parse_udp (udp_bytes i @ payload) len out = Some (NS_PARSE_OK, i)"
proof -
  have "be16 (udp_bytes i @ payload) 0 = udp_source_port i"
    "be16 (udp_bytes i @ payload) 2 = udp_destination_port i"
    "be16 (udp_bytes i @ payload) 4 = udp_length i" "be16 (udp_bytes i @ payload) 6 = udp_checksum i"
    by (simp_all add: udp_bytes_def wire)
  with assms show ?thesis by (cases i) (simp add: ns_parse_udp_eq)
qed

subsection \<open>Properties\<close>

text \<open>C24: the UDP parser on every captured buffer: truncated below eight bytes, malformed when the length field
  is below eight, otherwise accepted with the four fields of the header.\<close>

theorem udp_exact:
  assumes "unat len \<le> length data"
  shows "ns_parse_udp data len out = Some (
    if unat len < 8 then (NS_PARSE_TRUNCATED, out)
    else if be_nat (window data 4 2) < 8 then (NS_PARSE_MALFORMED, out)
    else (NS_PARSE_OK, \<lparr> udp_source_port = of_nat (be_nat (window data 0 2)),
      udp_destination_port = of_nat (be_nat (window data 2 2)), udp_length = of_nat (be_nat (window data 4 2)),
      udp_checksum = of_nat (be_nat (window data 6 2)) \<rparr>))"
  using ns_parse_udp_eq [OF assms, of out] by (simp add: unat_be16) (simp add: be16_def)

theorem udp_exact_witness:
  "ns_parse_udp [0, 53, 0, 54, 0, 8, 1, 2] 8 ns_udp_zero = Some (NS_PARSE_OK,
     \<lparr> udp_source_port = 53, udp_destination_port = 54, udp_length = 8, udp_checksum = 258 \<rparr>)"
  using udp_exact [of 8 "[0, 53, 0, 54, 0, 8, 1, 2]" ns_udp_zero] by (simp add: window_def be_nat_def)

end
