(* ===== verification/NS_Icmp.thy ===== *)
theory NS_Icmp
  imports NS_Proto
begin

section \<open>icmp.c and icmpv6.c: ICMP headers and type names\<close>

text \<open>
  The two parsers differ in their type numbers only; both fill the fixed part before they know
  whether the identifier and sequence number of an echo message were captured, so a truncated
  echo leaves the fixed part behind.
\<close>

subsection \<open>icmp.c\<close>

abbreviation NS_ICMP_TYPE_ECHO_REPLY :: u8 where "NS_ICMP_TYPE_ECHO_REPLY \<equiv> 0"
abbreviation NS_ICMP_TYPE_DEST_UNREACHABLE :: u8 where "NS_ICMP_TYPE_DEST_UNREACHABLE \<equiv> 3"
abbreviation NS_ICMP_TYPE_REDIRECT :: u8 where "NS_ICMP_TYPE_REDIRECT \<equiv> 5"
abbreviation NS_ICMP_TYPE_ECHO_REQUEST :: u8 where "NS_ICMP_TYPE_ECHO_REQUEST \<equiv> 8"
abbreviation NS_ICMP_TYPE_TIME_EXCEEDED :: u8 where "NS_ICMP_TYPE_TIME_EXCEEDED \<equiv> 11"
abbreviation NS_ICMP_HEADER_LEN :: size_t where "NS_ICMP_HEADER_LEN \<equiv> 8"

record ns_icmp_info_t =
  icmp_type :: u8
  icmp_code :: u8
  icmp_checksum :: u16
  icmp_identifier :: u16
  icmp_sequence :: u16

definition ns_icmp_zero :: ns_icmp_info_t where
  "ns_icmp_zero = \<lparr> icmp_type = 0, icmp_code = 0, icmp_checksum = 0, icmp_identifier = 0,
     icmp_sequence = 0 \<rparr>"

definition ns_parse_icmp :: "bytes \<Rightarrow> size_t \<Rightarrow> ns_icmp_info_t \<Rightarrow> ns_icmp_info_t body_res" where
  "ns_parse_icmp data len out =
     (if \<not> ns_bounds_check len 0 4 then Some (NS_PARSE_TRUNCATED, out)
      else do {
        ty \<leftarrow> out_param (ns_read_u8 data len 0);
        code \<leftarrow> out_param (ns_read_u8 data len 1);
        checksum \<leftarrow> out_param (ns_read_u16_be data len 2);
        let out = ns_icmp_zero\<lparr> icmp_type := ty, icmp_code := code, icmp_checksum := checksum \<rparr>;
        (if ty = NS_ICMP_TYPE_ECHO_REQUEST \<or> ty = NS_ICMP_TYPE_ECHO_REPLY
         then (if \<not> ns_bounds_check len 0 NS_ICMP_HEADER_LEN then Some (NS_PARSE_TRUNCATED, out)
               else do {
                 ident \<leftarrow> out_param (ns_read_u16_be data len 4);
                 sq \<leftarrow> out_param (ns_read_u16_be data len 6);
                 Some (NS_PARSE_OK, out\<lparr> icmp_identifier := ident, icmp_sequence := sq \<rparr>) })
         else Some (NS_PARSE_OK, out)) })"

definition ns_icmp_type_name :: "u8 \<Rightarrow> string" where
  "ns_icmp_type_name ty =
     (if ty = NS_ICMP_TYPE_ECHO_REPLY then ''Echo Reply''
      else if ty = NS_ICMP_TYPE_DEST_UNREACHABLE then ''Destination Unreachable''
      else if ty = NS_ICMP_TYPE_REDIRECT then ''Redirect''
      else if ty = NS_ICMP_TYPE_ECHO_REQUEST then ''Echo Request''
      else if ty = NS_ICMP_TYPE_TIME_EXCEEDED then ''Time Exceeded''
      else ''Unknown'')"

subsection \<open>icmpv6.c\<close>

abbreviation NS_ICMPV6_TYPE_DEST_UNREACHABLE :: u8 where "NS_ICMPV6_TYPE_DEST_UNREACHABLE \<equiv> 1"
abbreviation NS_ICMPV6_TYPE_PACKET_TOO_BIG :: u8 where "NS_ICMPV6_TYPE_PACKET_TOO_BIG \<equiv> 2"
abbreviation NS_ICMPV6_TYPE_TIME_EXCEEDED :: u8 where "NS_ICMPV6_TYPE_TIME_EXCEEDED \<equiv> 3"
abbreviation NS_ICMPV6_TYPE_ECHO_REQUEST :: u8 where "NS_ICMPV6_TYPE_ECHO_REQUEST \<equiv> 128"
abbreviation NS_ICMPV6_TYPE_ECHO_REPLY :: u8 where "NS_ICMPV6_TYPE_ECHO_REPLY \<equiv> 129"
abbreviation NS_ICMPV6_TYPE_NEIGHBOR_SOLICITATION :: u8 where
  "NS_ICMPV6_TYPE_NEIGHBOR_SOLICITATION \<equiv> 135"
abbreviation NS_ICMPV6_TYPE_NEIGHBOR_ADVERTISEMENT :: u8 where
  "NS_ICMPV6_TYPE_NEIGHBOR_ADVERTISEMENT \<equiv> 136"
abbreviation NS_ICMPV6_HEADER_LEN :: size_t where "NS_ICMPV6_HEADER_LEN \<equiv> 8"

record ns_icmpv6_info_t =
  icmp6_type :: u8
  icmp6_code :: u8
  icmp6_checksum :: u16
  icmp6_identifier :: u16
  icmp6_sequence :: u16

definition ns_icmpv6_zero :: ns_icmpv6_info_t where
  "ns_icmpv6_zero = \<lparr> icmp6_type = 0, icmp6_code = 0, icmp6_checksum = 0, icmp6_identifier = 0,
     icmp6_sequence = 0 \<rparr>"

definition ns_parse_icmpv6 :: "bytes \<Rightarrow> size_t \<Rightarrow> ns_icmpv6_info_t \<Rightarrow> ns_icmpv6_info_t body_res" where
  "ns_parse_icmpv6 data len out =
     (if \<not> ns_bounds_check len 0 4 then Some (NS_PARSE_TRUNCATED, out)
      else do {
        ty \<leftarrow> out_param (ns_read_u8 data len 0);
        code \<leftarrow> out_param (ns_read_u8 data len 1);
        checksum \<leftarrow> out_param (ns_read_u16_be data len 2);
        let out = ns_icmpv6_zero\<lparr> icmp6_type := ty, icmp6_code := code, icmp6_checksum := checksum \<rparr>;
        (if ty = NS_ICMPV6_TYPE_ECHO_REQUEST \<or> ty = NS_ICMPV6_TYPE_ECHO_REPLY
         then (if \<not> ns_bounds_check len 0 NS_ICMPV6_HEADER_LEN then Some (NS_PARSE_TRUNCATED, out)
               else do {
                 ident \<leftarrow> out_param (ns_read_u16_be data len 4);
                 sq \<leftarrow> out_param (ns_read_u16_be data len 6);
                 Some (NS_PARSE_OK, out\<lparr> icmp6_identifier := ident, icmp6_sequence := sq \<rparr>) })
         else Some (NS_PARSE_OK, out)) })"

definition ns_icmpv6_type_name :: "u8 \<Rightarrow> string" where
  "ns_icmpv6_type_name ty =
     (if ty = NS_ICMPV6_TYPE_DEST_UNREACHABLE then ''Destination Unreachable''
      else if ty = NS_ICMPV6_TYPE_PACKET_TOO_BIG then ''Packet Too Big''
      else if ty = NS_ICMPV6_TYPE_TIME_EXCEEDED then ''Time Exceeded''
      else if ty = NS_ICMPV6_TYPE_ECHO_REQUEST then ''Echo Request''
      else if ty = NS_ICMPV6_TYPE_ECHO_REPLY then ''Echo Reply''
      else if ty = NS_ICMPV6_TYPE_NEIGHBOR_SOLICITATION then ''Neighbor Solicitation''
      else if ty = NS_ICMPV6_TYPE_NEIGHBOR_ADVERTISEMENT then ''Neighbor Advertisement''
      else ''Unknown'')"

subsection \<open>The results on every captured buffer\<close>

lemma ns_parse_icmp_eq:
  assumes "unat len \<le> length data"
  shows "ns_parse_icmp data len out = Some (
    let fixed = \<lparr> icmp_type = data ! 0, icmp_code = data ! 1, icmp_checksum = be16 data 2,
                  icmp_identifier = 0, icmp_sequence = 0 \<rparr> in
    if unat len < 4 then (NS_PARSE_TRUNCATED, out)
    else if data ! 0 \<noteq> 8 \<and> data ! 0 \<noteq> 0 then (NS_PARSE_OK, fixed)
    else if unat len < 8 then (NS_PARSE_TRUNCATED, fixed)
    else (NS_PARSE_OK, fixed\<lparr> icmp_identifier := be16 data 4, icmp_sequence := be16 data 6 \<rparr>))"
  using assms
  by (auto simp: ns_parse_icmp_def ns_bounds_check_iff cmem ns_icmp_zero_def Let_def not_le)

lemma ns_parse_icmpv6_eq:
  assumes "unat len \<le> length data"
  shows "ns_parse_icmpv6 data len out = Some (
    let fixed = \<lparr> icmp6_type = data ! 0, icmp6_code = data ! 1, icmp6_checksum = be16 data 2,
                  icmp6_identifier = 0, icmp6_sequence = 0 \<rparr> in
    if unat len < 4 then (NS_PARSE_TRUNCATED, out)
    else if data ! 0 \<noteq> 128 \<and> data ! 0 \<noteq> 129 then (NS_PARSE_OK, fixed)
    else if unat len < 8 then (NS_PARSE_TRUNCATED, fixed)
    else (NS_PARSE_OK, fixed\<lparr> icmp6_identifier := be16 data 4, icmp6_sequence := be16 data 6 \<rparr>))"
  using assms
  by (auto simp: ns_parse_icmpv6_def ns_bounds_check_iff cmem ns_icmpv6_zero_def Let_def not_le)

interpretation icmp: body_parser ns_parse_icmp 4
proof unfold_locales
  fix data :: bytes and len :: size_t and out out'
  assume len: "unat len \<le> length data"
  show "\<exists>st out'. ns_parse_icmp data len out = Some (st, out')"
    using ns_parse_icmp_eq [OF len] by (metis surj_pair)
  show "ns_parse_icmp data len out = Some (NS_PARSE_OK, out') \<Longrightarrow> 4 \<le> unat len"
    using ns_parse_icmp_eq [OF len, of out] by (auto simp: Let_def split: if_splits)
  show "ns_parse_icmp (take (unat len) data) len out = ns_parse_icmp data len out"
    using len by (auto simp: ns_parse_icmp_eq Let_def wire not_less)
qed

interpretation icmpv6: body_parser ns_parse_icmpv6 4
proof unfold_locales
  fix data :: bytes and len :: size_t and out out'
  assume len: "unat len \<le> length data"
  show "\<exists>st out'. ns_parse_icmpv6 data len out = Some (st, out')"
    using ns_parse_icmpv6_eq [OF len] by (metis surj_pair)
  show "ns_parse_icmpv6 data len out = Some (NS_PARSE_OK, out') \<Longrightarrow> 4 \<le> unat len"
    using ns_parse_icmpv6_eq [OF len, of out] by (auto simp: Let_def split: if_splits)
  show "ns_parse_icmpv6 (take (unat len) data) len out = ns_parse_icmpv6 data len out"
    using len by (auto simp: ns_parse_icmpv6_eq Let_def wire not_less)
qed

subsection \<open>Properties\<close>

text \<open>C25: the ICMP and ICMPv6 parsers on every captured buffer: the four fixed bytes are needed, and echo requests
  and replies also need identifier and sequence number, which other types leave at zero.\<close>

theorem icmp_exact:
  assumes "unat len \<le> length data"
  shows "ns_parse_icmp data len out = Some (
      let fixed = \<lparr> icmp_type = data ! 0, icmp_code = data ! 1, icmp_checksum = be16 data 2,
                    icmp_identifier = 0, icmp_sequence = 0 \<rparr> in
      if unat len < 4 then (NS_PARSE_TRUNCATED, out)
      else if data ! 0 \<noteq> 8 \<and> data ! 0 \<noteq> 0 then (NS_PARSE_OK, fixed)
      else if unat len < 8 then (NS_PARSE_TRUNCATED, fixed)
      else (NS_PARSE_OK, fixed\<lparr> icmp_identifier := be16 data 4, icmp_sequence := be16 data 6 \<rparr>)) \<and>
    ns_parse_icmpv6 data len out6 = Some (
      let fixed = \<lparr> icmp6_type = data ! 0, icmp6_code = data ! 1, icmp6_checksum = be16 data 2,
                    icmp6_identifier = 0, icmp6_sequence = 0 \<rparr> in
      if unat len < 4 then (NS_PARSE_TRUNCATED, out6)
      else if data ! 0 \<noteq> 128 \<and> data ! 0 \<noteq> 129 then (NS_PARSE_OK, fixed)
      else if unat len < 8 then (NS_PARSE_TRUNCATED, fixed)
      else (NS_PARSE_OK, fixed\<lparr> icmp6_identifier := be16 data 4, icmp6_sequence := be16 data 6 \<rparr>))"
  using ns_parse_icmp_eq [OF assms, of out] ns_parse_icmpv6_eq [OF assms, of out6] by blast

theorem icmp_exact_witness:
  "ns_parse_icmp [3, 1, 0, 0] 4 ns_icmp_zero = Some (NS_PARSE_OK,
     \<lparr> icmp_type = 3, icmp_code = 1, icmp_checksum = 0, icmp_identifier = 0, icmp_sequence = 0 \<rparr>)"
  using icmp_exact [of 4 "[3, 1, 0, 0]" ns_icmp_zero ns_icmpv6_zero]
  by (simp add: be16_def window_def be_nat_def)

end
