(* ===== verification/NS_Dns_Name.thy ===== *)
theory NS_Dns_Name
  imports NS_Proto
begin

section \<open>dns.c: domain names and compression pointers\<close>

text \<open>
  \<open>ns_dns_decode_name\<close>. The loop is a terminating function (each jump uses up one of the 32
  allowed, each label moves the position forward). Its specification is the relation
  \<open>dns_name\<close> of RFC 1035: the labels that start at an offset of the message, the number of
  pointers followed, and the offset where the name as written ends. The lemmas show that decoding
  is defined on every message and accepts exactly the names that follow at most 32 pointers and
  fit the output buffer, with the dotted text of their labels.
\<close>

abbreviation NS_DNS_MAX_JUMPS :: int where "NS_DNS_MAX_JUMPS \<equiv> 32"

definition chars :: "bytes \<Rightarrow> string" where
  "chars bs = map (\<lambda>b. char_of (unat b)) bs"

text \<open>The loop, with the variables it changes: \<open>pos\<close>, the output buffer, \<open>out_pos\<close>,
  \<open>end_set\<close>, \<open>*end_offset\<close> (\<open>None\<close> until it is assigned) and \<open>jumps\<close>. Leaving
  by \<open>break\<close> gives status \<open>NS_PARSE_OK\<close>.\<close>

function ns_dns_decode_loop ::
  "bytes \<Rightarrow> size_t \<Rightarrow> size_t \<Rightarrow> size_t \<Rightarrow> cbuf \<Rightarrow> size_t \<Rightarrow> bool \<Rightarrow> size_t option \<Rightarrow> int \<Rightarrow>
     (ns_parse_status_t \<times> cbuf \<times> size_t \<times> size_t option) option" where
  "ns_dns_decode_loop data len out_len pos out out_pos end_set end_offset jumps = do {
     rd \<leftarrow> ns_read_u8 data len pos;
     (case rd of
        None \<Rightarrow> Some (NS_PARSE_TRUNCATED, out, out_pos, end_offset)
      | Some len_byte \<Rightarrow>
          if len_byte AND 0xC0 = 0xC0
          then do {
            rd \<leftarrow> ns_read_u16_be data len pos;
            (case rd of
               None \<Rightarrow> Some (NS_PARSE_TRUNCATED, out, out_pos, end_offset)
             | Some ptr_field \<Rightarrow>
                 let end_offset = (if \<not> end_set then Some (pos + 2) else end_offset);
                     jumps = jumps + 1 in
                 if jumps > NS_DNS_MAX_JUMPS then Some (NS_PARSE_MALFORMED, out, out_pos, end_offset)
                 else ns_dns_decode_loop data len out_len (ucast (ptr_field AND 0x3FFF)) out out_pos
                        True end_offset jumps) }
          else if len_byte AND 0xC0 \<noteq> 0 then Some (NS_PARSE_MALFORMED, out, out_pos, end_offset)
          else if len_byte = 0
          then Some (NS_PARSE_OK, out, out_pos, if \<not> end_set then Some (pos + 1) else end_offset)
          else (let label_len = (ucast len_byte :: size_t); pos = pos + 1 in
            if \<not> ns_bounds_check len pos label_len
            then Some (NS_PARSE_TRUNCATED, out, out_pos, end_offset)
            else if out_pos + label_len + 1 \<ge> out_len
            then Some (NS_PARSE_MALFORMED, out, out_pos, end_offset)
            else do {
              (out, out_pos) \<leftarrow> (if out_pos \<noteq> 0
                 then do { out \<leftarrow> mem_set out out_pos CHR ''.''; Some (out, out_pos + 1) }
                 else Some (out, out_pos));
              label \<leftarrow> mem_read data pos label_len;
              out \<leftarrow> mem_write out out_pos (chars label);
              ns_dns_decode_loop data len out_len (pos + label_len) out (out_pos + label_len)
                end_set end_offset jumps })) }"
  by pat_completeness auto

text \<open>A byte read at \<open>pos\<close> lies before the captured length, so a label moves the position
  forward without wrapping.\<close>

lemma ns_read_u8_accepted: "ns_read_u8 data len pos = Some (Some b) \<Longrightarrow> unat pos < unat len"
  by (auto simp: ns_read_u8_def ns_bounds_check_iff split: if_splits)

lemma label_step:
  assumes "unat pos < unat len" "ns_bounds_check len (pos + 1) lab"
  shows "unat (pos + 1) = unat pos + 1" "unat (pos + 1 + lab) = unat pos + 1 + unat lab"
    "unat pos + 1 + unat lab \<le> unat len"
proof -
  show p: "unat (pos + 1) = unat pos + 1" using unat_Suc_less [OF assms(1)] by simp
  show "unat pos + 1 + unat lab \<le> unat len" using assms(2) p by (simp add: ns_bounds_check_iff)
  with p show "unat (pos + 1 + lab) = unat pos + 1 + unat lab"
    using unat_add_le [of "pos + 1" lab len] by simp
qed

termination ns_dns_decode_loop
proof (relation "measures [\<lambda>(data, len, out_len, pos, out, out_pos, end_set, end_offset, jumps). nat (33 - jumps),
    \<lambda>(data, len, out_len, pos, out, out_pos, end_set, end_offset, jumps). unat len - unat pos]",
    goal_cases)
  case (3 data len out_len pos out out_pos end_set end_offset jumps)
  then show ?case
    using label_step [of pos len] ns_read_u8_accepted [of data len pos] by auto
qed auto

declare ns_dns_decode_loop.simps [simp del]

definition ns_dns_decode_name ::
  "bytes \<Rightarrow> size_t \<Rightarrow> size_t \<Rightarrow> cbuf \<Rightarrow> size_t \<Rightarrow> (ns_parse_status_t \<times> cbuf \<times> size_t option) option" where
  "ns_dns_decode_name data len offset out out_len =
     (if out_len = 0 then Some (NS_PARSE_MALFORMED, out, None)
      else do {
        (status, out, out_pos, end_offset) \<leftarrow>
          ns_dns_decode_loop data len out_len offset out 0 False None 0;
        if status \<noteq> NS_PARSE_OK then Some (status, out, end_offset)
        else do {
          (out, out_pos) \<leftarrow> (if out_pos = 0
             then do { out \<leftarrow> mem_set out out_pos CHR ''.''; Some (out, out_pos + 1) }
             else Some (out, out_pos));
          out \<leftarrow> mem_set out out_pos NUL;
          Some (NS_PARSE_OK, out, end_offset) } })"

subsection \<open>Names of RFC 1035\<close>

inductive dns_name :: "bytes \<Rightarrow> nat \<Rightarrow> nat \<Rightarrow> bytes list \<Rightarrow> nat \<Rightarrow> bool" for m where
  root: "i < length m \<Longrightarrow> m ! i = 0 \<Longrightarrow> dns_name m i 0 [] (i + 1)"
| label: "i + 1 + k \<le> length m \<Longrightarrow> unat (m ! i) = k \<Longrightarrow> 0 < k \<Longrightarrow> k < 64 \<Longrightarrow>
    dns_name m (i + 1 + k) j ls e \<Longrightarrow> dns_name m i j (window m (i + 1) k # ls) e"
| pointer: "i + 2 \<le> length m \<Longrightarrow> 192 \<le> unat (m ! i) \<Longrightarrow>
    dns_name m (unat (be16 m i) mod 16384) j ls e \<Longrightarrow> dns_name m i (Suc j) ls (i + 2)"

inductive_cases dns_nameE: "dns_name m i j ls e"

lemma dns_name_end: "dns_name m i j ls e \<Longrightarrow> i < e \<and> e \<le> length m"
  by (induction rule: dns_name.induct) auto

text \<open>The text of a name, and the text built label by label as the loop builds it.\<close>

definition dns_text :: "bytes list \<Rightarrow> string" where
  "dns_text ls = (if ls = [] then ''.'' else join ''.'' (map chars ls))"

definition add_label :: "string \<Rightarrow> bytes \<Rightarrow> string" where
  "add_label acc l = acc @ (if acc = [] then [] else ''.'') @ chars l"

definition dotted :: "string \<Rightarrow> bytes list \<Rightarrow> string" where
  "dotted = foldl add_label"

lemma length_chars [simp]: "length (chars bs) = length bs" "chars bs = [] \<longleftrightarrow> bs = []"
  by (simp_all add: chars_def)

lemma dotted_simps [simp]: "dotted acc [] = acc" "dotted acc (l # ls) = dotted (add_label acc l) ls"
  by (simp_all add: dotted_def)

lemma dotted_join:
  "\<forall>l \<in> set ls. l \<noteq> [] \<Longrightarrow> dotted acc ls =
     (if ls = [] then acc else if acc = [] then join ''.'' (map chars ls) else acc @ ''.'' @ join ''.'' (map chars ls))"
  by (induction ls arbitrary: acc) (auto simp: add_label_def join_Cons)

lemma length_dotted: "length acc \<le> length (dotted acc ls)"
proof (induction ls arbitrary: acc)
  case (Cons l ls)
  have "length acc \<le> length (add_label acc l)" by (simp add: add_label_def)
  with Cons [of "add_label acc l"] show ?case by simp
qed simp

lemma dns_name_labels: "dns_name m i j ls e \<Longrightarrow> \<forall>l \<in> set ls. l \<noteq> [] \<and> length l < 64"
  by (induction rule: dns_name.induct) (auto simp: window_def)

text \<open>The two top bits of a length byte.\<close>

lemma top_bits: "unat ((b :: u8) AND 0xC0) = unat b div 64 * 64"
proof -
  have "b AND NOT (mask 6) = push_bit 6 (drop_bit 6 b)"
    by (rule bit_word_eqI) (auto simp: bit_simps)
  moreover have "NOT (mask 6 :: u8) = 0xC0" by (simp add: mask_eq_exp_minus_1)
  ultimately have "b AND 0xC0 = push_bit 6 (drop_bit 6 b)" by simp
  moreover have "unat b div 64 * 64 < 256" using unat_lt_256 [of b] by linarith
  ultimately show ?thesis
    by (simp add: push_bit_eq_mult unat_word_ariths unat_drop_bit)
qed

lemma length_byte_kind:
  "(b :: u8) AND 0xC0 = 0xC0 \<longleftrightarrow> 192 \<le> unat b" "b AND 0xC0 = 0 \<longleftrightarrow> unat b < 64"
proof -
  have "unat b div 64 * 64 = 192 \<longleftrightarrow> 192 \<le> unat b" "unat b div 64 * 64 = 0 \<longleftrightarrow> unat b < 64"
    using unat_lt_256 [of b] by auto
  then show "b AND 0xC0 = 0xC0 \<longleftrightarrow> 192 \<le> unat b" "b AND 0xC0 = 0 \<longleftrightarrow> unat b < 64"
    by (simp_all add: word_unat_eq_iff top_bits)
qed

lemma pointer_target: "unat (ucast ((w :: u16) AND 0x3FFF) :: size_t) = unat w mod 16384"
  using unat_and_mask [of w 14] by (simp add: unat_ucast_up mask_eq_exp_minus_1)

subsection \<open>One turn of the loop\<close>

lemma decode_end:
  assumes "unat len \<le> unat pos"
  shows "ns_dns_decode_loop data len out_len pos out out_pos es eo jumps =
    Some (NS_PARSE_TRUNCATED, out, out_pos, eo)"
  using assms by (subst ns_dns_decode_loop.simps) (simp add: cmem)

lemma decode_reserved:
  assumes "unat pos < unat len" "unat len \<le> length data" "64 \<le> unat (data ! unat pos)" "unat (data ! unat pos) < 192"
  shows "ns_dns_decode_loop data len out_len pos out out_pos es eo jumps =
    Some (NS_PARSE_MALFORMED, out, out_pos, eo)"
  using assms by (subst ns_dns_decode_loop.simps) (simp add: cmem length_byte_kind)

lemma decode_root:
  assumes "unat pos < unat len" "unat len \<le> length data" "data ! unat pos = 0"
  shows "ns_dns_decode_loop data len out_len pos out out_pos es eo jumps =
    Some (NS_PARSE_OK, out, out_pos, if \<not> es then Some (pos + 1) else eo)"
  using assms by (subst ns_dns_decode_loop.simps) (simp add: cmem)

lemma decode_pointer:
  assumes "unat pos < unat len" "unat len \<le> length data" "192 \<le> unat (data ! unat pos)"
  shows "ns_dns_decode_loop data len out_len pos out out_pos es eo jumps =
    (if unat len < unat pos + 2 then Some (NS_PARSE_TRUNCATED, out, out_pos, eo)
     else if jumps + 1 > 32 then Some (NS_PARSE_MALFORMED, out, out_pos, if \<not> es then Some (pos + 2) else eo)
     else ns_dns_decode_loop data len out_len (ucast (be16 data (unat pos) AND 0x3FFF)) out out_pos
            True (if \<not> es then Some (pos + 2) else eo) (jumps + 1))"
  using assms
  by (subst ns_dns_decode_loop.simps) (simp add: cmem length_byte_kind not_less)

lemma label_byte:
  assumes "unat (b :: u8) = k" "0 < k" "k < 64"
  shows "(ucast b :: size_t) = of_nat k" "unat (of_nat k :: size_t) = k"
    "b \<noteq> 0" "b AND 0xC0 \<noteq> 0xC0" "b AND 0xC0 = 0"
proof -
  show "b \<noteq> 0" "b AND 0xC0 \<noteq> 0xC0" "b AND 0xC0 = 0" using assms by (auto simp: length_byte_kind)
qed (use assms in \<open>simp_all add: word_unat_eq_iff unat_ucast_up unat_of_nat\<close>)

lemma label_room:
  assumes "unat (out_pos :: size_t) = n" "unat out_len = N" "n < N" "N \<le> 65536" "k < 64"
  shows "out_len \<le> out_pos + of_nat k + 1 \<longleftrightarrow> N \<le> n + k + 1"
proof -
  have "unat (out_pos + of_nat k + 1) = n + k + 1"
    using assms by (simp add: unat_word_ariths unat_of_nat)
  then show ?thesis using assms(2) by (simp add: word_le_nat_alt)
qed

lemma decode_label_refused:
  assumes "unat pos < unat len" "unat len \<le> length data" "unat (data ! unat pos) = k" "0 < k" "k < 64"
    and "unat out_pos = length acc" "unat out_len = length out" "length acc < length out" "length out \<le> 65536"
    and "unat len < unat pos + 1 + k \<or> length out \<le> length acc + k + 1"
  shows "ns_dns_decode_loop data len out_len pos out out_pos es eo jumps =
    Some (if unat len < unat pos + 1 + k then NS_PARSE_TRUNCATED else NS_PARSE_MALFORMED, out, out_pos, eo)"
proof -
  have "unat (pos + 1) = unat pos + 1" using unat_Suc_less [OF assms(1)] by simp
  then have bc: "ns_bounds_check len (pos + 1) (of_nat k) \<longleftrightarrow> unat pos + 1 + k \<le> unat len"
    using label_byte(2) [OF assms(3-5)] by (simp add: ns_bounds_check_iff)
  show ?thesis
    using assms(1,2,10) label_room [OF assms(6-9,5)] bc
    by (subst ns_dns_decode_loop.simps) (auto simp: cmem label_byte [OF assms(3-5)] Let_def)
qed

lemma decode_label:
  assumes "unat pos < unat len" "unat len \<le> length data" "unat (data ! unat pos) = k" "0 < k" "k < 64"
    and "unat out_pos = length acc" "unat out_len = length out" "length out \<le> 65536"
    and "holds out acc" "unat pos + 1 + k \<le> unat len" "length acc + k + 1 < length out"
  obtains out' out_pos' where
    "ns_dns_decode_loop data len out_len pos out out_pos es eo jumps =
       ns_dns_decode_loop data len out_len (pos + 1 + of_nat k) out' out_pos' es eo jumps"
    "length out' = length out" "holds out' (add_label acc (window data (unat pos + 1) k))"
    "unat out_pos' = length (add_label acc (window data (unat pos + 1) k))"
proof -
  let ?l = "window data (unat pos + 1) k" and ?dot = "if acc = [] then [] else ''.''"
  note lab = label_byte [OF assms(3-5)]
  have pos: "unat (pos + 1) = unat pos + 1" using unat_Suc_less [OF assms(1)] by simp
  have "length acc < length out" using assms(11) by simp
  note room = label_room [OF assms(6,7) this assms(8,5)]
  have bc: "ns_bounds_check len (pos + 1) (of_nat k)"
    using pos lab(2) assms(10) by (simp add: ns_bounds_check_iff)
  have len_l: "length ?l = k" using assms(2,10) by (simp add: window_def)
  obtain o1 p1 where 1: "(if out_pos \<noteq> 0 then do { out \<leftarrow> mem_set out out_pos CHR ''.''; Some (out, out_pos + 1) }
      else Some (out, out_pos)) = Some (o1, p1)" "length o1 = length out" "holds o1 (acc @ ?dot)"
      "unat p1 = length (acc @ ?dot)"
  proof (cases "acc = []")
    case True
    with that [of out out_pos] assms(6,9) show thesis by (simp add: unat_eq_0)
  next
    case False
    then have "out_pos \<noteq> 0" using assms(6) by auto
    moreover obtain q where "mem_set out out_pos CHR ''.'' = Some q" "length q = length out"
      "holds q (acc @ ''.'')" "unat (out_pos + 1) = length (acc @ ''.'')"
      using mem_set_append [OF assms(9,6), of "CHR ''.''"] assms(8,11) by auto
    ultimately show thesis using that [of q "out_pos + 1"] False by simp
  qed
  have fits: "length (acc @ ?dot) + k \<le> length o1" using 1(2) assms(11) by simp
  let ?o2 = "(acc @ ?dot) @ chars ?l @ drop (length (acc @ ?dot) + k) o1"
  have rd: "mem_read data (pos + 1) (of_nat k) = Some ?l"
    using pos lab(2) assms(2,10) by (simp add: mem_read_def window_def)
  have wr: "mem_write o1 p1 (chars ?l) = Some ?o2"
    using 1(3,4) fits len_l by (simp add: mem_write_def holds_def)
  have "ns_dns_decode_loop data len out_len pos out out_pos es eo jumps =
    ns_dns_decode_loop data len out_len (pos + 1 + of_nat k) ?o2 (p1 + of_nat k) es eo jumps"
    using assms(1,2,11) lab bc room 1(1) rd wr
    by (subst ns_dns_decode_loop.simps) (simp add: cmem Let_def)
  moreover have "length ?o2 = length out" using fits 1(2) len_l by simp
  moreover have "holds ?o2 (add_label acc ?l)" by (simp add: holds_def add_label_def)
  moreover have "unat (p1 + of_nat k) = length (add_label acc ?l)"
    using 1(2,4) fits assms(8) lab(2) len_l by (simp add: unat_word_ariths add_label_def)
  ultimately show thesis using that by blast
qed

subsection \<open>The decoder accepts exactly the names\<close>

lemma decode_complete:
  assumes "dns_name m i j ls e" "m = take (unat len) data" "unat len \<le> length data" "unat pos = i"
    and "unat out_pos = length acc" "unat out_len = length out" "65 \<le> length out" "length out \<le> 65536"
    and "holds out acc" "length (dotted acc ls) < length out" "jumps + int j \<le> 32"
  shows "\<exists>out' p'. ns_dns_decode_loop data len out_len pos out out_pos es eo jumps =
    Some (NS_PARSE_OK, out', p', if es then eo else Some (of_nat e)) \<and> length out' = length out \<and>
    holds out' (dotted acc ls) \<and> unat p' = length (dotted acc ls)"
  using assms
proof (induction arbitrary: pos acc out out_pos es eo jumps rule: dns_name.induct)
  case (root i)
  then have "ns_dns_decode_loop data len out_len pos out out_pos es eo jumps =
    Some (NS_PARSE_OK, out, out_pos, if \<not> es then Some (pos + 1) else eo)"
    by (intro decode_root) auto
  moreover have "pos + 1 = of_nat (i + 1)" unfolding root.prems(3) [symmetric] by simp
  ultimately show ?case using root by auto
next
  case (label i k j ls e)
  let ?l = "window m (i + 1) k"
  have l: "?l = window data (unat pos + 1) k" using label by (simp add: window_take)
  have k: "unat (data ! unat pos) = k" using label by auto
  have "length (add_label acc ?l) \<le> length (dotted acc (?l # ls))" by (simp add: length_dotted)
  moreover have "length ?l = k" using label(1) by (simp add: window_def)
  ultimately have room: "length acc + k + 1 < length out"
    using label.prems(6,9) \<open>k < 64\<close> by (cases "acc = []") (auto simp: add_label_def)
  obtain o1 p1 where 1: "ns_dns_decode_loop data len out_len pos out out_pos es eo jumps =
       ns_dns_decode_loop data len out_len (pos + 1 + of_nat k) o1 p1 es eo jumps"
    "length o1 = length out" "holds o1 (add_label acc ?l)" "unat p1 = length (add_label acc ?l)"
    using decode_label [of pos len data k out_pos acc out_len out es eo jumps] label room k unfolding l
    by auto
  have "unat (pos + 1 + of_nat k) = i + 1 + k"
    using label unat_lt_2p64 [of len] by (simp add: unat_word_ariths unat_of_nat)
  from label.IH [OF label.prems(1,2) this 1(4) _ _ _ 1(3)] 1 label.prems show ?case by auto
next
  case (pointer i j ls e)
  have "unat (ucast (be16 data (unat pos) AND 0x3FFF) :: size_t) = unat (be16 m i) mod 16384"
    using pointer by (simp add: pointer_target be_take)
  from pointer.IH [OF pointer.prems(1,2) this pointer.prems(4-9), of "jumps + 1" True "if \<not> es then Some (pos + 2) else eo"]
  have "\<exists>out' p'. ns_dns_decode_loop data len out_len (ucast (be16 data (unat pos) AND 0x3FFF)) out out_pos True
      (if \<not> es then Some (pos + 2) else eo) (jumps + 1) =
    Some (NS_PARSE_OK, out', p', if \<not> es then Some (pos + 2) else eo) \<and> length out' = length out \<and>
    holds out' (dotted acc ls) \<and> unat p' = length (dotted acc ls)"
    using pointer.prems(10) by auto
  moreover have "pos + 2 = of_nat (i + 2)" unfolding pointer.prems(3) [symmetric] by simp
  ultimately show ?case
    using pointer decode_pointer [of pos len data out_len out out_pos es eo jumps] by auto
qed

definition accepted :: "bytes \<Rightarrow> nat \<Rightarrow> string \<Rightarrow> nat \<Rightarrow> int \<Rightarrow> bool" where
  "accepted m i acc n jumps \<longleftrightarrow>
     (\<exists>j ls e. dns_name m i j ls e \<and> jumps + int j \<le> 32 \<and> length (dotted acc ls) < n)"

lemma accepted_root: "i < length m \<Longrightarrow> m ! i = 0 \<Longrightarrow> length acc < n \<Longrightarrow> jumps \<le> 32 \<Longrightarrow> accepted m i acc n jumps"
  unfolding accepted_def by (rule exI [of _ 0], rule exI [of _ "[]"]) (auto intro: dns_name.root)

lemma accepted_label:
  assumes "i + 1 + k \<le> length m" "unat (m ! i) = k" "0 < k" "k < 64"
    and "accepted m (i + 1 + k) (add_label acc (window m (i + 1) k)) n jumps"
  shows "accepted m i acc n jumps"
  using assms dns_name.label [OF assms(1-4)] unfolding accepted_def by (metis dotted_simps(2))

lemma accepted_pointer:
  assumes "i + 2 \<le> length m" "192 \<le> unat (m ! i)" "accepted m (unat (be16 m i) mod 16384) acc n (jumps + 1)"
  shows "accepted m i acc n jumps"
proof -
  from assms(3) obtain j ls e where n: "dns_name m (unat (be16 m i) mod 16384) j ls e" "jumps + int (Suc j) \<le> 32"
    "length (dotted acc ls) < n" unfolding accepted_def by auto
  from dns_name.pointer [OF assms(1,2) n(1)] n(2,3) show ?thesis unfolding accepted_def by blast
qed

lemma decode_sound:
  assumes "m = take (unat len) data" "unat len \<le> length data" "unat out_len = length out" "length out \<le> 65536"
    and "unat out_pos = length acc" "holds out acc" "length acc < length out" "jumps \<le> 32"
  shows "\<exists>st out' p' eo'. ns_dns_decode_loop data len out_len pos out out_pos es eo jumps = Some (st, out', p', eo') \<and>
    length out' = length out \<and> st \<noteq> NS_PARSE_UNSUPPORTED \<and>
    (st = NS_PARSE_OK \<longrightarrow> accepted m (unat pos) acc (length out) jumps)"
  using assms(3-8)
proof (induction "(nat (33 - jumps), unat len - unat pos)" arbitrary: pos acc out out_pos es eo jumps
    rule: wf_induct_rule [OF wf_lex_prod [OF wf_less_than wf_less_than]])
  case 1
  note IH = 1(1) and prems = 1(2-7)
  show ?case
  proof (cases "unat pos < unat len")
    case False
    then show ?thesis by (simp add: decode_end)
  next
    case True
    let ?b = "data ! unat pos"
    have mb: "unat pos < length m" "m ! unat pos = ?b" using True assms(1,2) by simp_all
    consider "?b = 0" | "0 < unat ?b" "unat ?b < 64" | "64 \<le> unat ?b" "unat ?b < 192" | "192 \<le> unat ?b"
      by (cases "?b = 0") (auto simp: unat_eq_0 not_less, metis not_le unat_eq_0 gr_zeroI)
    then show ?thesis
    proof cases
      case 1
      then show ?thesis using decode_root [OF True assms(2)] accepted_root [of "unat pos" m] mb prems by auto
    next
      case 3
      then show ?thesis using decode_reserved [OF True assms(2)] by auto
    next
      case 2
      let ?k = "unat ?b"
      show ?thesis
      proof (cases "unat len < unat pos + 1 + ?k \<or> length out \<le> length acc + ?k + 1")
        case refused: True
        then show ?thesis
          using decode_label_refused [OF True assms(2) refl 2 prems(3,1,5,2) refused] by auto
      next
        case False
        let ?acc = "add_label acc (window data (unat pos + 1) ?k)"
        obtain o1 p1 where o1: "ns_dns_decode_loop data len out_len pos out out_pos es eo jumps =
           ns_dns_decode_loop data len out_len (pos + 1 + of_nat ?k) o1 p1 es eo jumps"
          "length o1 = length out" "holds o1 ?acc" "unat p1 = length ?acc"
          using decode_label [OF True assms(2) refl 2 prems(3,1,2,4), of es eo jumps] False by auto
        have npos: "unat (pos + 1 + of_nat ?k) = unat pos + 1 + ?k"
          using False 2 unat_lt_2p64 [of len] by (simp add: unat_word_ariths unat_ucast_up)
        have less: "((nat (33 - jumps), unat len - unat (pos + 1 + of_nat ?k)), (nat (33 - jumps), unat len - unat pos))
            \<in> less_than <*lex*> less_than" using npos True by auto
        have "length ?acc < length o1"
          using False o1(2) by (auto simp: add_label_def window_def)
        moreover have "window m (unat pos + 1) ?k = window data (unat pos + 1) ?k"
          using False assms(1) by (simp add: window_take)
        ultimately show ?thesis
          using IH [OF less, of o1 p1 ?acc es eo] accepted_label [of "unat pos" ?k m acc "length out" jumps]
            mb o1 prems npos False 2 assms(1,2) by auto
      qed
    next
      case 4
      let ?t = "ucast (be16 data (unat pos) AND 0x3FFF) :: size_t"
      have t: "unat pos + 2 \<le> unat len \<Longrightarrow> unat ?t = unat (be16 m (unat pos)) mod 16384"
        using assms(1) by (simp add: pointer_target be_take)
      have less: "jumps + 1 \<le> 32 \<Longrightarrow> ((nat (33 - (jumps + 1)), unat len - unat ?t), (nat (33 - jumps), unat len - unat pos))
          \<in> less_than <*lex*> less_than" by auto
      show ?thesis
        using IH [OF less, of out out_pos acc True "if \<not> es then Some (pos + 2) else eo"]
          decode_pointer [OF True assms(2) 4, of out_len out out_pos es eo jumps]
          accepted_pointer [of "unat pos" m acc "length out" jumps] mb prems t assms(1,2) 4
        by (auto simp: not_less)
    qed
  qed
qed

subsection \<open>The decoder\<close>

definition dns_name_fits :: "bytes list \<Rightarrow> nat \<Rightarrow> bool" where
  "dns_name_fits ls n \<longleftrightarrow> length (dns_text ls) < n"

lemma dotted_text:
  assumes "dns_name m i j ls e"
  shows "dns_text ls = (if dotted [] ls = [] then ''.'' else dotted [] ls)"
    and "dotted [] ls = [] \<longleftrightarrow> ls = []"
proof -
  have "\<forall>l \<in> set ls. l \<noteq> []" using dns_name_labels [OF assms] by blast
  then show e: "dotted [] ls = [] \<longleftrightarrow> ls = []" by (cases ls) (auto simp: dotted_join join_Cons add_label_def)
  show "dns_text ls = (if dotted [] ls = [] then ''.'' else dotted [] ls)"
    using \<open>\<forall>l \<in> set ls. l \<noteq> []\<close> e by (auto simp: dns_text_def dotted_join)
qed

lemma ns_dns_decode_name_complete:
  assumes "dns_name (take (unat len) data) (unat offset) j ls e" "j \<le> 32" "dns_name_fits ls (length out)"
    and "unat len \<le> length data" "unat out_len = length out" "65 \<le> length out" "length out \<le> 65536"
  obtains out' where "ns_dns_decode_name data len offset out out_len = Some (NS_PARSE_OK, out', Some (of_nat e))"
    "length out' = length out" "holds out' (dns_text ls)" "out' ! length (dns_text ls) = NUL"
proof -
  note dtext = dotted_text [OF assms(1)]
  have "length (dotted [] ls) < length out" using assms(3,6) dtext by (auto simp: dns_name_fits_def)
  then obtain o1 p1 where 1: "ns_dns_decode_loop data len out_len offset out 0 False None 0 =
      Some (NS_PARSE_OK, o1, p1, Some (of_nat e))"
    "length o1 = length out" "holds o1 (dotted [] ls)" "unat p1 = length (dotted [] ls)"
    using decode_complete [OF assms(1) refl assms(4) refl, of 0 "[]" out_len out 0 False None] assms by auto
  have nz: "out_len \<noteq> 0" "out \<noteq> []" using assms(5,6) by auto
  obtain o2 p2 where 2: "(if p1 = 0 then do { out \<leftarrow> mem_set o1 p1 CHR ''.''; Some (out, p1 + 1) }
      else Some (o1, p1)) = Some (o2, p2)" "length o2 = length out" "holds o2 (dns_text ls)" "unat p2 = length (dns_text ls)"
  proof (cases "dotted [] ls = []")
    case True
    then have "p1 = 0" using 1(4) by (simp add: unat_eq_0)
    moreover obtain q where "mem_set o1 p1 CHR ''.'' = Some q" "length q = length out" "holds q ''.''"
      "unat (p1 + 1) = length ''.''"
      using mem_set_append [of o1 "[]" p1 "CHR ''.''"] 1 True assms(7) nz(2) by auto
    ultimately show thesis using that [of q "p1 + 1"] True dtext by simp
  next
    case False
    then have "p1 \<noteq> 0" using 1(4) by auto
    with False that [of o1 p1] 1 dtext show thesis by simp
  qed
  have fit: "length (dns_text ls) < length o2" using assms(3) 2(2) by (simp add: dns_name_fits_def)
  have "ns_dns_decode_name data len offset out out_len =
      Some (NS_PARSE_OK, o2[length (dns_text ls) := NUL], Some (of_nat e))"
    using nz 1(1) 2(1,4) fit by (simp add: ns_dns_decode_name_def mem_set_def [of o2])
  moreover have "holds (o2[length (dns_text ls) := NUL]) (dns_text ls)" using 2(3) by (simp add: holds_def)
  ultimately show thesis using that [of "o2[length (dns_text ls) := NUL]"] 2(2) fit by simp
qed

lemma ns_dns_decode_name_sound:
  assumes "unat len \<le> length data" "unat out_len = length out" "65 \<le> length out" "length out \<le> 65536"
  obtains st out' eo where "ns_dns_decode_name data len offset out out_len = Some (st, out', eo)"
    "length out' = length out" "st \<noteq> NS_PARSE_UNSUPPORTED"
    "st = NS_PARSE_OK \<Longrightarrow> \<exists>j ls e. dns_name (take (unat len) data) (unat offset) j ls e \<and> j \<le> 32 \<and>
       dns_name_fits ls (length out) \<and> eo = Some (of_nat e) \<and> holds out' (dns_text ls) \<and>
       out' ! length (dns_text ls) = NUL"
proof -
  have nonempty: "length ([] :: string) < length out" using assms(3) by (cases out) auto
  obtain st o1 p1 eo where 1: "ns_dns_decode_loop data len out_len offset out 0 False None 0 = Some (st, o1, p1, eo)"
    "length o1 = length out" "st \<noteq> NS_PARSE_UNSUPPORTED"
    "st = NS_PARSE_OK \<Longrightarrow> accepted (take (unat len) data) (unat offset) [] (length out) 0"
    using decode_sound [OF refl assms(1,2,4) _ _ nonempty, of 0 0 offset False None] by auto
  have nz: "out_len \<noteq> 0" using assms(2,3) by auto
  show thesis
  proof (cases "st = NS_PARSE_OK")
    case False
    then show thesis using that [of st o1 eo] 1 nz by (simp add: ns_dns_decode_name_def)
  next
    case True
    with 1(4) obtain j ls e where n: "dns_name (take (unat len) data) (unat offset) j ls e" "j \<le> 32"
      "length (dotted [] ls) < length out" unfolding accepted_def by auto
    have fits: "dns_name_fits ls (length out)"
      using n(3) dotted_text [OF n(1)] assms(3) by (simp add: dns_name_fits_def)
    from ns_dns_decode_name_complete [OF n(1,2) fits assms] obtain out' where
      "ns_dns_decode_name data len offset out out_len = Some (NS_PARSE_OK, out', Some (of_nat e))"
      "length out' = length out" "holds out' (dns_text ls)" "out' ! length (dns_text ls) = NUL" .
    with that [of NS_PARSE_OK out' "Some (of_nat e)"] n fits show thesis by blast
  qed
qed

text \<open>A name has one reading only.\<close>

lemma dns_name_unique:
  "dns_name m i j ls e \<Longrightarrow> dns_name m i j' ls' e' \<Longrightarrow> j = j' \<and> ls = ls' \<and> e = e'"
proof (induction arbitrary: j' ls' e' rule: dns_name.induct)
  case (root i)
  from root.prems root.hyps show ?case by cases auto
next
  case (label i k j ls e)
  from label.prems show ?case
  proof cases
    case (label k' ls'')
    with \<open>unat (m ! i) = k\<close> have "k' = k" by simp
    with label label.IH show ?thesis by simp
  qed (use label.hyps in auto)
next
  case (pointer i j ls e)
  from pointer.prems show ?case
  proof cases
    case (pointer j'' e'')
    with pointer.IH show ?thesis by blast
  qed (use pointer.hyps in auto)
qed

text \<open>The name written without pointers, as a sender that does not compress writes it.\<close>

definition dns_encode :: "bytes list \<Rightarrow> bytes" where
  "dns_encode ls = concat (map (\<lambda>l. of_nat (length l) # l) ls) @ [0]"

lemma dns_encode_simps [simp]:
  "dns_encode [] = [0]" "dns_encode (l # ls) = of_nat (length l) # l @ dns_encode ls"
  by (simp_all add: dns_encode_def)

lemma dns_name_encode:
  assumes "\<forall>l \<in> set ls. l \<noteq> [] \<and> length l < 64"
  shows "dns_name (pre @ dns_encode ls @ post) (length pre) 0 ls (length pre + length (dns_encode ls))"
  using assms
proof (induction ls arbitrary: pre)
  case Nil
  then show ?case using dns_name.root [of "length pre" "pre @ 0 # post"] by simp
next
  case (Cons l ls)
  let ?m = "pre @ dns_encode (l # ls) @ post"
  have "dns_name ?m (length pre + 1 + length l) 0 ls (length pre + 1 + length l + length (dns_encode ls))"
    using Cons.IH [of "pre @ of_nat (length l) # l"] Cons.prems by (simp add: add.assoc)
  moreover have "unat (of_nat (length l) :: u8) = length l" using Cons.prems by (simp add: unat_of_nat)
  moreover have "window ?m (length pre + 1) (length l) = l" by (simp add: window_def)
  ultimately show ?case
    using dns_name.label [of "length pre" "length l" ?m 0 ls "length pre + 1 + length l + length (dns_encode ls)"] Cons.prems
    by (auto simp: nth_append add.assoc)
qed

subsection \<open>Properties\<close>

text \<open>C11: the name decoder accepts exactly the names of RFC 1035 that follow at most 32 compression
  pointers and fit the buffer, which has 65 to 65536 bytes (the program's buffers have 256 and 263). On every captured message it stays inside the message and inside
  the buffer and ends; it succeeds if and only if such a name starts at the offset, and then the
  buffer holds the dotted text of its labels, terminated, and the end offset is the one right
  after the name as written.\<close>

theorem dns_decode_exact:
  assumes "unat len \<le> length data" "unat out_len = length out" "65 \<le> length out" "length out \<le> 65536"
  shows "\<exists>st out' eo. ns_dns_decode_name data len offset out out_len = Some (st, out', eo) \<and>
    length out' = length out \<and>
    (st = NS_PARSE_OK \<longleftrightarrow>
       (\<exists>j ls e. dns_name (take (unat len) data) (unat offset) j ls e \<and> j \<le> 32 \<and> length (dns_text ls) < length out)) \<and>
    (\<forall>j ls e. dns_name (take (unat len) data) (unat offset) j ls e \<longrightarrow> st = NS_PARSE_OK \<longrightarrow>
       eo = Some (of_nat e) \<and> take (length (dns_text ls)) out' = dns_text ls \<and> out' ! length (dns_text ls) = NUL)"
proof -
  let ?m = "take (unat len) data"
  obtain st out' eo where r: "ns_dns_decode_name data len offset out out_len = Some (st, out', eo)"
    "length out' = length out" "st \<noteq> NS_PARSE_UNSUPPORTED"
    "st = NS_PARSE_OK \<Longrightarrow> \<exists>j ls e. dns_name ?m (unat offset) j ls e \<and> j \<le> 32 \<and>
       dns_name_fits ls (length out) \<and> eo = Some (of_nat e) \<and> holds out' (dns_text ls) \<and>
       out' ! length (dns_text ls) = NUL"
    using ns_dns_decode_name_sound [OF assms] by blast
  have "st = NS_PARSE_OK" if "dns_name ?m (unat offset) j ls e" "j \<le> 32" "length (dns_text ls) < length out" for j ls e
  proof -
    have "dns_name_fits ls (length out)" using that(3) by (simp add: dns_name_fits_def)
    from ns_dns_decode_name_complete [OF that(1,2) this assms] obtain o1 where
      "ns_dns_decode_name data len offset out out_len = Some (NS_PARSE_OK, o1, Some (of_nat e))" .
    with r(1) show ?thesis by simp
  qed
  moreover have "eo = Some (of_nat e) \<and> take (length (dns_text ls)) out' = dns_text ls \<and> out' ! length (dns_text ls) = NUL"
    if "dns_name ?m (unat offset) j ls e" "st = NS_PARSE_OK" for j ls e
  proof -
    from r(4) [OF that(2)] obtain j' ls' e' where n: "dns_name ?m (unat offset) j' ls' e'" "eo = Some (of_nat e')"
      "holds out' (dns_text ls')" "out' ! length (dns_text ls') = NUL" by blast
    with dns_name_unique [OF that(1) n(1)] show ?thesis by (simp add: holds_def)
  qed
  moreover have "\<exists>j ls e. dns_name ?m (unat offset) j ls e \<and> j \<le> 32 \<and> length (dns_text ls) < length out"
    if "st = NS_PARSE_OK" using r(4) [OF that] by (auto simp: dns_name_fits_def)
  ultimately show ?thesis using r(1,2) by blast
qed

theorem dns_decode_exact_witness:
  "\<exists>st out' eo. ns_dns_decode_name [1, 0x61, 0] 3 0 (stack_buf 256) 256 = Some (st, out', eo) \<and>
     st = NS_PARSE_OK \<and> eo = Some 3 \<and> take 1 out' = ''a''"
proof -
  have "dns_name [1, 0x61, 0] 0 0 [[0x61]] 3"
    using dns_name_encode [of "[[0x61]]" "[]" "[]"] by (simp flip: numeral_3_eq_3)
  then have n: "dns_name (take (unat (3 :: size_t)) [1, 0x61, 0]) (unat (0 :: size_t)) 0 [[0x61]] 3" by simp
  have t: "dns_text [[0x61]] = ''a''" by code_simp
  have "unat (3 :: size_t) \<le> length [1, 0x61, 0 :: u8]" "unat (256 :: size_t) = length (stack_buf 256)"
    "65 \<le> length (stack_buf 256)" "length (stack_buf 256) \<le> 65536" by (simp_all add: stack_buf_def)
  from dns_decode_exact [OF this, of 0] obtain st out' eo where
    r: "ns_dns_decode_name [1, 0x61, 0] 3 0 (stack_buf 256) 256 = Some (st, out', eo)"
    "(\<exists>j ls e. dns_name (take (unat (3 :: size_t)) [1, 0x61, 0]) (unat (0 :: size_t)) j ls e \<and> j \<le> 32 \<and>
       length (dns_text ls) < length (stack_buf 256)) \<Longrightarrow> st = NS_PARSE_OK"
    "\<And>j ls e. dns_name (take (unat (3 :: size_t)) [1, 0x61, 0]) (unat (0 :: size_t)) j ls e \<Longrightarrow> st = NS_PARSE_OK \<Longrightarrow>
       eo = Some (of_nat e) \<and> take (length (dns_text ls)) out' = dns_text ls" by blast
  have "length (dns_text [[0x61]]) < length (stack_buf 256)" unfolding t by (simp add: stack_buf_def)
  with n have "st = NS_PARSE_OK" by (intro r(2)) blast
  with r(1) r(3) [OF n] t show ?thesis by simp
qed

text \<open>A pointer to itself, whatever the number of jumps already made.\<close>

lemma decode_self_pointer:
  assumes "unat len \<le> length data" "unat pos + 2 \<le> unat len"
    and "192 \<le> unat (data ! unat pos)" "unat (be16 data (unat pos)) mod 16384 = unat pos"
  shows "\<exists>eo'. ns_dns_decode_loop data len out_len pos out out_pos es eo jumps = Some (NS_PARSE_MALFORMED, out, out_pos, eo')"
proof (induction "nat (33 - jumps)" arbitrary: es eo jumps)
  case 0
  have "unat pos < unat len" using assms(2) by simp
  with 0 show ?case using assms(2) by (subst decode_pointer [OF _ assms(1,3)]) auto
next
  case (Suc k)
  have "ucast (be16 data (unat pos) AND 0x3FFF) = pos"
    using assms(4) by (simp add: word_unat_eq_iff pointer_target)
  moreover have "k = nat (33 - (jumps + 1))" using Suc.hyps(2) by simp
  moreover have "unat pos < unat len" using assms(2) by simp
  ultimately show ?case
    using assms(2) Suc.hyps(1) [of "jumps + 1"] by (subst decode_pointer [OF _ assms(1,3)]) auto
qed

text \<open>C14: a compression pointer that points at itself is rejected as malformed, instead of being followed
  for ever.\<close>

theorem dns_self_pointer_rejected:
  assumes "unat len \<le> length data" "unat offset + 2 \<le> unat len" "out_len \<noteq> 0"
    and "192 \<le> unat (data ! unat offset)" "unat (be16 data (unat offset)) mod 16384 = unat offset"
  shows "\<exists>eo. ns_dns_decode_name data len offset out out_len = Some (NS_PARSE_MALFORMED, out, eo)"
proof -
  obtain eo where "ns_dns_decode_loop data len out_len offset out 0 False None 0 = Some (NS_PARSE_MALFORMED, out, 0, eo)"
    using decode_self_pointer [OF assms(1,2,4,5)] by blast
  with assms(3) show ?thesis by (simp add: ns_dns_decode_name_def)
qed

theorem dns_self_pointer_rejected_witness:
  "\<exists>eo. ns_dns_decode_name [0xC0, 0] 2 0 (stack_buf 256) 256 = Some (NS_PARSE_MALFORMED, stack_buf 256, eo)"
  by (rule dns_self_pointer_rejected) (simp_all add: unat_be16 window_def be_nat_def)

end
