(* ===== verification/NS_Format.thy ===== *)
theory NS_Format
  imports NS_Util
begin

section \<open>util.c: addresses as text\<close>

text \<open>
  \<open>ns_format_mac\<close>, \<open>ns_format_ipv4\<close> and \<open>ns_format_ipv6\<close>. The IPv6 printer is the
  one with loops: it finds the longest run of zero groups and prints the groups around it into a
  46-byte scratch buffer. Shown: none of the printers writes outside its buffers, the IPv6 loop
  ends, the text is the one of RFC 5952 (leftmost longest run of at least two zero groups
  replaced by \<open>::\<close>), at most 39 characters long, and two addresses with the same text are
  equal, which the flow table relies on.
\<close>

definition ns_format_mac :: "bytes \<Rightarrow> cbuf \<Rightarrow> size_t \<Rightarrow> cbuf option" where
  "ns_format_mac mac buf buf_len = do {
     m0 \<leftarrow> mem_get mac 0; m1 \<leftarrow> mem_get mac 1; m2 \<leftarrow> mem_get mac 2;
     m3 \<leftarrow> mem_get mac 3; m4 \<leftarrow> mem_get mac 4; m5 \<leftarrow> mem_get mac 5;
     (buf, _) \<leftarrow> snprintf buf 0 buf_len
       (zero_pad 2 (hex (unat m0)) @ '':'' @ zero_pad 2 (hex (unat m1)) @ '':'' @
        zero_pad 2 (hex (unat m2)) @ '':'' @ zero_pad 2 (hex (unat m3)) @ '':'' @
        zero_pad 2 (hex (unat m4)) @ '':'' @ zero_pad 2 (hex (unat m5)));
     Some buf }"

definition ns_format_ipv4 :: "u32 \<Rightarrow> cbuf \<Rightarrow> size_t \<Rightarrow> cbuf option" where
  "ns_format_ipv4 addr_be buf buf_len = do {
     let b = mem_of_u32 addr_be;
     b0 \<leftarrow> mem_get b 0; b1 \<leftarrow> mem_get b 1; b2 \<leftarrow> mem_get b 2; b3 \<leftarrow> mem_get b 3;
     (buf, _) \<leftarrow> snprintf buf 0 buf_len
       (dec (unat b0) @ ''.'' @ dec (unat b1) @ ''.'' @ dec (unat b2) @ ''.'' @ dec (unat b3));
     Some buf }"

text \<open>The three loops of \<open>ns_format_ipv6\<close>. The first collects the groups.\<close>

primrec ipv6_groups :: "nat \<Rightarrow> bytes \<Rightarrow> size_t \<Rightarrow> u16 list option" where
  "ipv6_groups 0 addr i = Some []"
| "ipv6_groups (Suc n) addr i = do {
     hi \<leftarrow> mem_get addr (i * 2);
     lo \<leftarrow> mem_get addr (i * 2 + 1);
     gs \<leftarrow> ipv6_groups n addr (i + 1);
     Some ((push_bit 8 (ucast hi) OR ucast lo) # gs) }"

text \<open>The second scans them for the longest run of zeros: \<open>i\<close>, the best run and the current
  run, as the \<open>int\<close> variables of the source.\<close>

primrec ipv6_scan :: "u16 list \<Rightarrow> int \<Rightarrow> int \<Rightarrow> int \<Rightarrow> int \<Rightarrow> int \<Rightarrow> int \<times> int" where
  "ipv6_scan [] i best_start best_len cur_start cur_len = (best_start, best_len)"
| "ipv6_scan (g # gs) i best_start best_len cur_start cur_len =
     (if g = 0
      then (let cur_start = (if cur_start < 0 then i else cur_start);
                cur_len = cur_len + 1;
                (best_start, best_len) =
                  (if cur_len > best_len then (cur_start, cur_len) else (best_start, best_len))
            in ipv6_scan gs (i + 1) best_start best_len cur_start cur_len)
      else ipv6_scan gs (i + 1) best_start best_len (-1) 0)"

text \<open>The third prints; it is not obvious that it ends, so a run that does not is \<open>None\<close>.\<close>

partial_function (option) ipv6_emit ::
  "u16 list \<Rightarrow> int \<Rightarrow> int \<Rightarrow> int \<Rightarrow> cbuf \<Rightarrow> size_t \<Rightarrow> (cbuf \<times> size_t) option" where
  [code]: "ipv6_emit groups best_start best_len i tmp pos =
     (if i < 8
      then (if i = best_start
            then do {
              tmp \<leftarrow> mem_set tmp pos CHR '':'';
              tmp \<leftarrow> mem_set tmp (pos + 1) CHR '':'';
              ipv6_emit groups best_start best_len (i + best_len) tmp (pos + 2) }
            else do {
              (tmp, pos) \<leftarrow> (if i \<noteq> 0 \<and> i \<noteq> best_start + best_len
                             then do { t \<leftarrow> mem_set tmp pos CHR '':''; Some (t, pos + 1) }
                             else Some (tmp, pos));
              g \<leftarrow> mem_get groups (word_of_int i);
              (tmp, written) \<leftarrow> snprintf tmp pos (46 - pos) (hex (unat g));
              ipv6_emit groups best_start best_len (i + 1) tmp (pos + word_of_int written) })
      else Some (tmp, pos))"

definition ns_format_ipv6 :: "bytes \<Rightarrow> cbuf \<Rightarrow> size_t \<Rightarrow> cbuf option" where
  "ns_format_ipv6 addr buf buf_len = do {
     groups \<leftarrow> ipv6_groups 8 addr 0;
     let (best_start, best_len) = ipv6_scan groups 0 (-1) 0 (-1) 0;
     let (best_start, best_len) = (if best_len < 2 then (-1, 0) else (best_start, best_len));
     (tmp, pos) \<leftarrow> ipv6_emit groups best_start best_len 0 (stack_buf 46) 0;
     (tmp, pos) \<leftarrow> (if pos = 0
       then do { t \<leftarrow> mem_set tmp pos CHR '':''; t \<leftarrow> mem_set t (pos + 1) CHR '':'';
                 Some (t, pos + 2) }
       else Some (tmp, pos));
     tmp \<leftarrow> mem_set tmp pos NUL;
     s \<leftarrow> c_str tmp;
     (buf, _) \<leftarrow> snprintf buf 0 buf_len s;
     Some buf }"

subsection \<open>MAC and IPv4 addresses\<close>

definition ipv4_text :: "u32 \<Rightarrow> string" where
  "ipv4_text a = join ''.'' (map (dec \<circ> unat) (mem_of_u32 a))"

lemma dec_byte: "length (dec (unat (b :: u8))) \<le> 3"
  using length_show_base [of 10 "unat b" 2] unat_lt_256 [of b] by simp

lemma ipv4_text_nul_free [simp]: "nul_free (ipv4_text a)"
  unfolding ipv4_text_def by (rule join_nul_free) (auto simp: mem_of_u32_def)

lemma ipv4_text_length: "length (ipv4_text a) \<le> 15"
proof -
  have "Suc (length (ipv4_text a)) \<le> Suc 3 * length (map (dec \<circ> unat) (mem_of_u32 a))"
    unfolding ipv4_text_def by (rule length_join) (auto simp: mem_of_u32_def dec_byte)
  then show ?thesis by simp
qed

lemma ns_format_ipv4_text:
  assumes "unat buf_len = length buf" "16 \<le> length buf"
  obtains q where "ns_format_ipv4 a buf buf_len = Some q" "length q = length buf"
    "c_str q = Some (ipv4_text a)"
proof -
  have "0 < length buf" using assms(2) by linarith
  from snprintf_whole [OF ipv4_text_nul_free [of a] assms(1) this]
  obtain q where q: "snprintf buf 0 buf_len (ipv4_text a) = Some (q, int (length (ipv4_text a)))"
    "length q = length buf" "c_str q = Some (take (length buf - 1) (ipv4_text a))" .
  moreover have "take (length buf - 1) (ipv4_text a) = ipv4_text a"
    using ipv4_text_length [of a] assms(2) by simp
  moreover have "ns_format_ipv4 a buf buf_len = Some q"
    using q(1) by (simp add: ns_format_ipv4_def mem_get_def mem_of_u32_def ipv4_text_def)
  ultimately show thesis using that by simp
qed

lemma dec_no_dot: "CHR ''.'' \<notin> set (dec n)"
  using show_base_code [of 10 "CHR ''.''" n] by auto

lemma mem_of_u32_inject: "mem_of_u32 a = mem_of_u32 b \<longleftrightarrow> a = b"
  by (metis u32_of_mem_of_u32)

lemma ipv4_text_inject: "ipv4_text a = ipv4_text b \<longleftrightarrow> a = b"
proof
  assume "ipv4_text a = ipv4_text b"
  then have "map (dec \<circ> unat) (mem_of_u32 a) = map (dec \<circ> unat) (mem_of_u32 b)"
    unfolding ipv4_text_def by (intro join_inject) (auto simp: mem_of_u32_def dec_no_dot)
  then have "mem_of_u32 a = mem_of_u32 b"
    by (rule map_injective) (auto simp: inj_def show_base_inject word_unat_eq_iff)
  then show "a = b" by (simp add: mem_of_u32_inject)
qed simp

text \<open>The text of an address copied from the wire names its bytes in wire order.\<close>

lemma ipv4_text_wire: "length bs = 4 \<Longrightarrow> ipv4_text (u32_of_mem bs) = join ''.'' (map (dec \<circ> unat) bs)"
  by (simp add: ipv4_text_def mem_of_u32_of_mem)

definition mac_text :: "bytes \<Rightarrow> string" where
  "mac_text mac = join '':'' (map (\<lambda>b. zero_pad 2 (hex (unat b))) mac)"

lemma hex_byte: "length (zero_pad 2 (hex (unat (b :: u8)))) = 2"
  using length_show_base [of 16 "unat b" 1] unat_lt_256 [of b] by (simp add: zero_pad_def)

lemma zero_pad_nul_free [simp]: "nul_free s \<Longrightarrow> nul_free (zero_pad w s)"
  by (simp add: zero_pad_def nul_free_def)

lemma ns_format_mac_text:
  assumes "unat buf_len = length buf" "18 \<le> length buf" "length mac = 6"
  obtains q where "ns_format_mac mac buf buf_len = Some q" "length q = length buf"
    "c_str q = Some (mac_text mac)"
proof -
  have free: "nul_free (mac_text mac)"
    unfolding mac_text_def by (rule join_nul_free) auto
  have "Suc (length (mac_text mac)) \<le> Suc 2 * length (map (\<lambda>b. zero_pad 2 (hex (unat b))) mac)"
    unfolding mac_text_def using assms(3) by (intro length_join) (auto simp: hex_byte)
  then have len: "length (mac_text mac) \<le> 17" using assms(3) by simp
  have "0 < length buf" using assms(2) by linarith
  from snprintf_whole [OF free assms(1) this]
  obtain q where q: "snprintf buf 0 buf_len (mac_text mac) = Some (q, int (length (mac_text mac)))"
    "length q = length buf" "c_str q = Some (take (length buf - 1) (mac_text mac))" .
  moreover have "take (length buf - 1) (mac_text mac) = mac_text mac" using len assms(2) by simp
  moreover obtain a b c d e f where "mac = [a, b, c, d, e, f]"
    using assms(3) by (auto simp: numeral_eq_Suc length_Suc_conv)
  then have "ns_format_mac mac buf buf_len = Some q"
    using q(1) by (simp add: ns_format_mac_def mem_get_def mac_text_def)
  ultimately show thesis using that by simp
qed

subsection \<open>Properties\<close>

text \<open>IPv4 and MAC addresses as text. With the buffer sizes the program uses, the text is the four
  bytes in wire order in decimal separated by dots (the six bytes in two-digit hexadecimal
  separated by colons), never cut, and two IPv4 addresses with the same text are equal.\<close>

lemma format_ipv4_mac_exact:
  assumes "unat buf_len = length buf" "18 \<le> length buf" "length bs = 4" "length mac = 6"
  shows "(\<exists>q. ns_format_ipv4 (u32_of_mem bs) buf buf_len = Some q \<and> length q = length buf \<and>
      c_str q = Some (join ''.'' (map (\<lambda>b. dec (unat b)) bs))) \<and>
    (\<exists>q. ns_format_mac mac buf buf_len = Some q \<and> length q = length buf \<and>
      c_str q = Some (join '':'' (map (\<lambda>b. zero_pad 2 (hex (unat b))) mac))) \<and>
    (ipv4_text a = ipv4_text b \<longleftrightarrow> a = b)"
proof (intro conjI)
  have len: "16 \<le> length buf" using assms(2) by simp
  have text4: "ipv4_text (u32_of_mem bs) = join ''.'' (map (\<lambda>b. dec (unat b)) bs)"
    using ipv4_text_wire [OF assms(3)] by (simp add: comp_def)
  show "\<exists>q. ns_format_ipv4 (u32_of_mem bs) buf buf_len = Some q \<and> length q = length buf \<and>
      c_str q = Some (join ''.'' (map (\<lambda>b. dec (unat b)) bs))"
    using ns_format_ipv4_text [OF assms(1) len, of "u32_of_mem bs"] unfolding text4 by blast
  show "\<exists>q. ns_format_mac mac buf buf_len = Some q \<and> length q = length buf \<and>
      c_str q = Some (join '':'' (map (\<lambda>b. zero_pad 2 (hex (unat b))) mac))"
    using ns_format_mac_text [OF assms(1,2,4)] unfolding mac_text_def by blast
qed (rule ipv4_text_inject)

lemma format_ipv4_mac_exact_example:
  "\<exists>q. ns_format_ipv4 (u32_of_mem [10, 0, 0, 1]) (stack_buf 18) 18 = Some q \<and> c_str q = Some ''10.0.0.1''"
proof -
  have t: "join ''.'' (map (\<lambda>b. dec (unat b)) [10, 0, 0, 1 :: u8]) = ''10.0.0.1''" by code_simp
  have "unat (18 :: size_t) = length (stack_buf 18)" "18 \<le> length (stack_buf 18)" "length [10, 0, 0, 1 :: u8] = 4"
    "length [1, 2, 3, 4, 5, 6 :: u8] = 6" by (simp_all add: stack_buf_def)
  from format_ipv4_mac_exact [OF this, of 0 0] show ?thesis unfolding t by blast
qed

end
