(* ===== verification/NS_Format_Ipv6.thy ===== *)
theory NS_Format_Ipv6
  imports NS_Format
begin

section \<open>The text of an IPv6 address\<close>

text \<open>
  \<open>ns_format_ipv6\<close> against RFC 5952: the scan finds the leftmost of the longest runs of zero
  groups, the printing loop ends and never leaves its 46-byte scratch buffer, the text is
  \<open>ipv6_text\<close>, and it determines the address.
\<close>

subsection \<open>The zero run\<close>

definition zrun :: "u16 list \<Rightarrow> nat \<Rightarrow> nat" where
  "zrun gs i = length (takeWhile (\<lambda>g. g = 0) (drop i gs))"

text \<open>\<open>(s, l)\<close> is the leftmost longest run of zeros; without any zero, the length is 0.\<close>

definition best_run :: "u16 list \<Rightarrow> int \<Rightarrow> int \<Rightarrow> bool" where
  "best_run gs s l \<longleftrightarrow> 0 \<le> l \<and> (0 < l \<longrightarrow> 0 \<le> s) \<and> zrun gs (nat s) = nat l \<and>
     (\<forall>i. zrun gs i \<le> nat l) \<and> (\<forall>i < nat s. zrun gs i < nat l)"

text \<open>The run that is still open at the end of the groups scanned so far.\<close>

definition open_run :: "u16 list \<Rightarrow> int \<Rightarrow> int \<Rightarrow> bool" where
  "open_run xs s l \<longleftrightarrow> 0 \<le> l \<and> l \<le> int (length xs) \<and>
     s = (if l = 0 then -1 else int (length xs) - l) \<and>
     (\<forall>i \<le> length xs. (\<forall>g \<in> set (drop i xs). g = 0) \<longleftrightarrow> int (length xs) - l \<le> int i)"

lemma zrun_open: "i \<le> length xs \<Longrightarrow> \<forall>x \<in> set (drop i xs). x = 0 \<Longrightarrow> zrun xs i = length xs - i"
  by (simp add: zrun_def takeWhile_eq_all_conv [THEN iffD2])

lemma zrun_snoc:
  "zrun (xs @ [g]) i =
     (if i \<le> length xs \<and> g = 0 \<and> (\<forall>x \<in> set (drop i xs). x = 0) then Suc (length xs) - i else zrun xs i)"
  using zrun_open [of i xs] by (cases "i \<le> length xs") (auto simp: zrun_def takeWhile_append)

lemma open_run_zero:
  assumes "open_run xs s l"
  shows "open_run (xs @ [0]) (if s < 0 then int (length xs) else s) (l + 1)"
  using assms unfolding open_run_def by (auto simp: le_Suc_eq)

lemma open_run_nonzero: "g \<noteq> 0 \<Longrightarrow> open_run (xs @ [g]) (-1) 0"
  unfolding open_run_def by (auto simp: le_Suc_eq)

lemma best_run_nonzero: "g \<noteq> 0 \<Longrightarrow> best_run xs s l \<Longrightarrow> best_run (xs @ [g]) s l"
  by (simp add: best_run_def zrun_snoc)

lemma zrun_snoc_zero:
  assumes "open_run xs s l"
  shows "zrun (xs @ [0]) i =
    (if length xs - nat l \<le> i \<and> i \<le> length xs then Suc (length xs) - i else zrun xs i)"
  using assms by (auto simp: open_run_def zrun_snoc)

lemma best_run_new:
  assumes "open_run xs cs cl" "best_run xs s l" "l < cl + 1"
  shows "best_run (xs @ [0]) (if cs < 0 then int (length xs) else cs) (cl + 1)"
proof -
  let ?c = "length xs - nat cl"
  have cl: "0 \<le> cl" "nat cl \<le> length xs" and start: "nat (if cs < 0 then int (length xs) else cs) = ?c"
    using assms(1) by (auto simp: open_run_def)
  have z: "zrun (xs @ [0]) i = (if ?c \<le> i \<and> i \<le> length xs then Suc (length xs) - i else zrun xs i)" for i
    using zrun_snoc_zero [OF assms(1)] .
  have old: "zrun xs i < nat (cl + 1)" for i
  proof -
    have "zrun xs i \<le> nat l" using assms(2) by (auto simp: best_run_def)
    with assms(3) cl show ?thesis by linarith
  qed
  have "zrun (xs @ [0]) i \<le> nat (cl + 1)" for i
    using old [of i] cl by (auto simp: z)
  moreover have "zrun (xs @ [0]) i < nat (cl + 1)" if "i < ?c" for i
    using old [of i] that by (simp add: z)
  moreover have "zrun (xs @ [0]) ?c = nat (cl + 1)" using cl by (simp add: z)
  ultimately show ?thesis using cl start by (auto simp: best_run_def)
qed

lemma best_run_keep:
  assumes "open_run xs cs cl" "best_run xs s l" "\<not> l < cl + 1"
  shows "best_run (xs @ [0]) s l"
proof -
  let ?c = "length xs - nat cl"
  have cl: "0 \<le> cl" "nat cl \<le> length xs" using assms(1) by (auto simp: open_run_def)
  have l: "nat cl < nat l" "0 < l" using assms(3) cl by auto
  have b: "zrun xs (nat s) = nat l" "\<And>i. zrun xs i \<le> nat l" "\<And>i. i < nat s \<Longrightarrow> zrun xs i < nat l"
    "0 \<le> s" using assms(2) l by (auto simp: best_run_def)
  have z: "zrun (xs @ [0]) i = (if ?c \<le> i \<and> i \<le> length xs then Suc (length xs) - i else zrun xs i)" for i
    using zrun_snoc_zero [OF assms(1)] .
  have start: "nat s < ?c"
  proof (rule ccontr)
    assume "\<not> nat s < ?c"
    moreover from this have "zrun xs (nat s) \<le> length xs - nat s"
      unfolding zrun_def by (metis length_drop length_takeWhile_le)
    ultimately have "zrun xs (nat s) \<le> nat cl" by linarith
    with b(1) l show False by simp
  qed
  have new: "Suc (length xs) - i \<le> nat l" if "?c \<le> i" for i using that l cl by linarith
  have "zrun (xs @ [0]) (nat s) = nat l" using start b(1) by (simp add: z)
  moreover have "zrun (xs @ [0]) i \<le> nat l" for i using new [of i] b(2) [of i] by (simp add: z)
  moreover have "zrun (xs @ [0]) i < nat l" if "i < nat s" for i
    using start that b(3) [of i] by (simp add: z)
  ultimately show ?thesis using l b(4) by (auto simp: best_run_def)
qed

lemma ipv6_scan_best:
  assumes "best_run xs bs bl" "open_run xs cs cl" "i = int (length xs)"
  shows "case ipv6_scan gs i bs bl cs cl of (s, l) \<Rightarrow> best_run (xs @ gs) s l"
  using assms
proof (induction gs arbitrary: xs i bs bl cs cl)
  case Nil
  then show ?case by simp
next
  case (Cons g gs)
  have next_i: "i + 1 = int (length (xs @ [g]))" using Cons.prems(3) by simp
  show ?case
  proof (cases "g = 0")
    case False
    with Cons.IH [OF best_run_nonzero [OF False Cons.prems(1)] open_run_nonzero [OF False] next_i]
    show ?thesis by simp
  next
    case True
    note op = open_run_zero [OF Cons.prems(2)]
    show ?thesis
    proof (cases "bl < cl + 1")
      case new: True
      from Cons.IH [OF best_run_new [OF Cons.prems(2,1) new] op] next_i True Cons.prems(3) new
      show ?thesis by (cases "cs < 0") (simp_all add: Let_def add.commute)
    next
      case keep: False
      from Cons.IH [OF best_run_keep [OF Cons.prems(2,1) keep] op] next_i True Cons.prems(3) keep
      show ?thesis by (cases "cs < 0") (simp_all add: Let_def add.commute)
    qed
  qed
qed

subsection \<open>The printing loop\<close>

definition ipv6_piece :: "u16 list \<Rightarrow> int \<Rightarrow> nat \<Rightarrow> string" where
  "ipv6_piece gs e k = (if k \<noteq> 0 \<and> int k \<noteq> e then '':'' else []) @ hex (unat (gs ! k))"

definition ipv6_seg :: "u16 list \<Rightarrow> int \<Rightarrow> nat \<Rightarrow> nat \<Rightarrow> string" where
  "ipv6_seg gs e i j = concat (map (ipv6_piece gs e) [i..<j])"

lemma hex_group: "length (hex (unat (g :: u16))) \<le> 4"
  using length_show_base [of 16 "unat g" 3] unat_lt_65536 [of g] by simp

lemma ipv6_emit_group:
  assumes "holds tmp acc" "unat pos = length acc" "length tmp = 46" "length acc + 5 < 46"
    and "i < 8" "length gs = 8" "int i \<noteq> bs"
  obtains tmp' pos' where "ipv6_emit gs bs bl (int i) tmp pos = ipv6_emit gs bs bl (int (Suc i)) tmp' pos'"
    "holds tmp' (acc @ ipv6_piece gs (bs + bl) i)" "unat pos' = length (acc @ ipv6_piece gs (bs + bl) i)"
    "length tmp' = 46"
proof -
  let ?sep = "i \<noteq> 0 \<and> int i \<noteq> bs + bl"
  let ?pre = "acc @ (if ?sep then '':'' else [])"
  obtain t p where t: "(if ?sep then do { t \<leftarrow> mem_set tmp pos CHR '':''; Some (t, pos + 1) }
      else Some (tmp, pos)) = Some (t, p)" "length t = 46" "holds t ?pre" "unat p = length ?pre"
  proof (cases ?sep)
    case True
    obtain q where "mem_set tmp pos CHR '':'' = Some q" "length q = 46" "holds q (acc @ '':'')"
      "unat (pos + 1) = length (acc @ '':'')"
      using assms(1-4) mem_set_append [of tmp acc pos "CHR '':''"] by auto
    with True that [of q "pos + 1"] show thesis by simp
  qed (use assms that [of tmp pos] in auto)
  let ?s = "hex (unat (gs ! i))"
  have "length ?pre + length ?s < length t" using assms(4) t(2) hex_group [of "gs ! i"] by simp
  then obtain q where q: "snprintf t p (46 - p) ?s = Some (q, int (length ?s))" "length q = 46"
    "holds q (?pre @ ?s)"
    using snprintf_append [OF t(3,4), of 46 ?s] t(2) by auto
  have "unat (word_of_int (int i) :: size_t) = i" using assms(5) by (simp add: unat_of_nat)
  then have g: "mem_get gs (word_of_int (int i)) = Some (gs ! i)" using assms by (simp add: mem_get_def)
  have "unat (p + word_of_int (int (length ?s))) = length ?pre + length ?s"
    using t(2,4) \<open>length ?pre + length ?s < length t\<close> by (simp add: unat_word_ariths unat_of_nat)
  moreover have "ipv6_emit gs bs bl (int i) tmp pos =
      ipv6_emit gs bs bl (int (Suc i)) q (p + word_of_int (int (length ?s)))"
    using assms(5,7) t(1) q(1) g by (subst ipv6_emit.simps) (simp add: add.commute)
  ultimately show thesis using that [of q "p + word_of_int (int (length ?s))"] q
    by (simp add: ipv6_piece_def)
qed

lemma length_ipv6_piece: "length (ipv6_piece gs e k) \<le> 5"
  using hex_group [of "gs ! k"] by (simp add: ipv6_piece_def)

lemma ipv6_emit_seg:
  assumes "holds tmp acc" "unat pos = length acc" "length tmp = 46" "length acc + 5 * (j - i) < 46"
    and "i \<le> j" "j \<le> 8" "length gs = 8" "\<And>k. i \<le> k \<Longrightarrow> k < j \<Longrightarrow> int k \<noteq> bs"
  shows "\<exists>tmp' pos'. ipv6_emit gs bs bl (int i) tmp pos = ipv6_emit gs bs bl (int j) tmp' pos' \<and>
    holds tmp' (acc @ ipv6_seg gs (bs + bl) i j) \<and> unat pos' = length (acc @ ipv6_seg gs (bs + bl) i j) \<and>
    length tmp' = 46"
  using assms(5,1-4,6-)
proof (induction i arbitrary: tmp acc pos rule: inc_induct)
  case base
  then show ?case by (intro exI [of _ tmp] exI [of _ pos]) (simp add: ipv6_seg_def)
next
  case (step i)
  have "i < 8" "int i \<noteq> bs" "length acc + 5 < 46" using step.hyps step.prems by auto
  then obtain t p where t: "ipv6_emit gs bs bl (int i) tmp pos = ipv6_emit gs bs bl (int (Suc i)) t p"
    "holds t (acc @ ipv6_piece gs (bs + bl) i)" "unat p = length (acc @ ipv6_piece gs (bs + bl) i)"
    "length t = 46"
    using ipv6_emit_group [of tmp acc pos i gs bs bl] step.prems by metis
  have "length (acc @ ipv6_piece gs (bs + bl) i) + 5 * (j - Suc i) < 46"
    using step.prems(4) step.hyps length_ipv6_piece [of gs "bs + bl" i] by simp
  from step.IH [OF t(2-4) this] step.prems t(1)
  have "\<exists>tmp' pos'. ipv6_emit gs bs bl (int i) tmp pos = ipv6_emit gs bs bl (int j) tmp' pos' \<and>
    holds tmp' ((acc @ ipv6_piece gs (bs + bl) i) @ ipv6_seg gs (bs + bl) (Suc i) j) \<and>
    unat pos' = length ((acc @ ipv6_piece gs (bs + bl) i) @ ipv6_seg gs (bs + bl) (Suc i) j) \<and>
    length tmp' = 46" by simp
  moreover have "ipv6_piece gs (bs + bl) i @ ipv6_seg gs (bs + bl) (Suc i) j = ipv6_seg gs (bs + bl) i j"
    using step.hyps by (simp add: ipv6_seg_def upt_conv_Cons)
  ultimately show ?case by (metis append.assoc)
qed

lemma ipv6_seg_join:
  assumes "i = 0 \<or> int i = e" "\<And>k. i < k \<Longrightarrow> k < j \<Longrightarrow> int k \<noteq> e" "i \<le> j" "j \<le> length gs"
  shows "ipv6_seg gs e i j = join '':'' (map (\<lambda>g. hex (unat g)) (take (j - i) (drop i gs)))"
  using assms(3,2,4)
proof (induction j rule: dec_induct)
  case base
  then show ?case by (simp add: ipv6_seg_def)
next
  case (step j)
  have take: "take (Suc j - i) (drop i gs) = take (j - i) (drop i gs) @ [gs ! j]"
    using step by (simp add: Suc_diff_le take_Suc_conv_app_nth)
  have "ipv6_seg gs e i (Suc j) = ipv6_seg gs e i j @ ipv6_piece gs e j"
    using step by (simp add: ipv6_seg_def)
  moreover have "ipv6_seg gs e i j = []" if "i = j" using that by (simp add: ipv6_seg_def)
  ultimately show ?case
    using step assms(1) unfolding take by (cases "i = j") (auto simp: join_snoc ipv6_piece_def)
qed

text \<open>The specification: no run of two or more zeros, all groups separated by colons; otherwise
  the run is replaced by two colons.\<close>

definition run_len :: "u16 list \<Rightarrow> nat" where
  "run_len gs = fold max (map (zrun gs) [0..<length gs]) 0"

definition run_start :: "u16 list \<Rightarrow> nat" where
  "run_start gs = length (takeWhile (\<lambda>i. zrun gs i < run_len gs) [0..<length gs])"

definition hex_groups :: "u16 list \<Rightarrow> string" where
  "hex_groups gs = join '':'' (map (\<lambda>g. hex (unat g)) gs)"

definition ipv6_text :: "u16 list \<Rightarrow> string" where
  "ipv6_text gs =
     (if run_len gs < 2 then hex_groups gs
      else hex_groups (take (run_start gs) gs) @ ''::'' @
           hex_groups (drop (run_start gs + run_len gs) gs))"

lemma run_len_Max: "run_len gs = Max (insert 0 (zrun gs ` {..<length gs}))"
  using Max.set_eq_fold [of 0 "map (zrun gs) [0..<length gs]"]
  by (simp add: run_len_def atLeast0LessThan)

lemma best_run_unique:
  assumes "best_run gs s l"
  shows "run_len gs = nat l" and "0 < l \<Longrightarrow> run_start gs = nat s"
proof -
  have z: "zrun gs (nat s) = nat l" "\<And>i. zrun gs i \<le> nat l" "\<And>i. i < nat s \<Longrightarrow> zrun gs i < nat l"
    using assms by (auto simp: best_run_def)
  have inside: "nat s < length gs" if "0 < l"
    using z(1) that by (cases "nat s < length gs") (simp_all add: zrun_def)
  show len: "run_len gs = nat l"
    unfolding run_len_Max
  proof (rule Max_eqI)
    show "nat l \<in> insert 0 (zrun gs ` {..<length gs})"
      using inside z(1) by (cases "0 < l") (auto intro!: image_eqI [of _ _ "nat s"])
  qed (use z(2) in auto)
  show "run_start gs = nat s" if "0 < l"
  proof -
    have "[0..<length gs] = [0..<nat s] @ nat s # [Suc (nat s)..<length gs]"
      using inside [OF that] by (metis upt_conv_Cons upt_add_eq_append less_imp_le_nat le0 le_add_diff_inverse)
    moreover have "takeWhile (\<lambda>i. zrun gs i < nat l) ([0..<nat s] @ nat s # [Suc (nat s)..<length gs]) = [0..<nat s]"
      using z by (subst takeWhile_append2) auto
    ultimately show ?thesis by (simp add: run_start_def len)
  qed
qed

lemma zrun_le: "i \<le> length gs \<Longrightarrow> i + zrun gs i \<le> length gs"
  unfolding zrun_def by (metis add_le_mono1 le_add_diff_inverse length_drop length_takeWhile_le
      add.commute)

lemma ipv6_emit_end: "ipv6_emit gs bs bl 8 tmp pos = Some (tmp, pos)"
  by (subst ipv6_emit.simps) simp

lemma ipv6_emit_plain:
  assumes "length gs = 8" "length tmp = 46"
  obtains tmp' pos' where "ipv6_emit gs (-1) 0 0 tmp 0 = Some (tmp', pos')"
    "holds tmp' (hex_groups gs)" "unat pos' = length (hex_groups gs)" "length tmp' = 46"
proof -
  obtain t p where "ipv6_emit gs (-1) 0 0 tmp 0 = ipv6_emit gs (-1) 0 8 t p"
    "holds t (ipv6_seg gs (-1) 0 8)" "unat p = length (ipv6_seg gs (-1) 0 8)" "length t = 46"
    using ipv6_emit_seg [of tmp "[]" 0 8 0 gs "-1" 0] assms by auto
  moreover have "ipv6_seg gs (-1) 0 8 = hex_groups gs"
    using ipv6_seg_join [of 0 "-1" 8 gs] assms(1) by (simp add: hex_groups_def)
  ultimately show thesis using that ipv6_emit_end by simp
qed

lemma ipv6_emit_run:
  assumes "length gs = 8" "length tmp = 46" "s + l \<le> 8" "2 \<le> l"
  obtains tmp' pos' where "ipv6_emit gs (int s) (int l) 0 tmp 0 = Some (tmp', pos')"
    "holds tmp' (hex_groups (take s gs) @ ''::'' @ hex_groups (drop (s + l) gs))"
    "unat pos' = length (hex_groups (take s gs) @ ''::'' @ hex_groups (drop (s + l) gs))" "length tmp' = 46"
proof -
  let ?A = "hex_groups (take s gs)" and ?B = "hex_groups (drop (s + l) gs)"
  let ?e = "int s + int l"
  have segs: "ipv6_seg gs ?e 0 s = ?A" "ipv6_seg gs ?e (s + l) 8 = ?B"
    using ipv6_seg_join [of 0 ?e s gs] ipv6_seg_join [of "s + l" ?e 8 gs] assms
    by (auto simp: hex_groups_def)
  obtain t p where t: "ipv6_emit gs (int s) (int l) 0 tmp 0 = ipv6_emit gs (int s) (int l) (int s) t p"
    "holds t ?A" "unat p = length ?A" "length t = 46"
    using ipv6_emit_seg [of tmp "[]" 0 s 0 gs "int s" "int l"] assms segs by auto
  have len: "length ?A \<le> 5 * s"
  proof (cases "s = 0")
    case False
    then show ?thesis unfolding hex_groups_def
      using length_join [of "map (\<lambda>g. hex (unat g)) (take s gs)" 4 "CHR '':''"] hex_group assms
      by (force dest: in_set_takeD)
  qed (simp add: hex_groups_def)
  obtain t1 where t1: "mem_set t p CHR '':'' = Some t1" "length t1 = 46" "holds t1 (?A @ '':'')"
    "unat (p + 1) = length (?A @ '':'')"
    using mem_set_append [OF t(2,3), of "CHR '':''"] t(4) len assms by auto
  obtain t2 where t2: "mem_set t1 (p + 1) CHR '':'' = Some t2" "length t2 = 46" "holds t2 (?A @ ''::'')"
    "unat (p + 2) = length (?A @ ''::'')"
    using mem_set_append [OF t1(3,4), of "CHR '':''"] t1(2) len assms by (auto simp: add.assoc)
  have "ipv6_emit gs (int s) (int l) (int s) t p = ipv6_emit gs (int s) (int l) (int (s + l)) t2 (p + 2)"
    using assms t1(1) t2(1) by (subst ipv6_emit.simps) simp
  moreover have "length (?A @ ''::'') + 5 * (8 - (s + l)) < 46" using len assms(3,4) by simp
  then obtain t3 p3 where
    "ipv6_emit gs (int s) (int l) (int (s + l)) t2 (p + 2) = ipv6_emit gs (int s) (int l) 8 t3 p3"
    "holds t3 ((?A @ ''::'') @ ?B)" "unat p3 = length ((?A @ ''::'') @ ?B)" "length t3 = 46"
    using ipv6_emit_seg [of t2 "?A @ ''::''" "p + 2" 8 "s + l" gs "int s" "int l"] assms t2 segs
    by auto
  ultimately show thesis using that t(1) ipv6_emit_end by simp
qed

subsection \<open>The whole function\<close>

definition groups_of :: "bytes \<Rightarrow> u16 list" where
  "groups_of addr = map (\<lambda>i. be16 addr (2 * i)) [0..<8]"

lemma ipv6_groups_from:
  "length addr = 16 \<Longrightarrow> unat i + n \<le> 8 \<Longrightarrow>
     ipv6_groups n addr i = Some (map (\<lambda>k. be16 addr (2 * k)) [unat i..<unat i + n])"
proof (induction n arbitrary: i)
  case (Suc n)
  have i: "unat (i * 2) = 2 * unat i" "unat (i * 2 + 1) = 2 * unat i + 1" "unat (i + 1) = Suc (unat i)"
    using Suc.prems by (simp_all add: unat_word_ariths)
  have "(push_bit 8 (ucast (addr ! (2 * unat i))) OR ucast (addr ! (2 * unat i + 1)) :: u16) = be16 addr (2 * unat i)"
    using Suc.prems by (simp add: word_unat_eq_iff u16_of_bytes unat_be16 window_2)
  then show ?case
    using Suc.IH [of "i + 1"] Suc.prems i by (simp add: mem_get_def upt_conv_Cons del: upt_Suc)
qed simp

lemma ipv6_groups_of: "length addr = 16 \<Longrightarrow> ipv6_groups 8 addr 0 = Some (groups_of addr)"
  using ipv6_groups_from [of addr 0 8] by (simp add: groups_of_def)

lemma length_groups_of [simp]: "length (groups_of addr) = 8"
  by (simp add: groups_of_def)

lemma hex_groups_nul_free [simp]: "nul_free (hex_groups gs)"
  unfolding hex_groups_def by (rule join_nul_free) auto

lemma ipv6_text_nul_free [simp]: "nul_free (ipv6_text gs)"
  by (simp add: ipv6_text_def)

lemma length_hex_groups: "length (hex_groups gs) \<le> 5 * length gs - 1"
proof (cases "gs = []")
  case False
  then show ?thesis unfolding hex_groups_def
    using length_join [of "map (\<lambda>g. hex (unat g)) gs" 4 "CHR '':''"] hex_group by fastforce
qed (simp add: hex_groups_def)

lemma hex_groups_not_Nil: "gs \<noteq> [] \<Longrightarrow> hex_groups gs \<noteq> []"
  by (cases gs) (simp_all add: hex_groups_def join_Cons)

lemma ipv6_scan_run:
  assumes "length gs = 8" "ipv6_scan gs 0 (-1) 0 (-1) 0 = (s, l)"
  shows "run_len gs = nat l" "0 \<le> l"
    and "2 \<le> l \<Longrightarrow> s = int (run_start gs) \<and> run_start gs + run_len gs \<le> 8 \<and> zrun gs (run_start gs) = run_len gs"
proof -
  have "best_run [] (-1) 0" "open_run [] (-1) 0" by (auto simp: best_run_def open_run_def zrun_def)
  then have best: "best_run gs s l" using ipv6_scan_best [of "[]" "-1" 0 "-1" 0 0 gs] assms(2) by simp
  then show "run_len gs = nat l" "0 \<le> l" using best_run_unique by (auto simp: best_run_def)
  show "s = int (run_start gs) \<and> run_start gs + run_len gs \<le> 8 \<and> zrun gs (run_start gs) = run_len gs" if "2 \<le> l"
  proof -
    have s: "run_start gs = nat s" "0 \<le> s" using best best_run_unique(2) that by (auto simp: best_run_def)
    have "nat s \<le> length gs" using best that by (cases "nat s \<le> length gs") (auto simp: best_run_def zrun_def)
    then show ?thesis
      using zrun_le [of "nat s" gs] best s best_run_unique(1) [OF best] assms(1) by (simp add: best_run_def)
  qed
qed

lemma run_fits:
  "length gs = 8 \<Longrightarrow> 2 \<le> run_len gs \<Longrightarrow> run_start gs + run_len gs \<le> 8"
  "length gs = 8 \<Longrightarrow> 2 \<le> run_len gs \<Longrightarrow> zrun gs (run_start gs) = run_len gs"
  using ipv6_scan_run [of gs "fst (ipv6_scan gs 0 (-1) 0 (-1) 0)" "snd (ipv6_scan gs 0 (-1) 0 (-1) 0)"]
  by auto

lemma ipv6_text_length:
  assumes "length gs = 8"
  shows "length (ipv6_text gs) \<le> 39" "ipv6_text gs \<noteq> []"
proof -
  let ?s = "run_start gs" and ?l = "run_len gs"
  show "length (ipv6_text gs) \<le> 39"
  proof (cases "?l < 2")
    case True
    then show ?thesis using length_hex_groups [of gs] assms by (simp add: ipv6_text_def)
  next
    case False
    then show ?thesis
      using length_hex_groups [of "take ?s gs"] length_hex_groups [of "drop (?s + ?l) gs"] assms run_fits(1) [of gs]
      by (simp add: ipv6_text_def)
  qed
  have "gs \<noteq> []" using assms by auto
  then show "ipv6_text gs \<noteq> []" using hex_groups_not_Nil [of gs] by (auto simp: ipv6_text_def)
qed

lemma ns_format_ipv6_text:
  assumes "length addr = 16" "unat buf_len = length buf" "0 < length buf"
  obtains q where "ns_format_ipv6 addr buf buf_len = Some q" "length q = length buf"
    "c_str q = Some (take (length buf - 1) (ipv6_text (groups_of addr)))"
proof -
  let ?gs = "groups_of addr" and ?T = "ipv6_text (groups_of addr)"
  obtain s l where sl: "ipv6_scan ?gs 0 (-1) 0 (-1) 0 = (s, l)" by force
  note run = ipv6_scan_run [OF length_groups_of sl]
  define sl' where "sl' = (if l < 2 then (-1, 0) else (s, l))"
  obtain t p where t: "ipv6_emit ?gs (fst sl') (snd sl') 0 (stack_buf 46) 0 = Some (t, p)"
    "holds t ?T" "unat p = length ?T" "length t = 46"
  proof (cases "l < 2")
    case True
    then have "?T = hex_groups ?gs" using run(1,2) by (simp add: ipv6_text_def)
    with True that show thesis
      using ipv6_emit_plain [of ?gs "stack_buf 46"] by (auto simp: stack_buf_def sl'_def)
  next
    case False
    then have l: "2 \<le> l" "2 \<le> run_len ?gs" "l = int (run_len ?gs)" using run(1) by auto
    with run(3) have "s = int (run_start ?gs)" "run_start ?gs + run_len ?gs \<le> 8" by auto
    moreover from l have "?T = hex_groups (take (run_start ?gs) ?gs) @ ''::'' @
      hex_groups (drop (run_start ?gs + run_len ?gs) ?gs)" by (simp add: ipv6_text_def)
    ultimately show thesis
      using ipv6_emit_run [of ?gs "stack_buf 46" "run_start ?gs" "run_len ?gs"] l False that
      by (auto simp: stack_buf_def sl'_def)
  qed
  have len: "length ?T \<le> 39" "?T \<noteq> []" using ipv6_text_length [of ?gs] by simp_all
  then have p: "p \<noteq> 0" using t(3) by auto
  let ?t = "t[length ?T := NUL]"
  have "holds ?t ?T" "?t ! length ?T = NUL" using t len by (simp_all add: holds_def)
  then have str: "c_str ?t = Some ?T" using t(4) len by (intro holds_c_str) simp_all
  from snprintf_whole [OF ipv6_text_nul_free assms(2,3), of ?gs]
  obtain q where q: "snprintf buf 0 buf_len ?T = Some (q, int (length ?T))" "length q = length buf"
    "c_str q = Some (take (length buf - 1) ?T)" .
  moreover have "ns_format_ipv6 addr buf buf_len = Some q"
    using sl t p str q(1) len unfolding ns_format_ipv6_def
    by (simp add: ipv6_groups_of [OF assms(1)] mem_set_def sl'_def split: if_splits)
  ultimately show thesis using that by blast
qed

subsection \<open>Reading the text back\<close>

text \<open>The pieces between the colons. A run at an end of the address leaves an empty piece there.\<close>

definition pieces :: "u16 list \<Rightarrow> string list" where
  "pieces gs = map (\<lambda>g. hex (unat g)) gs"

definition ipv6_pieces :: "u16 list \<Rightarrow> string list" where
  "ipv6_pieces gs =
     (if run_len gs < 2 then pieces gs
      else (let A = pieces (take (run_start gs) gs);
                B = pieces (drop (run_start gs + run_len gs) gs)
            in (if A = [] then [''''] else A) @ '''' # (if B = [] then [''''] else B)))"

definition unpieces :: "string list \<Rightarrow> u16 list" where
  "unpieces ps =
     (let A = takeWhile (\<lambda>p. p \<noteq> []) ps; B = filter (\<lambda>p. p \<noteq> []) (dropWhile (\<lambda>p. p \<noteq> []) ps);
          rd = map (\<lambda>p. of_nat (read_base 16 p))
      in rd A @ replicate (8 - length A - length B) 0 @ rd B)"

lemma join_append_sep:
  "as \<noteq> [] \<Longrightarrow> bs \<noteq> [] \<Longrightarrow> join sep (as @ bs) = join sep as @ sep @ join sep bs"
  by (induction as) (auto simp: join_Cons)

lemma ipv6_text_join: "ipv6_text gs = join '':'' (ipv6_pieces gs)"
  by (simp add: ipv6_text_def ipv6_pieces_def hex_groups_def pieces_def Let_def join_append_sep join_Cons)

lemma read_pieces [simp]: "map (\<lambda>p. of_nat (read_base 16 p)) (pieces gs) = gs"
  by (simp add: pieces_def comp_def read_show_base)

lemma pieces_not_empty: "p \<in> set (pieces gs) \<Longrightarrow> p \<noteq> []"
  by (auto simp: pieces_def)

lemma length_pieces [simp]: "length (pieces gs) = length gs"
  by (simp add: pieces_def)

lemma zrun_zero: "take (zrun gs i) (drop i gs) = replicate (zrun gs i) 0"
  unfolding zrun_def takeWhile_eq_take [symmetric]
  by (metis (mono_tags, lifting) replicate_length_same set_takeWhileD)

lemma run_split:
  assumes "length gs = 8" "2 \<le> run_len gs"
  shows "take (run_start gs) gs @ replicate (run_len gs) 0 @ drop (run_start gs + run_len gs) gs = gs"
  using zrun_zero [of gs "run_start gs"] run_fits(2) [OF assms]
  by (metis append_take_drop_id drop_drop add.commute)

lemma unpieces_pieces:
  assumes "length gs = 8"
  shows "unpieces (ipv6_pieces gs) = gs"
proof (cases "run_len gs < 2")
  case True
  have "takeWhile (\<lambda>p. p \<noteq> []) (pieces gs) = pieces gs" using pieces_not_empty by (subst takeWhile_eq_all_conv) blast
  moreover have "dropWhile (\<lambda>p. p \<noteq> []) (pieces gs) = []" using pieces_not_empty by (subst dropWhile_eq_Nil_conv) blast
  moreover have "ipv6_pieces gs = pieces gs" using True by (simp add: ipv6_pieces_def)
  ultimately show ?thesis unfolding unpieces_def Let_def by (simp only: assms) (simp add: assms)
next
  case False
  let ?A = "pieces (take (run_start gs) gs)" and ?B = "pieces (drop (run_start gs + run_len gs) gs)"
  have ne: "\<forall>p \<in> set ?A. p \<noteq> []" "\<forall>p \<in> set ?B. p \<noteq> []" using pieces_not_empty by blast+
  have tw: "takeWhile (\<lambda>p. p \<noteq> []) (ipv6_pieces gs) = ?A"
    using False ne(1) by (auto simp: ipv6_pieces_def Let_def takeWhile_append2)
  moreover have "filter (\<lambda>p. p \<noteq> []) (dropWhile (\<lambda>p. p \<noteq> []) (ipv6_pieces gs)) = ?B"
    using False ne by (auto simp: ipv6_pieces_def Let_def dropWhile_append2)
  moreover have "8 - length ?A - length ?B = run_len gs"
    using False run_fits(1) [of gs] assms by simp
  ultimately show ?thesis
    using run_split [of gs] False assms unfolding unpieces_def Let_def by (simp add: read_pieces)
qed

lemma piece_no_colon: "p \<in> set (ipv6_pieces gs) \<Longrightarrow> CHR '':'' \<notin> set p"
  using show_base_code [of 16 "CHR '':''"]
  by (auto simp: ipv6_pieces_def pieces_def Let_def split: if_splits)

lemma ipv6_pieces_not_Nil: "length gs = 8 \<Longrightarrow> ipv6_pieces gs \<noteq> []"
  by (auto simp: ipv6_pieces_def pieces_def Let_def)

lemma ipv6_text_inject:
  assumes "length gs = 8" "length hs = 8"
  shows "ipv6_text gs = ipv6_text hs \<longleftrightarrow> gs = hs"
proof
  assume "ipv6_text gs = ipv6_text hs"
  then have "ipv6_pieces gs = ipv6_pieces hs"
    using assms unfolding ipv6_text_join
    by (intro join_inject) (auto simp: ipv6_pieces_not_Nil dest: piece_no_colon)
  then show "gs = hs" using unpieces_pieces assms by metis
qed simp

lemma groups_of_inject:
  assumes "length a = 16" "length b = 16"
  shows "groups_of a = groups_of b \<longleftrightarrow> a = b"
proof
  assume eq: "groups_of a = groups_of b"
  have "window a (2 * i) 2 = window b (2 * i) 2" if "i < 8" for i
  proof -
    have "groups_of a ! i = groups_of b ! i" using eq by simp
    then have "be_nat (window a (2 * i) 2) = be_nat (window b (2 * i) 2)"
      using that unat_be16 [of a "2 * i"] unat_be16 [of b "2 * i"] by (simp add: groups_of_def)
    then show ?thesis using assms that by (intro be_nat_inject) (simp_all add: window_def)
  qed
  then have "a ! (2 * i) = b ! (2 * i) \<and> a ! (2 * i + 1) = b ! (2 * i + 1)" if "i < 8" for i
    using that window_2 [of "2 * i" a] window_2 [of "2 * i" b] assms by simp
  then have "a ! k = b ! k" if "k < 16" for k
    using that by (cases "even k") (auto elim!: evenE oddE)
  then show "a = b" using assms by (auto intro: nth_equalityI)
qed simp

subsection \<open>Properties\<close>

text \<open>C16: IPv6 addresses as text. The printing loop ends, never leaves its 46-byte scratch buffer, and the
  caller's buffer then holds the text of RFC 5952 (groups in hexadecimal without leading zeros, the
  leftmost longest run of at least two zero groups replaced by two colons), which has at most 39
  characters, cut only if the buffer is shorter than that.\<close>

theorem format_ipv6_rfc5952:
  assumes "length addr = 16" "unat buf_len = length buf" "0 < length buf"
  shows "\<exists>q. ns_format_ipv6 addr buf buf_len = Some q \<and> length q = length buf \<and>
    c_str q = Some (take (length buf - 1) (ipv6_text (groups_of addr))) \<and> length (ipv6_text (groups_of addr)) \<le> 39"
  using ns_format_ipv6_text [OF assms] ipv6_text_length(1) [OF length_groups_of] by blast

theorem format_ipv6_rfc5952_witness:
  "\<exists>q. ns_format_ipv6 [0x20, 1, 0x0d, 0xb8, 0, 0, 0, 0, 0, 0, 0, 0, 0, 0, 0, 1] (stack_buf 46) 46 = Some q \<and>
     c_str q = Some ''2001:db8::1''"
proof -
  let ?gs = "[0x2001, 0xdb8, 0, 0, 0, 0, 0, 1] :: u16 list"
  have gs: "groups_of [0x20, 1, 0x0d, 0xb8, 0, 0, 0, 0, 0, 0, 0, 0, 0, 0, 0, 1] = ?gs"
    by (simp add: groups_of_def be16_def be_nat_def window_def upt_rec)
  have run: "run_len ?gs = 5" by (simp add: run_len_def zrun_def upt_rec)
  then have "run_start ?gs = 2" by (simp add: run_start_def zrun_def upt_rec)
  moreover have "hex_groups [0x2001, 0xdb8] = ''2001:db8''" "hex_groups [1] = ''1''"
    by (simp_all add: hex_groups_def show_base.simps digit_char_def) code_simp+
  ultimately have t: "take 45 (ipv6_text ?gs) = ''2001:db8::1''" by (simp add: ipv6_text_def run)
  have "length [0x20, 1, 0x0d, 0xb8, 0, 0, 0, 0, 0, 0, 0, 0, 0, 0, 0, 1 :: u8] = 16"
    "unat (46 :: size_t) = length (stack_buf 46)" "0 < length (stack_buf 46)" by (simp_all add: stack_buf_def)
  from format_ipv6_rfc5952 [OF this] show ?thesis by (auto simp: t gs stack_buf_def)
qed

text \<open>C17: the text of an IPv6 address determines the address, so address texts can be compared in place of
  addresses, as the flow table does.\<close>

theorem format_ipv6_injective:
  assumes "length a = 16" "length b = 16" "unat n = length buf" "40 \<le> length buf"
  shows "(\<exists>p q s. ns_format_ipv6 a buf n = Some p \<and> ns_format_ipv6 b buf n = Some q \<and>
    c_str p = Some s \<and> c_str q = Some s) \<longleftrightarrow> a = b"
proof -
  let ?t = "\<lambda>x. ipv6_text (groups_of x)"
  have pos: "0 < length buf" using assms(4) by linarith
  have whole: "take (length buf - 1) (?t x) = ?t x" for x
    using ipv6_text_length(1) [of "groups_of x"] assms(4) by simp
  obtain p where "ns_format_ipv6 a buf n = Some p" "c_str p = Some (?t a)"
    using ns_format_ipv6_text [OF assms(1,3) pos] unfolding whole by blast
  moreover obtain q where "ns_format_ipv6 b buf n = Some q" "c_str q = Some (?t b)"
    using ns_format_ipv6_text [OF assms(2,3) pos] unfolding whole by blast
  moreover have "?t a = ?t b \<longleftrightarrow> a = b"
    using ipv6_text_inject [of "groups_of a" "groups_of b"] groups_of_inject [OF assms(1,2)] by simp
  ultimately show ?thesis by auto
qed

theorem format_ipv6_injective_witness:
  "\<not> (\<exists>p q s. ns_format_ipv6 (replicate 16 0) (stack_buf 46) 46 = Some p \<and>
     ns_format_ipv6 (replicate 16 1) (stack_buf 46) 46 = Some q \<and> c_str p = Some s \<and> c_str q = Some s)"
  using format_ipv6_injective [of "replicate 16 0" "replicate 16 1" 46 "stack_buf 46"]
  by (simp add: stack_buf_def)

end
