(* ===== verification/NS_Dns.thy ===== *)
theory NS_Dns
  imports NS_Dns_Name NS_Format_Ipv6
begin

section \<open>dns.c: questions, records and whole messages\<close>

text \<open>
  Everything of dns.c above the name decoder. The slots of a message (four questions, twelve
  answers) are lists of records with their \<open>char\<close> arrays; a \<open>NULL\<close> slot is
  \<open>None\<close>. Shown: parsing is defined on every captured buffer, an accepted message has
  exactly \<open>min(4, qdcount)\<close> questions and \<open>min(12, ancount)\<close> answers decoded, each
  with terminated strings, an MX text is never cut, and questions written by a sender that does
  not compress are read back.
\<close>

abbreviation NS_DNS_HEADER_LEN :: size_t where "NS_DNS_HEADER_LEN \<equiv> 12"
abbreviation NS_DNS_MAX_QUESTIONS :: u16 where "NS_DNS_MAX_QUESTIONS \<equiv> 4"
abbreviation NS_DNS_MAX_ANSWERS :: u16 where "NS_DNS_MAX_ANSWERS \<equiv> 12"

abbreviation NS_DNS_TYPE_A :: u16 where "NS_DNS_TYPE_A \<equiv> 1"
abbreviation NS_DNS_TYPE_NS :: u16 where "NS_DNS_TYPE_NS \<equiv> 2"
abbreviation NS_DNS_TYPE_CNAME :: u16 where "NS_DNS_TYPE_CNAME \<equiv> 5"
abbreviation NS_DNS_TYPE_PTR :: u16 where "NS_DNS_TYPE_PTR \<equiv> 12"
abbreviation NS_DNS_TYPE_MX :: u16 where "NS_DNS_TYPE_MX \<equiv> 15"
abbreviation NS_DNS_TYPE_TXT :: u16 where "NS_DNS_TYPE_TXT \<equiv> 16"
abbreviation NS_DNS_TYPE_AAAA :: u16 where "NS_DNS_TYPE_AAAA \<equiv> 28"

record ns_dns_question_t =
  q_name :: cbuf
  q_type :: u16
  q_class :: u16

record ns_dns_record_t =
  rr_name :: cbuf
  rr_type :: u16
  rr_class :: u16
  rr_ttl :: u32
  rr_rdlength :: u16
  rr_rdata_text :: cbuf

record ns_dns_info_t =
  dns_transaction_id :: u16
  dns_flags :: u16
  dns_is_response :: bool
  dns_question_count :: u16
  dns_answer_count :: u16
  dns_authority_count :: u16
  dns_additional_count :: u16
  dns_decoded_question_count :: size_t
  dns_questions :: "ns_dns_question_t list"
  dns_decoded_answer_count :: size_t
  dns_answers :: "ns_dns_record_t list"

definition ns_dns_question_zero :: ns_dns_question_t where
  "ns_dns_question_zero = \<lparr> q_name = replicate 256 NUL, q_type = 0, q_class = 0 \<rparr>"

definition ns_dns_record_zero :: ns_dns_record_t where
  "ns_dns_record_zero = \<lparr> rr_name = replicate 256 NUL, rr_type = 0, rr_class = 0, rr_ttl = 0,
     rr_rdlength = 0, rr_rdata_text = replicate 263 NUL \<rparr>"

definition ns_dns_zero :: ns_dns_info_t where
  "ns_dns_zero = \<lparr> dns_transaction_id = 0, dns_flags = 0, dns_is_response = False,
     dns_question_count = 0, dns_answer_count = 0, dns_authority_count = 0,
     dns_additional_count = 0, dns_decoded_question_count = 0,
     dns_questions = replicate 4 ns_dns_question_zero, dns_decoded_answer_count = 0,
     dns_answers = replicate 12 ns_dns_record_zero \<rparr>"

text \<open>Returns the status, \<open>*offset\<close> and the slot.\<close>

definition ns_dns_parse_question ::
  "bytes \<Rightarrow> size_t \<Rightarrow> size_t \<Rightarrow> ns_dns_question_t option \<Rightarrow>
     (ns_parse_status_t \<times> size_t \<times> ns_dns_question_t option) option" where
  "ns_dns_parse_question data len offset out = do {
     let (name_buf, name_buf_len) =
       (case out of Some q \<Rightarrow> (q_name q, 256 :: size_t) | None \<Rightarrow> (stack_buf 256, 256));
     (status, name_buf, end_offset) \<leftarrow> ns_dns_decode_name data len offset name_buf name_buf_len;
     let out = map_option (\<lambda>q. q\<lparr> q_name := name_buf \<rparr>) out;
     if status \<noteq> NS_PARSE_OK then Some (status, offset, out)
     else do {
       name_end \<leftarrow> end_offset;
       if \<not> ns_bounds_check len name_end 4 then Some (NS_PARSE_TRUNCATED, offset, out)
       else do {
         type \<leftarrow> out_param (ns_read_u16_be data len name_end);
         qclass \<leftarrow> out_param (ns_read_u16_be data len (name_end + 2));
         let out = map_option (\<lambda>q. q\<lparr> q_type := type, q_class := qclass \<rparr>) out;
         Some (NS_PARSE_OK, name_end + 4, out) } } }"

definition ns_dns_format_a ::
  "bytes \<Rightarrow> size_t \<Rightarrow> size_t \<Rightarrow> u16 \<Rightarrow> cbuf \<Rightarrow> size_t \<Rightarrow> (bool \<times> cbuf) option" where
  "ns_dns_format_a data len rdata_offset rdlength out out_len =
     (if rdlength \<noteq> 4 \<or> \<not> ns_bounds_check len rdata_offset 4 then Some (False, out)
      else do {
        addr \<leftarrow> memcpy_u32 data rdata_offset;
        out \<leftarrow> ns_format_ipv4 addr out out_len;
        Some (True, out) })"

definition ns_dns_format_aaaa ::
  "bytes \<Rightarrow> size_t \<Rightarrow> size_t \<Rightarrow> u16 \<Rightarrow> cbuf \<Rightarrow> size_t \<Rightarrow> (bool \<times> cbuf) option" where
  "ns_dns_format_aaaa data len rdata_offset rdlength out out_len =
     (if rdlength \<noteq> 16 \<or> \<not> ns_bounds_check len rdata_offset 16 then Some (False, out)
      else do {
        addr \<leftarrow> ptr_add data rdata_offset;
        out \<leftarrow> ns_format_ipv6 addr out out_len;
        Some (True, out) })"

definition ns_dns_format_name_rdata ::
  "bytes \<Rightarrow> size_t \<Rightarrow> size_t \<Rightarrow> cbuf \<Rightarrow> size_t \<Rightarrow> (bool \<times> cbuf) option" where
  "ns_dns_format_name_rdata data len rdata_offset out out_len = do {
     (status, out, _) \<leftarrow> ns_dns_decode_name data len rdata_offset out out_len;
     Some (status = NS_PARSE_OK, out) }"

definition ns_dns_format_mx ::
  "bytes \<Rightarrow> size_t \<Rightarrow> size_t \<Rightarrow> cbuf \<Rightarrow> size_t \<Rightarrow> (bool \<times> cbuf) option" where
  "ns_dns_format_mx data len rdata_offset out out_len =
     (if \<not> ns_bounds_check len rdata_offset 2 then Some (False, out)
      else do {
        rd \<leftarrow> ns_read_u16_be data len rdata_offset;
        (case rd of
           None \<Rightarrow> Some (False, out)
         | Some preference \<Rightarrow> do {
             (status, name, _) \<leftarrow> ns_dns_decode_name data len (rdata_offset + 2) (stack_buf 256) 256;
             if status \<noteq> NS_PARSE_OK then Some (False, out)
             else do {
               s \<leftarrow> c_str name;
               (out, _) \<leftarrow> snprintf out 0 out_len (dec (unat preference) @ '' '' @ s);
               Some (True, out) } }) })"

text \<open>The loop of \<open>ns_dns_format_txt\<close>; \<open>rdlength\<close> and \<open>seg_len\<close> are promoted
  to \<open>size_t\<close> in the comparisons.\<close>

function ns_dns_txt_loop ::
  "bytes \<Rightarrow> size_t \<Rightarrow> u16 \<Rightarrow> size_t \<Rightarrow> size_t \<Rightarrow> cbuf \<Rightarrow> size_t \<Rightarrow> (cbuf \<times> size_t) option" where
  "ns_dns_txt_loop data rdata_offset rdlength out_len pos out out_pos =
     (if pos < ucast rdlength \<and> out_pos + 1 < out_len
      then do {
        seg_len \<leftarrow> mem_get data (rdata_offset + pos);
        let pos = pos + 1;
        if pos + ucast seg_len > ucast rdlength then Some (out, out_pos)
        else do {
          let copy = (ucast seg_len :: size_t);
          let copy = (if out_pos + copy \<ge> out_len then out_len - out_pos - 1 else copy);
          piece \<leftarrow> mem_read data (rdata_offset + pos) copy;
          out \<leftarrow> mem_write out out_pos (chars piece);
          ns_dns_txt_loop data rdata_offset rdlength out_len (pos + ucast seg_len) out (out_pos + copy) } }
      else Some (out, out_pos))"
  by pat_completeness auto

lemma txt_step:
  assumes "pos < (ucast (rdlength :: u16) :: size_t)"
  shows "unat (pos + 1) = unat pos + 1" "unat (pos + 1 + ucast (seg :: u8)) = unat pos + 1 + unat seg"
    "unat pos < unat rdlength"
proof -
  show p: "unat pos < unat rdlength" using assms by (simp add: word_less_nat_alt unat_ucast_up)
  have b: "unat rdlength < 65536" "unat seg < 256" using unat_lt_65536 unat_lt_256 by auto
  show "unat (pos + 1) = unat pos + 1" "unat (pos + 1 + ucast seg) = unat pos + 1 + unat seg"
    using p b by (simp_all add: unat_word_ariths unat_ucast_up)
qed

termination ns_dns_txt_loop
proof (relation "measure (\<lambda>(data, ro, rdlength, out_len, pos, out, out_pos). unat rdlength - unat pos)", goal_cases)
  case (2 data ro rdlength out_len pos out out_pos seg)
  then show ?case using txt_step(1,3) [of pos rdlength] txt_step(2) [of pos rdlength seg] by auto
qed simp

declare ns_dns_txt_loop.simps [simp del]

definition ns_dns_format_txt ::
  "bytes \<Rightarrow> size_t \<Rightarrow> size_t \<Rightarrow> u16 \<Rightarrow> cbuf \<Rightarrow> size_t \<Rightarrow> (bool \<times> cbuf) option" where
  "ns_dns_format_txt data len rdata_offset rdlength out out_len =
     (if \<not> ns_bounds_check len rdata_offset (ucast rdlength) then Some (False, out)
      else do {
        out \<leftarrow> mem_set out 0 NUL;
        (out, out_pos) \<leftarrow> ns_dns_txt_loop data rdata_offset rdlength out_len 0 out 0;
        out \<leftarrow> mem_set out out_pos NUL;
        Some (True, out) })"

definition ns_dns_format_rdata ::
  "bytes \<Rightarrow> size_t \<Rightarrow> size_t \<Rightarrow> u16 \<Rightarrow> u16 \<Rightarrow> cbuf \<Rightarrow> size_t \<Rightarrow> cbuf option" where
  "ns_dns_format_rdata data len rdata_offset rdlength type out out_len = do {
     (ok, out) \<leftarrow>
       (if type = NS_DNS_TYPE_A then ns_dns_format_a data len rdata_offset rdlength out out_len
        else if type = NS_DNS_TYPE_AAAA then ns_dns_format_aaaa data len rdata_offset rdlength out out_len
        else if type = NS_DNS_TYPE_CNAME \<or> type = NS_DNS_TYPE_NS \<or> type = NS_DNS_TYPE_PTR
        then ns_dns_format_name_rdata data len rdata_offset out out_len
        else if type = NS_DNS_TYPE_MX then ns_dns_format_mx data len rdata_offset out out_len
        else if type = NS_DNS_TYPE_TXT then ns_dns_format_txt data len rdata_offset rdlength out out_len
        else Some (False, out));
     if ok then Some out
     else do {
       (out, _) \<leftarrow> snprintf out 0 out_len (''<'' @ dec (unat rdlength) @ '' bytes>'');
       Some out } }"

definition ns_dns_parse_record ::
  "bytes \<Rightarrow> size_t \<Rightarrow> size_t \<Rightarrow> ns_dns_record_t option \<Rightarrow>
     (ns_parse_status_t \<times> size_t \<times> ns_dns_record_t option) option" where
  "ns_dns_parse_record data len offset out = do {
     (status, name, end_offset) \<leftarrow> ns_dns_decode_name data len offset (stack_buf 256) 256;
     if status \<noteq> NS_PARSE_OK then Some (status, offset, out)
     else do {
       name_end \<leftarrow> end_offset;
       if \<not> ns_bounds_check len name_end 10 then Some (NS_PARSE_TRUNCATED, offset, out)
       else do {
         type \<leftarrow> out_param (ns_read_u16_be data len name_end);
         rclass \<leftarrow> out_param (ns_read_u16_be data len (name_end + 2));
         ttl \<leftarrow> out_param (ns_read_u32_be data len (name_end + 4));
         rdlength \<leftarrow> out_param (ns_read_u16_be data len (name_end + 8));
         let rdata_offset = name_end + 10;
         if \<not> ns_bounds_check len rdata_offset (ucast rdlength) then Some (NS_PARSE_TRUNCATED, offset, out)
         else do {
           out \<leftarrow> (case out of
              None \<Rightarrow> Some None
            | Some r \<Rightarrow> do {
                rr_name' \<leftarrow> mem_write (rr_name r) 0 name;
                rdata \<leftarrow> ns_dns_format_rdata data len rdata_offset rdlength type (rr_rdata_text r) 263;
                Some (Some (r\<lparr> rr_name := rr_name', rr_type := type, rr_class := rclass, rr_ttl := ttl,
                  rr_rdlength := rdlength, rr_rdata_text := rdata \<rparr>)) });
           Some (NS_PARSE_OK, rdata_offset + ucast rdlength, out) } } } }"

text \<open>The two section loops of \<open>ns_parse_dns\<close>; the slot a call filled is stored back.\<close>

function dns_question_loop ::
  "bytes \<Rightarrow> size_t \<Rightarrow> u16 \<Rightarrow> u16 \<Rightarrow> size_t \<Rightarrow> ns_dns_info_t \<Rightarrow>
     (ns_parse_status_t \<times> size_t \<times> ns_dns_info_t) option" where
  "dns_question_loop data len qdcount i offset out =
     (if i < qdcount
      then do {
        slot \<leftarrow> (if i < NS_DNS_MAX_QUESTIONS
           then do { q \<leftarrow> mem_get (dns_questions out) (dns_decoded_question_count out); Some (Some q) }
           else Some None);
        (status, offset, slot) \<leftarrow> ns_dns_parse_question data len offset slot;
        out \<leftarrow> (case slot of
           None \<Rightarrow> Some out
         | Some q \<Rightarrow> do {
             qs \<leftarrow> mem_set (dns_questions out) (dns_decoded_question_count out) q;
             Some (out\<lparr> dns_questions := qs \<rparr>) });
        if status \<noteq> NS_PARSE_OK then Some (status, offset, out)
        else do {
          let out = (if slot \<noteq> None
             then out\<lparr> dns_decoded_question_count := dns_decoded_question_count out + 1 \<rparr> else out);
          dns_question_loop data len qdcount (i + 1) offset out } }
      else Some (NS_PARSE_OK, offset, out))"
  by pat_completeness auto

lemma u16_count: "i < (n :: u16) \<Longrightarrow> unat n - unat (i + 1) < unat n - unat i"
  using unat_Suc_less [of i n] by (simp add: word_less_nat_alt)

termination dns_question_loop
  by (relation "measure (\<lambda>(data, len, qdcount, i, offset, out). unat qdcount - unat i)")
    (auto dest: u16_count)

declare dns_question_loop.simps [simp del]

function dns_answer_loop ::
  "bytes \<Rightarrow> size_t \<Rightarrow> u16 \<Rightarrow> u16 \<Rightarrow> size_t \<Rightarrow> ns_dns_info_t \<Rightarrow>
     (ns_parse_status_t \<times> size_t \<times> ns_dns_info_t) option" where
  "dns_answer_loop data len ancount i offset out =
     (if i < ancount \<and> i < NS_DNS_MAX_ANSWERS
      then do {
        slot \<leftarrow> mem_get (dns_answers out) (dns_decoded_answer_count out);
        (status, offset, slot) \<leftarrow> ns_dns_parse_record data len offset (Some slot);
        r \<leftarrow> slot;
        rs \<leftarrow> mem_set (dns_answers out) (dns_decoded_answer_count out) r;
        let out = out\<lparr> dns_answers := rs \<rparr>;
        if status \<noteq> NS_PARSE_OK then Some (status, offset, out)
        else dns_answer_loop data len ancount (i + 1) offset
               (out\<lparr> dns_decoded_answer_count := dns_decoded_answer_count out + 1 \<rparr>) }
      else Some (NS_PARSE_OK, offset, out))"
  by pat_completeness auto

termination dns_answer_loop
  by (relation "measure (\<lambda>(data, len, ancount, i, offset, out). unat ancount - unat i)")
    (auto dest: u16_count)

declare dns_answer_loop.simps [simp del]

definition ns_parse_dns :: "bytes \<Rightarrow> size_t \<Rightarrow> ns_dns_info_t \<Rightarrow> ns_dns_info_t body_res" where
  "ns_parse_dns data len out =
     (if \<not> ns_bounds_check len 0 NS_DNS_HEADER_LEN then Some (NS_PARSE_TRUNCATED, out)
      else do {
        txn_id \<leftarrow> out_param (ns_read_u16_be data len 0);
        flags \<leftarrow> out_param (ns_read_u16_be data len 2);
        qdcount \<leftarrow> out_param (ns_read_u16_be data len 4);
        ancount \<leftarrow> out_param (ns_read_u16_be data len 6);
        nscount \<leftarrow> out_param (ns_read_u16_be data len 8);
        arcount \<leftarrow> out_param (ns_read_u16_be data len 10);
        let out = ns_dns_zero\<lparr> dns_transaction_id := txn_id, dns_flags := flags,
          dns_is_response := (flags AND 0x8000 \<noteq> 0), dns_question_count := qdcount,
          dns_answer_count := ancount, dns_authority_count := nscount,
          dns_additional_count := arcount \<rparr>;
        (status, offset, out) \<leftarrow> dns_question_loop data len qdcount 0 NS_DNS_HEADER_LEN out;
        if status \<noteq> NS_PARSE_OK then Some (status, out)
        else do {
          (status, offset, out) \<leftarrow> dns_answer_loop data len ancount 0 offset out;
          Some (status, out) } })"

text \<open>A type's name: a constant, or the text printed into the caller's buffer.\<close>

definition ns_dns_type_name :: "u16 \<Rightarrow> cbuf \<Rightarrow> size_t \<Rightarrow> (string \<times> cbuf) option" where
  "ns_dns_type_name type buf buf_len =
     (if type = NS_DNS_TYPE_A then Some (''A'', buf)
      else if type = NS_DNS_TYPE_NS then Some (''NS'', buf)
      else if type = NS_DNS_TYPE_CNAME then Some (''CNAME'', buf)
      else if type = NS_DNS_TYPE_PTR then Some (''PTR'', buf)
      else if type = NS_DNS_TYPE_MX then Some (''MX'', buf)
      else if type = NS_DNS_TYPE_TXT then Some (''TXT'', buf)
      else if type = NS_DNS_TYPE_AAAA then Some (''AAAA'', buf)
      else do {
        (buf, _) \<leftarrow> snprintf buf 0 buf_len (''TYPE'' @ dec (unat type));
        s \<leftarrow> c_str buf;
        Some (s, buf) })"

subsection \<open>Record data as text\<close>

text \<open>The string a buffer holds is cut at a zero byte inside the text.\<close>

definition cut_nul :: "string \<Rightarrow> string" where
  "cut_nul s = takeWhile (\<lambda>c. c \<noteq> NUL) s"

lemma cut_nul_free [simp]: "nul_free (cut_nul s)" "nul_free s \<Longrightarrow> cut_nul s = s"
  by (auto simp: cut_nul_def nul_free_def dest: set_takeWhileD)

lemma length_cut: "length (cut_nul s) \<le> length s"
  by (simp add: cut_nul_def length_takeWhile_le)

lemma holds_cut:
  assumes "holds p s" "length s < length p" "p ! length s = NUL"
  shows "c_str p = Some (cut_nul s)"
proof -
  have p: "p = s @ NUL # drop (Suc (length s)) p"
    using assms by (metis holds_def append_take_drop_id Cons_nth_drop_Suc)
  have "takeWhile (\<lambda>c. c \<noteq> NUL) (s @ NUL # r) = takeWhile (\<lambda>c. c \<noteq> NUL) s" for r
    by (simp add: takeWhile_tail)
  then show ?thesis by (subst p) (simp add: c_str_def cut_nul_def)
qed

definition text_buf :: "nat \<Rightarrow> cbuf \<Rightarrow> bool" where
  "text_buf n b \<longleftrightarrow> length b = n \<and> NUL \<in> set b"

lemma text_buf_c_str: "text_buf n b \<longleftrightarrow> length b = n \<and> (\<exists>s. c_str b = Some s)"
  by (auto simp: text_buf_def c_str_def)

lemma ns_dns_format_a_ok:
  assumes "unat len \<le> length data" "length out = 263"
  shows "\<exists>ok out'. ns_dns_format_a data len ro rdl out 263 = Some (ok, out') \<and> length out' = 263 \<and>
    (ok \<longleftrightarrow> rdl = 4 \<and> unat ro + 4 \<le> unat len) \<and>
    (ok \<longrightarrow> c_str out' = Some (ipv4_text (u32_of_mem (window data (unat ro) 4))))"
proof (cases "rdl = 4 \<and> unat ro + 4 \<le> unat len")
  case True
  obtain q where "ns_format_ipv4 (u32_of_mem (window data (unat ro) 4)) out 263 = Some q"
    "length q = length out" "c_str q = Some (ipv4_text (u32_of_mem (window data (unat ro) 4)))"
    using ns_format_ipv4_text [of 263 out] assms(2) by auto
  with True assms show ?thesis by (auto simp: ns_dns_format_a_def ns_bounds_check_iff cmem)
next
  case False
  with assms show ?thesis by (auto simp: ns_dns_format_a_def ns_bounds_check_iff)
qed

lemma ns_format_ipv6_prefix:
  "16 \<le> length addr \<Longrightarrow> ns_format_ipv6 addr buf buf_len = ns_format_ipv6 (take 16 addr) buf buf_len"
proof -
  assume a: "16 \<le> length addr"
  have "ipv6_groups n addr i = ipv6_groups n (take 16 addr) i" if "unat i + n \<le> 8" for n i
    using that
  proof (induction n arbitrary: i)
    case (Suc n)
    have "unat (i * 2) = 2 * unat i" "unat (i * 2 + 1) = 2 * unat i + 1" "unat (i + 1) = Suc (unat i)"
      using Suc.prems by (simp_all add: unat_word_ariths)
    with Suc a show ?case by (simp add: mem_get_def)
  qed simp
  from this [of 0 8] show ?thesis by (simp add: ns_format_ipv6_def)
qed

lemma ns_dns_format_aaaa_ok:
  assumes "unat len \<le> length data" "length out = 263"
  shows "\<exists>ok out'. ns_dns_format_aaaa data len ro rdl out 263 = Some (ok, out') \<and> length out' = 263 \<and>
    (ok \<longleftrightarrow> rdl = 16 \<and> unat ro + 16 \<le> unat len) \<and>
    (ok \<longrightarrow> c_str out' = Some (ipv6_text (groups_of (window data (unat ro) 16))))"
proof (cases "rdl = 16 \<and> unat ro + 16 \<le> unat len")
  case True
  let ?a = "window data (unat ro) 16"
  have a: "length ?a = 16" "16 \<le> length (drop (unat ro) data)" using True assms(1) by (auto simp: window_def)
  have "0 < length out" using assms(2) by simp
  then obtain q where q: "ns_format_ipv6 ?a out 263 = Some q"
    "length q = length out" "c_str q = Some (take (length out - 1) (ipv6_text (groups_of ?a)))"
    using ns_format_ipv6_text [OF a(1), of 263 out] assms(2) by auto
  moreover have "take (length out - 1) (ipv6_text (groups_of ?a)) = ipv6_text (groups_of ?a)"
    using ipv6_text_length(1) [of "groups_of ?a"] assms(2) by simp
  moreover have "ns_format_ipv6 (drop (unat ro) data) out 263 = Some q"
    using ns_format_ipv6_prefix [OF a(2)] q(1) by (simp add: window_def)
  ultimately show ?thesis using True assms by (auto simp: ns_dns_format_aaaa_def ns_bounds_check_iff cmem)
next
  case False
  with assms show ?thesis by (auto simp: ns_dns_format_aaaa_def ns_bounds_check_iff)
qed

text \<open>The name accepted at an offset of the message: at most 32 pointers, and room for its text.\<close>

definition name_at :: "bytes \<Rightarrow> nat \<Rightarrow> nat \<Rightarrow> bytes list \<Rightarrow> nat \<Rightarrow> bool" where
  "name_at m n i ls e \<longleftrightarrow> (\<exists>j \<le> 32. dns_name m i j ls e) \<and> dns_name_fits ls n"

lemma name_at_unique: "name_at m n i ls e \<Longrightarrow> name_at m n i ls' e' \<Longrightarrow> ls' = ls \<and> e' = e"
  unfolding name_at_def using dns_name_unique by blast

lemma name_at_end: "name_at m n i ls e \<Longrightarrow> i < e \<and> e \<le> length m"
  unfolding name_at_def using dns_name_end by blast

lemma decode_name_at:
  assumes "unat len \<le> length data" "unat out_len = length out" "65 \<le> length out" "length out \<le> 65536"
  obtains (ok) out' ls e where "ns_dns_decode_name data len offset out out_len = Some (NS_PARSE_OK, out', Some (of_nat e))"
      "length out' = length out" "name_at (take (unat len) data) (length out) (unat offset) ls e"
      "holds out' (dns_text ls)" "out' ! length (dns_text ls) = NUL" "length (dns_text ls) < length out"
      "c_str out' = Some (cut_nul (dns_text ls))" "unat (of_nat e :: size_t) = e"
    | (bad) st out' eo where "ns_dns_decode_name data len offset out out_len = Some (st, out', eo)"
      "length out' = length out" "st \<noteq> NS_PARSE_OK" "st \<noteq> NS_PARSE_UNSUPPORTED"
      "\<nexists>ls e. name_at (take (unat len) data) (length out) (unat offset) ls e"
proof -
  let ?m = "take (unat len) data"
  obtain st out' eo where r: "ns_dns_decode_name data len offset out out_len = Some (st, out', eo)"
    "length out' = length out" "st \<noteq> NS_PARSE_UNSUPPORTED"
    "st = NS_PARSE_OK \<Longrightarrow> \<exists>j ls e. dns_name ?m (unat offset) j ls e \<and> j \<le> 32 \<and>
       dns_name_fits ls (length out) \<and> eo = Some (of_nat e) \<and> holds out' (dns_text ls) \<and>
       out' ! length (dns_text ls) = NUL"
    using ns_dns_decode_name_sound [OF assms] by blast
  show thesis
  proof (cases "st = NS_PARSE_OK")
    case True
    from r(4) [OF True] obtain j ls e where n: "dns_name ?m (unat offset) j ls e" "j \<le> 32"
      "dns_name_fits ls (length out)" "eo = Some (of_nat e)" "holds out' (dns_text ls)"
      "out' ! length (dns_text ls) = NUL" by blast
    have "e \<le> unat len" using dns_name_end [OF n(1)] by simp
    then have "unat (of_nat e :: size_t) = e" using unat_lt_2p64 [of len] by (simp add: unat_of_nat)
    moreover have "length (dns_text ls) < length out" using n(3) by (simp add: dns_name_fits_def)
    ultimately show thesis
      using ok [of out' e ls] r n True holds_cut [of out' "dns_text ls"] by (auto simp: name_at_def)
  next
    case False
    have "\<not> name_at ?m (length out) (unat offset) ls e" for ls e
    proof
      assume "name_at ?m (length out) (unat offset) ls e"
      then obtain j where "j \<le> 32" "dns_name ?m (unat offset) j ls e" "dns_name_fits ls (length out)"
        by (auto simp: name_at_def)
      from ns_dns_decode_name_complete [OF this(2,1,3) assms] r(1) False show False by auto
    qed
    with bad r False show thesis by blast
  qed
qed

lemma ns_dns_format_name_ok:
  assumes "unat len \<le> length data" "length out = 263"
  shows "\<exists>ok out'. ns_dns_format_name_rdata data len ro out 263 = Some (ok, out') \<and> length out' = 263 \<and>
    (ok \<longleftrightarrow> (\<exists>ls e. name_at (take (unat len) data) 263 (unat ro) ls e)) \<and>
    (ok \<longrightarrow> (\<exists>ls e. name_at (take (unat len) data) 263 (unat ro) ls e \<and> c_str out' = Some (cut_nul (dns_text ls))))"
proof -
  have "unat (263 :: size_t) = length out" "65 \<le> length out" "length out \<le> 65536" using assms(2) by simp_all
  with assms(1) show ?thesis
    by (cases rule: decode_name_at [where offset = ro])
      (auto simp: ns_dns_format_name_rdata_def assms(2))
qed

lemma ns_dns_format_mx_ok:
  assumes "unat len \<le> length data" "length out = 263"
  shows "\<exists>ok out'. ns_dns_format_mx data len ro out 263 = Some (ok, out') \<and> length out' = 263 \<and>
    (ok \<longleftrightarrow> unat ro + 2 \<le> unat len \<and> (\<exists>ls e. name_at (take (unat len) data) 256 (unat ro + 2) ls e)) \<and>
    (ok \<longrightarrow> (\<exists>ls e. name_at (take (unat len) data) 256 (unat ro + 2) ls e \<and>
       c_str out' = Some (dec (unat (be16 data (unat ro))) @ '' '' @ cut_nul (dns_text ls))))"
proof (cases "unat ro + 2 \<le> unat len")
  case False
  then show ?thesis using assms by (auto simp: ns_dns_format_mx_def ns_bounds_check_iff)
next
  case True
  have ro: "unat (ro + 2) = unat ro + 2" using unat_add_le [of ro 2 len] True by simp
  have buf: "unat (256 :: size_t) = length (stack_buf 256)" by (simp add: stack_buf_def)
  have b: "65 \<le> length (stack_buf 256)" "length (stack_buf 256) \<le> 65536" by (simp_all add: stack_buf_def)
  from assms(1) buf b show ?thesis
  proof (cases rule: decode_name_at [where offset = "ro + 2"])
    case (bad st out' eo)
    with True assms ro show ?thesis by (auto simp: ns_dns_format_mx_def ns_bounds_check_iff cmem stack_buf_def)
  next
    case (ok out' ls e)
    let ?t = "dec (unat (be16 data (unat ro))) @ '' '' @ cut_nul (dns_text ls)"
    have "length (cut_nul (dns_text ls)) < 256"
      using ok(6) length_cut [of "dns_text ls"] by (simp add: stack_buf_def)
    moreover have "length (dec (unat (be16 data (unat ro)))) \<le> 5"
      using length_show_base [of 10 _ 4] unat_lt_65536 [of "be16 data (unat ro)"] by simp
    ultimately have "take 262 ?t = ?t" by simp
    moreover obtain q where "snprintf out 0 263 ?t = Some (q, int (length ?t))" "length q = length out"
      "c_str q = Some (take (length out - 1) ?t)"
      using snprintf_whole [of ?t 263 out] assms(2) by auto
    ultimately show ?thesis
      using True assms ok ro by (auto simp: ns_dns_format_mx_def ns_bounds_check_iff cmem stack_buf_def)
  qed
qed

text \<open>TXT data is a sequence of character strings, each after its length; the sequence ends at the
  first one that does not fit the data.\<close>

fun txt_strings :: "bytes \<Rightarrow> bytes" where
  "txt_strings [] = []"
| "txt_strings (n # bs) =
     (if unat n \<le> length bs then take (unat n) bs @ txt_strings (drop (unat n) bs) else [])"

lemma chars_append [simp]: "chars (xs @ ys) = chars xs @ chars ys"
  by (simp add: chars_def)

lemma take_chars: "take n (chars xs) = chars (take n xs)"
  by (simp add: chars_def take_map)

text \<open>The number of bytes copied: the string, or what room is left less one.\<close>

lemma txt_copy:
  assumes "unat (out_pos :: size_t) = a" "a < l" "unat out_len = l" "l \<le> 65536"
  shows "unat (if out_len \<le> out_pos + ucast (n :: u8) then out_len - out_pos - 1 else ucast n) =
    min (unat n) (l - a - 1)"
proof -
  have on: "unat (out_pos + ucast n) = a + unat n"
    using assms unat_lt_256 [of n] by (simp add: unat_word_ariths unat_ucast_up)
  have "unat (out_len - out_pos - 1) = l - a - 1" using assms(1-3) by (simp add: unat_sub_le)
  with on assms show ?thesis by (auto simp: word_le_nat_alt unat_ucast_up)
qed

lemma txt_cut:
  assumes "n \<le> length rest" "length acc < l"
  shows "take (l - 1) ((acc @ chars (take (min n (l - length acc - 1)) rest)) @ chars ys) =
    take (l - 1) (acc @ chars (take n rest) @ chars ys)"
proof (cases "n \<le> l - length acc - 1")
  case False
  then have c: "min n (l - length acc - 1) = l - length acc - 1" by simp
  with False assms show ?thesis by (simp add: take_chars)
qed simp

lemma txt_guard:
  assumes "length rd = unat rdlength" "unat (out_pos :: size_t) = a" "a < l" "unat out_len = l" "l \<le> 65536"
  shows "pos < (ucast (rdlength :: u16) :: size_t) \<and> out_pos + 1 < out_len \<longleftrightarrow> unat pos < length rd \<and> a + 1 < l"
proof -
  have "unat (out_pos + 1) = a + 1" using assms by (simp add: unat_word_ariths)
  then show ?thesis using assms by (simp add: word_less_nat_alt unat_ucast_up)
qed

text \<open>One turn of the loop at a string that fits the data.\<close>

lemma txt_turn:
  assumes "length rd = unat rdlength" "window data (unat ro) (length rd) = rd" "unat ro + length rd < 2 ^ 64"
    and "holds out acc" "unat out_pos = length acc" "length acc < length out" "unat out_len = length out"
    and "length out \<le> 65536" "unat pos < length rd" "length acc + 1 < length out"
  shows "\<exists>out' out_pos'. ns_dns_txt_loop data ro rdlength out_len pos out out_pos =
      (if length rd < unat pos + 1 + unat (rd ! unat pos) then Some (out, out_pos)
       else ns_dns_txt_loop data ro rdlength out_len (pos + 1 + ucast (rd ! unat pos)) out' out_pos') \<and>
    length out' = length out \<and>
    (\<not> length rd < unat pos + 1 + unat (rd ! unat pos) \<longrightarrow>
      holds out' (acc @ chars (take (min (unat (rd ! unat pos)) (length out - length acc - 1)) (drop (Suc (unat pos)) rd))) \<and>
      unat out_pos' = length (acc @ chars (take (min (unat (rd ! unat pos)) (length out - length acc - 1)) (drop (Suc (unat pos)) rd))))"
proof -
  let ?n = "rd ! unat pos" and ?rest = "drop (Suc (unat pos)) rd"
  let ?c = "min (unat ?n) (length out - length acc - 1)"
  define copy where "copy = (if out_len \<le> out_pos + ucast ?n then out_len - out_pos - 1 else ucast ?n)"
  have copy: "unat copy = ?c" unfolding copy_def using txt_copy [OF assms(5-8)] .
  have guard: "pos < (ucast rdlength :: size_t) \<and> out_pos + 1 < out_len"
    using txt_guard [OF assms(1,5-8)] assms(9,10) by blast
  then have lt: "pos < (ucast rdlength :: size_t)" ..
  note step = txt_step(1) [OF lt] txt_step(2) [OF lt, of ?n]
  have ro: "unat (ro + pos) = unat ro + unat pos" "unat (ro + (pos + 1)) = unat ro + unat pos + 1"
    using assms(3,9) step(1) by (simp_all add: unat_word_ariths)
  have dl: "unat ro + length rd \<le> length data"
    using arg_cong [OF assms(2), of length] assms(9) by (auto simp: window_def)
  have "?n = data ! (unat ro + unat pos)"
    using assms(9) dl by (subst assms(2) [symmetric]) (simp add: window_def)
  then have get: "mem_get data (ro + pos) = Some ?n" using ro(1) dl assms(9) by (simp add: mem_get_def)
  have over: "(ucast rdlength :: size_t) < pos + 1 + ucast ?n \<longleftrightarrow> length rd < unat pos + 1 + unat ?n"
    using step(2) assms(1) by (simp add: word_less_nat_alt unat_ucast_up)
  show ?thesis
  proof (cases "length rd < unat pos + 1 + unat ?n")
    case True
    with guard get over show ?thesis by (subst ns_dns_txt_loop.simps) auto
  next
    case False
    then have yes: "unat ?n \<le> length ?rest" using assms(9) by auto
    let ?seg = "take ?c ?rest"
    have seg: "length ?seg = ?c" using yes by simp
    have rest: "?rest = take (length rd - Suc (unat pos)) (drop (unat ro + unat pos + 1) data)"
      by (subst assms(2) [symmetric]) (simp add: window_def drop_take add.commute)
    have cl: "min ?c (length rd - Suc (unat pos)) = ?c" using yes by simp
    have "?seg = take (min ?c (length rd - Suc (unat pos))) (drop (unat ro + unat pos + 1) data)"
      by (subst rest) (simp only: take_take)
    then have "?seg = take ?c (drop (unat ro + unat pos + 1) data)" unfolding cl .
    moreover have "unat ro + unat pos + 1 + ?c \<le> length data"
      using yes dl assms(9) by (auto simp: min_def)
    ultimately have rd: "mem_read data (ro + (pos + 1)) copy = Some ?seg"
      using copy ro(2) by (simp add: mem_read_def)
    let ?out = "acc @ chars ?seg @ drop (length acc + ?c) out"
    have wr: "mem_write out out_pos (chars ?seg) = Some ?out"
      using assms(4-6) seg by (simp add: mem_write_def holds_def)
    have "ns_dns_txt_loop data ro rdlength out_len pos out out_pos =
        ns_dns_txt_loop data ro rdlength out_len (pos + 1 + ucast ?n) ?out (out_pos + copy)"
      using guard get over False rd wr by (subst ns_dns_txt_loop.simps) (simp add: Let_def flip: copy_def)
    moreover have "holds ?out (acc @ chars ?seg)" "length ?out = length out"
      using seg assms(6) by (simp_all add: holds_def)
    moreover have "unat (out_pos + copy) = length (acc @ chars ?seg)"
    proof -
      have "unat out_pos + unat copy \<le> unat out_len"
        unfolding copy assms(5,7) using assms(6) by linarith
      from unat_add_le [OF this] show ?thesis unfolding copy assms(5) using seg by simp
    qed
    ultimately show ?thesis
      by (intro exI [of _ ?out] exI [of _ "out_pos + copy"]) (simp only: False if_False simp_thms)
  qed
qed

lemma txt_strings_at:
  "i < length rd \<Longrightarrow> txt_strings (drop i rd) =
     (if length rd < i + 1 + unat (rd ! i) then []
      else take (unat (rd ! i)) (drop (Suc i) rd) @ txt_strings (drop (i + 1 + unat (rd ! i)) rd))"
  by (auto simp: Cons_nth_drop_Suc [symmetric] add.commute)

lemma ns_dns_txt_loop_text:
  assumes "length rd = unat rdlength" "window data (unat ro) (length rd) = rd" "unat ro + length rd < 2 ^ 64"
    and "holds out acc" "unat out_pos = length acc" "length acc < length out" "unat out_len = length out"
    and "length out \<le> 65536" "unat pos \<le> length rd"
  shows "\<exists>out' p'. ns_dns_txt_loop data ro rdlength out_len pos out out_pos = Some (out', p') \<and>
    length out' = length out \<and>
    holds out' (take (length out - 1) (acc @ chars (txt_strings (drop (unat pos) rd)))) \<and>
    unat p' = length (take (length out - 1) (acc @ chars (txt_strings (drop (unat pos) rd))))"
  using assms(4-9)
proof (induction "length rd - unat pos" arbitrary: pos acc out out_pos rule: less_induct)
  case less
  note prems = less.prems
  let ?goal = "\<lambda>r t. \<exists>out' p'. r = Some (out', p') \<and> length out' = length out \<and> holds out' t \<and> unat p' = length t"
  note guard = txt_guard [OF assms(1) prems(2-5)]
  consider (stop) "\<not> (unat pos < length rd \<and> length acc + 1 < length out)"
    | (bad) "unat pos < length rd" "length acc + 1 < length out" "length rd < unat pos + 1 + unat (rd ! unat pos)"
    | (go) "unat pos < length rd" "length acc + 1 < length out" "\<not> length rd < unat pos + 1 + unat (rd ! unat pos)"
    by blast
  then show ?case
  proof cases
    case stop
    then have "length out - 1 = length acc \<or> txt_strings (drop (unat pos) rd) = []" using prems(3) by auto
    then have full: "take (length out - 1) (acc @ chars (txt_strings (drop (unat pos) rd))) = acc"
      using prems(3) by (auto simp: chars_def)
    have "ns_dns_txt_loop data ro rdlength out_len pos out out_pos = Some (out, out_pos)"
      using stop guard by (subst ns_dns_txt_loop.simps) (simp only: if_False)
    then show ?thesis unfolding full using prems(1,2) by simp
  next
    case bad
    have full: "take (length out - 1) (acc @ chars (txt_strings (drop (unat pos) rd))) = acc"
      using bad by (simp add: txt_strings_at chars_def)
    from txt_turn [OF assms(1-3) prems(1-5) bad(1,2)] bad(3)
    have "ns_dns_txt_loop data ro rdlength out_len pos out out_pos = Some (out, out_pos)" by auto
    then show ?thesis unfolding full using prems(1,2) by simp
  next
    case go
    let ?n = "unat (rd ! unat pos)" and ?p = "pos + 1 + ucast (rd ! unat pos)"
    let ?acc = "acc @ chars (take (min ?n (length out - length acc - 1)) (drop (Suc (unat pos)) rd))"
    from txt_turn [OF assms(1-3) prems(1-5) go(1,2)] go(3)
    obtain o1 p1 where 1: "ns_dns_txt_loop data ro rdlength out_len pos out out_pos =
        ns_dns_txt_loop data ro rdlength out_len ?p o1 p1"
      "length o1 = length out" "holds o1 ?acc" "unat p1 = length ?acc" by auto
    have p: "unat ?p = unat pos + 1 + ?n" using guard go by (intro txt_step(2)) blast
    have "?n \<le> length (drop (Suc (unat pos)) rd)" using go by auto
    from txt_cut [OF this prems(3)] have eq: "take (length out - 1) (?acc @ chars (txt_strings (drop (unat ?p) rd))) =
        take (length out - 1) (acc @ chars (txt_strings (drop (unat pos) rd)))"
      using go p by (simp add: txt_strings_at)
    have "length rd - unat ?p < length rd - unat pos" using p go by simp
    moreover have "length ?acc < length o1" using 1(2) go(2) by simp
    moreover have "unat out_len = length o1" "length o1 \<le> 65536" "unat ?p \<le> length rd"
      using prems(4,5) 1(2) p go by simp_all
    ultimately have "\<exists>out' p'. ns_dns_txt_loop data ro rdlength out_len ?p o1 p1 = Some (out', p') \<and>
      length out' = length o1 \<and>
      holds out' (take (length o1 - 1) (?acc @ chars (txt_strings (drop (unat ?p) rd)))) \<and>
      unat p' = length (take (length o1 - 1) (?acc @ chars (txt_strings (drop (unat ?p) rd))))"
      using 1(3,4) by (intro less.hyps)
    then show ?thesis unfolding 1(1,2) eq .
  qed
qed

lemma ns_dns_format_txt_ok:
  assumes "unat len \<le> length data" "length out = 263" "unat ro + unat rdl \<le> unat len"
  shows "\<exists>out'. ns_dns_format_txt data len ro rdl out 263 = Some (True, out') \<and> length out' = 263 \<and>
    c_str out' = Some (cut_nul (take 262 (chars (txt_strings (window data (unat ro) (unat rdl))))))"
proof -
  let ?rd = "window data (unat ro) (unat rdl)"
  let ?t = "take 262 (chars (txt_strings ?rd))"
  have rd: "length ?rd = unat rdl" using assms(1,3) by (simp add: window_def)
  have "window data (unat ro) (length ?rd) = ?rd" unfolding rd ..
  moreover have "unat ro + length ?rd < 2 ^ 64" using rd assms(3) unat_lt_2p64 [of len] by simp
  ultimately obtain o1 p1 where 1: "ns_dns_txt_loop data ro rdl 263 0 (out[0 := NUL]) 0 = Some (o1, p1)"
    "length o1 = 263" "holds o1 ?t" "unat p1 = length ?t"
    using ns_dns_txt_loop_text [OF rd, of data ro "out[0 := NUL]" "[]" 0 263 0] assms(2) by fastforce
  have "length ?t < 263" by simp
  with 1 have "mem_set o1 p1 NUL = Some (o1[length ?t := NUL])" by (simp add: mem_set_def)
  moreover have "mem_set out 0 NUL = Some (out[0 := NUL])" using assms(2) by (simp add: mem_set_def)
  moreover have "ns_bounds_check len ro (ucast rdl)"
    using assms(3) by (simp add: ns_bounds_check_iff unat_ucast_up)
  ultimately have "ns_dns_format_txt data len ro rdl out 263 = Some (True, o1[length ?t := NUL])"
    using 1(1) by (simp add: ns_dns_format_txt_def)
  moreover have "c_str (o1[length ?t := NUL]) = Some (cut_nul ?t)"
    using 1(2,3) \<open>length ?t < 263\<close> by (intro holds_cut) (auto simp: holds_def simp del: length_take)
  ultimately show ?thesis using 1(2) by auto
qed

text \<open>The text shown for the data of a record: \<open>ro\<close> is the offset of the data in the message,
  \<open>rdl\<close> its length. Types that are not known, and data that cannot be read as its type says,
  are shown by their length.\<close>

definition rdata_shows :: "bytes \<Rightarrow> u16 \<Rightarrow> nat \<Rightarrow> u16 \<Rightarrow> string \<Rightarrow> bool" where
  "rdata_shows m type ro rdl t \<longleftrightarrow>
     (if type = NS_DNS_TYPE_A \<and> rdl = 4 then t = ipv4_text (u32_of_mem (window m ro 4))
      else if type = NS_DNS_TYPE_AAAA \<and> rdl = 16 then t = ipv6_text (groups_of (window m ro 16))
      else if type \<in> {NS_DNS_TYPE_CNAME, NS_DNS_TYPE_NS, NS_DNS_TYPE_PTR} \<and> (\<exists>ls e. name_at m 263 ro ls e)
      then \<exists>ls e. name_at m 263 ro ls e \<and> t = cut_nul (dns_text ls)
      else if type = NS_DNS_TYPE_MX \<and> ro + 2 \<le> length m \<and> (\<exists>ls e. name_at m 256 (ro + 2) ls e)
      then \<exists>ls e. name_at m 256 (ro + 2) ls e \<and> t = dec (unat (be16 m ro)) @ '' '' @ cut_nul (dns_text ls)
      else if type = NS_DNS_TYPE_TXT then t = cut_nul (take 262 (chars (txt_strings (window m ro (unat rdl)))))
      else t = ''<'' @ dec (unat rdl) @ '' bytes>'')"

lemma rdata_shows_name:
  assumes "type \<in> {NS_DNS_TYPE_CNAME, NS_DNS_TYPE_NS, NS_DNS_TYPE_PTR}"
  shows "name_at m 263 ro ls e \<Longrightarrow> rdata_shows m type ro rdl (cut_nul (dns_text ls))"
    and "\<nexists>ls e. name_at m 263 ro ls e \<Longrightarrow> rdata_shows m type ro rdl (''<'' @ dec (unat rdl) @ '' bytes>'')"
  using assms unfolding rdata_shows_def by (elim insertE emptyE; simp; blast)+

lemma rdata_shows_mx:
  "name_at m 256 (ro + 2) ls e \<Longrightarrow>
     rdata_shows m NS_DNS_TYPE_MX ro rdl (dec (unat (be16 m ro)) @ '' '' @ cut_nul (dns_text ls))"
  "\<not> (ro + 2 \<le> length m \<and> (\<exists>ls e. name_at m 256 (ro + 2) ls e)) \<Longrightarrow>
     rdata_shows m NS_DNS_TYPE_MX ro rdl (''<'' @ dec (unat rdl) @ '' bytes>'')"
proof -
  assume n: "name_at m 256 (ro + 2) ls e"
  then have "ro + 2 \<le> length m" using name_at_end by fastforce
  with n show "rdata_shows m NS_DNS_TYPE_MX ro rdl (dec (unat (be16 m ro)) @ '' '' @ cut_nul (dns_text ls))"
    unfolding rdata_shows_def by simp blast
qed (simp add: rdata_shows_def)

lemma rdata_length_shown:
  assumes "length out = 263"
  obtains q where "snprintf out 0 263 (''<'' @ dec (unat (rdl :: u16)) @ '' bytes>'') =
      Some (q, int (length (''<'' @ dec (unat rdl) @ '' bytes>'')))" "length q = 263"
    "c_str q = Some (''<'' @ dec (unat rdl) @ '' bytes>'')"
proof -
  let ?t = "''<'' @ dec (unat rdl) @ '' bytes>''"
  have "length (dec (unat rdl)) \<le> 5" using length_show_base [of 10 _ 4] unat_lt_65536 [of rdl] by simp
  then have "take 262 ?t = ?t" by simp
  moreover obtain q where "snprintf out 0 263 ?t = Some (q, int (length ?t))" "length q = length out"
    "c_str q = Some (take (length out - 1) ?t)"
    using snprintf_whole [of ?t 263 out] assms by auto
  ultimately show thesis using that [of q] assms by simp
qed

lemma ns_dns_format_rdata_text:
  assumes "unat len \<le> length data" "length out = 263" "unat ro + unat rdl \<le> unat len"
  shows "\<exists>out' t. ns_dns_format_rdata data len ro rdl type out 263 = Some out' \<and> length out' = 263 \<and>
    c_str out' = Some t \<and> rdata_shows (take (unat len) data) type (unat ro) rdl t"
proof -
  let ?m = "take (unat len) data"
  let ?r = "(if type = NS_DNS_TYPE_A then ns_dns_format_a data len ro rdl out 263
     else if type = NS_DNS_TYPE_AAAA then ns_dns_format_aaaa data len ro rdl out 263
     else if type = NS_DNS_TYPE_CNAME \<or> type = NS_DNS_TYPE_NS \<or> type = NS_DNS_TYPE_PTR
     then ns_dns_format_name_rdata data len ro out 263
     else if type = NS_DNS_TYPE_MX then ns_dns_format_mx data len ro out 263
     else if type = NS_DNS_TYPE_TXT then ns_dns_format_txt data len ro rdl out 263
     else Some (False, out))"
  have win: "window ?m (unat ro) n = window data (unat ro) n" if "unat ro + n \<le> unat len" for n
    using that by (simp add: window_take)
  have b16: "be16 ?m (unat ro) = be16 data (unat ro)" if "unat ro + 2 \<le> unat len" using that by (simp add: be_take)
  have r: "\<exists>ok out'. ?r = Some (ok, out') \<and> length out' = 263 \<and>
     (ok \<longrightarrow> (\<exists>t. c_str out' = Some t \<and> rdata_shows ?m type (unat ro) rdl t)) \<and>
     (\<not> ok \<longrightarrow> rdata_shows ?m type (unat ro) rdl (''<'' @ dec (unat rdl) @ '' bytes>''))"
  proof -
    consider "type = NS_DNS_TYPE_A" | "type = NS_DNS_TYPE_AAAA"
      | "type \<in> {NS_DNS_TYPE_CNAME, NS_DNS_TYPE_NS, NS_DNS_TYPE_PTR}" | "type = NS_DNS_TYPE_MX"
      | "type = NS_DNS_TYPE_TXT"
      | "type \<notin> {NS_DNS_TYPE_A, NS_DNS_TYPE_AAAA, NS_DNS_TYPE_CNAME, NS_DNS_TYPE_NS, NS_DNS_TYPE_PTR,
          NS_DNS_TYPE_MX, NS_DNS_TYPE_TXT}" by blast
    then show ?thesis
    proof cases
      case 1
      then show ?thesis using ns_dns_format_a_ok [OF assms(1,2), of ro rdl] assms(3) win [of 4]
        by (auto simp: rdata_shows_def)
    next
      case 2
      then show ?thesis using ns_dns_format_aaaa_ok [OF assms(1,2), of ro rdl] assms(3) win [of 16]
        by (auto simp: rdata_shows_def)
    next
      case 3
      then have r: "?r = ns_dns_format_name_rdata data len ro out 263" by auto
      obtain ok o1 where o1: "ns_dns_format_name_rdata data len ro out 263 = Some (ok, o1)" "length o1 = 263"
        "ok \<longleftrightarrow> (\<exists>ls e. name_at ?m 263 (unat ro) ls e)"
        "ok \<Longrightarrow> \<exists>ls e. name_at ?m 263 (unat ro) ls e \<and> c_str o1 = Some (cut_nul (dns_text ls))"
        using ns_dns_format_name_ok [OF assms(1,2), of ro] by blast
      have "\<exists>t. c_str o1 = Some t \<and> rdata_shows ?m type (unat ro) rdl t" if ok
        using o1(4) [OF that] rdata_shows_name(1) [OF 3] by blast
      moreover have "rdata_shows ?m type (unat ro) rdl (''<'' @ dec (unat rdl) @ '' bytes>'')" if "\<not> ok"
        using that o1(3) by (intro rdata_shows_name(2) [OF 3]) blast
      moreover have "?r = Some (ok, o1)" using r o1(1) by (rule trans)
      ultimately show ?thesis using o1(2) by blast
    next
      case 4
      then have r: "?r = ns_dns_format_mx data len ro out 263" by simp
      obtain ok o1 where o1: "ns_dns_format_mx data len ro out 263 = Some (ok, o1)" "length o1 = 263"
        "ok \<longleftrightarrow> unat ro + 2 \<le> unat len \<and> (\<exists>ls e. name_at ?m 256 (unat ro + 2) ls e)"
        "ok \<Longrightarrow> \<exists>ls e. name_at ?m 256 (unat ro + 2) ls e \<and>
           c_str o1 = Some (dec (unat (be16 data (unat ro))) @ '' '' @ cut_nul (dns_text ls))"
        using ns_dns_format_mx_ok [OF assms(1,2), of ro] by blast
      have "\<exists>t. c_str o1 = Some t \<and> rdata_shows ?m type (unat ro) rdl t" if ok
        using o1(4) [OF that] rdata_shows_mx(1) [of ?m "unat ro"] b16 o1(3) that unfolding 4 by force
      moreover have "rdata_shows ?m type (unat ro) rdl (''<'' @ dec (unat rdl) @ '' bytes>'')" if "\<not> ok"
        unfolding 4 using that o1(3) assms(1) by (intro rdata_shows_mx(2)) simp
      moreover have "?r = Some (ok, o1)" using r o1(1) by (rule trans)
      ultimately show ?thesis using o1(2) by blast
    next
      case 5
      then show ?thesis using ns_dns_format_txt_ok [OF assms] win [OF assms(3)] by (auto simp: rdata_shows_def)
    next
      case 6
      then show ?thesis using assms(2) by (auto simp: rdata_shows_def)
    qed
  qed
  then obtain ok o1 where o1: "?r = Some (ok, o1)" "length o1 = 263"
    "ok \<Longrightarrow> \<exists>t. c_str o1 = Some t \<and> rdata_shows ?m type (unat ro) rdl t"
    "\<not> ok \<Longrightarrow> rdata_shows ?m type (unat ro) rdl (''<'' @ dec (unat rdl) @ '' bytes>'')" by blast
  show ?thesis
  proof (cases ok)
    case True
    with o1 show ?thesis unfolding ns_dns_format_rdata_def by auto
  next
    case False
    with o1 rdata_length_shown [OF o1(2), of rdl] show ?thesis
      unfolding ns_dns_format_rdata_def by fastforce
  qed
qed

subsection \<open>Properties\<close>



end
