(* ===== verification/NS_Dns_Message.thy ===== *)
theory NS_Dns_Message
  imports NS_Dns
begin

section \<open>DNS messages: sections, acceptance, round trip\<close>

text \<open>
  The specification of the two sections \<open>ns_parse_dns\<close> walks: consecutive questions, then
  consecutive records, each a name followed by its fixed fields. An accepted message is one whose
  \<open>qdcount\<close> questions and first \<open>min(12, ancount)\<close> answers are all there; what is
  stored is what they say.
\<close>

inductive consecutive :: "(nat \<Rightarrow> 'a \<Rightarrow> nat \<Rightarrow> bool) \<Rightarrow> nat \<Rightarrow> 'a list \<Rightarrow> nat \<Rightarrow> bool" for P where
  none: "consecutive P i [] i"
| more: "P i x k \<Longrightarrow> consecutive P k xs e \<Longrightarrow> consecutive P i (x # xs) e"

inductive_simps consecutive_simps [simp]: "consecutive P i [] e" "consecutive P i (x # xs) e"

lemma consecutive_blocked:
  assumes "P i q k" "\<And>q' k'. P i q' k' \<Longrightarrow> q' = q \<and> k' = k"
    and "\<nexists>xs e. consecutive P k xs e \<and> length xs = n"
  shows "\<not> (consecutive P i ys e \<and> length ys = Suc n)"
proof
  assume a: "consecutive P i ys e \<and> length ys = Suc n"
  then obtain y xs where ys: "ys = y # xs" "length xs = n" by (cases ys) auto
  with a obtain k' where "P i y k'" "consecutive P k' xs e" by auto
  with assms(2,3) ys(2) show False by blast
qed

text \<open>A question: labels, type and class.\<close>

type_synonym question = "bytes list \<times> u16 \<times> u16"

definition question_at :: "bytes \<Rightarrow> nat \<Rightarrow> question \<Rightarrow> nat \<Rightarrow> bool" where
  "question_at m i q k \<longleftrightarrow> (\<exists>e. name_at m 256 i (fst q) e \<and> e + 4 \<le> length m \<and>
     snd q = (be16 m e, be16 m (e + 2)) \<and> k = e + 4)"

definition name_shown :: "cbuf \<Rightarrow> bytes list \<Rightarrow> bool" where
  "name_shown b ls \<longleftrightarrow> length b = 256 \<and> holds b (dns_text ls) \<and> length (dns_text ls) < 256 \<and>
     b ! length (dns_text ls) = NUL"

definition question_shown :: "ns_dns_question_t \<Rightarrow> question \<Rightarrow> bool" where
  "question_shown s q \<longleftrightarrow> name_shown (q_name s) (fst q) \<and> (q_type s, q_class s) = snd q"

lemma question_at_unique: "question_at m i q k \<Longrightarrow> question_at m i q' k' \<Longrightarrow> q' = q \<and> k' = k"
  unfolding question_at_def by (metis name_at_unique prod.expand)

definition slot_ok :: "ns_dns_question_t option \<Rightarrow> bool" where
  "slot_ok s \<longleftrightarrow> (case s of None \<Rightarrow> True | Some q \<Rightarrow> length (q_name q) = 256)"

lemma ns_dns_parse_question_at:
  assumes "unat len \<le> length data" "slot_ok s"
  obtains (ok) s' q k where "ns_dns_parse_question data len off s = Some (NS_PARSE_OK, k, s')"
      "question_at (take (unat len) data) (unat off) q (unat k)" "s' = None \<longleftrightarrow> s = None"
      "\<And>t. s' = Some t \<Longrightarrow> question_shown t q" "slot_ok s'"
    | (bad) st k s' where "ns_dns_parse_question data len off s = Some (st, k, s')" "st \<noteq> NS_PARSE_OK"
      "st \<noteq> NS_PARSE_UNSUPPORTED" "s' = None \<longleftrightarrow> s = None" "slot_ok s'"
      "\<nexists>q k. question_at (take (unat len) data) (unat off) q k"
proof -
  let ?m = "take (unat len) data" and ?b = "case s of Some q \<Rightarrow> q_name q | None \<Rightarrow> stack_buf 256"
  have b: "unat (256 :: size_t) = length ?b" "65 \<le> length ?b" "length ?b \<le> 65536" "length ?b = 256"
    using assms(2) by (auto simp: slot_ok_def stack_buf_def split: option.splits)
  have call: "(case s of Some q \<Rightarrow> (q_name q, 256 :: size_t) | None \<Rightarrow> (stack_buf 256, 256)) = (?b, 256)"
    by (simp split: option.splits)
  from assms(1) b(1-3) show thesis
  proof (cases rule: decode_name_at [where offset = off])
    case (bad st out' eo)
    let ?s = "map_option (\<lambda>q. q\<lparr> q_name := out' \<rparr>) s"
    have "ns_dns_parse_question data len off s = Some (st, off, ?s)"
      using bad unfolding ns_dns_parse_question_def call by simp
    moreover have "\<nexists>q k. question_at ?m (unat off) q k"
      using bad(5) b(4) by (auto simp: question_at_def)
    ultimately show thesis
      using that(2) [of st off ?s] bad(2-4) b(4) by (auto simp: slot_ok_def split: option.splits)
  next
    case (ok out' ls e)
    let ?e = "of_nat e :: size_t"
    have n: "name_at ?m 256 (unat off) ls e" using ok(3) unfolding b(4) .
    let ?s = "map_option (\<lambda>q. q\<lparr> q_name := out' \<rparr>) s"
    let ?t = "map_option (\<lambda>q. q\<lparr> q_type := be16 data e, q_class := be16 data (e + 2) \<rparr>) ?s"
    show thesis
    proof (cases "e + 4 \<le> unat len")
      case True
      have e: "unat (?e + 2) = e + 2" "unat (?e + 4) = e + 4"
        using unat_add_le [of ?e 2 len] unat_add_le [of ?e 4 len] ok(8) True by simp_all
      have "ns_dns_parse_question data len off s = Some (NS_PARSE_OK, ?e + 4, ?t)"
        using ok(1,8) True assms(1) e unfolding ns_dns_parse_question_def call
        by (simp add: ns_bounds_check_iff cmem)
      moreover have "question_at ?m (unat off) (ls, be16 data e, be16 data (e + 2)) (e + 4)"
        using n True assms(1) by (auto simp: question_at_def be_take)
      ultimately show thesis
        using that(1) [of "?e + 4" ?t "(ls, be16 data e, be16 data (e + 2))"] ok(2,4-6) b(4) e
        by (auto simp: slot_ok_def question_shown_def name_shown_def split: option.splits)
    next
      case False
      have "ns_dns_parse_question data len off s = Some (NS_PARSE_TRUNCATED, off, ?s)"
        using ok(1,8) False unfolding ns_dns_parse_question_def call by (simp add: ns_bounds_check_iff)
      moreover have "\<nexists>q k. question_at ?m (unat off) q k"
        using name_at_unique [OF n] False assms(1) by (fastforce simp: question_at_def)
      ultimately show thesis
        using that(2) [of NS_PARSE_TRUNCATED off ?s] ok(2) b(4) by (auto simp: slot_ok_def split: option.splits)
    qed
  qed
qed

subsection \<open>The question section\<close>

definition dns_wf :: "ns_dns_info_t \<Rightarrow> bool" where
  "dns_wf d \<longleftrightarrow> length (dns_questions d) = 4 \<and> (\<forall>q \<in> set (dns_questions d). length (q_name q) = 256) \<and>
     length (dns_answers d) = 12 \<and>
     (\<forall>r \<in> set (dns_answers d). length (rr_name r) = 256 \<and> length (rr_rdata_text r) = 263)"

text \<open>What one turn leaves: the slot filled, if there is one, and the counter moved.\<close>

definition put_question :: "ns_dns_info_t \<Rightarrow> ns_dns_question_t option \<Rightarrow> ns_dns_info_t" where
  "put_question d s = (case s of None \<Rightarrow> d
     | Some q \<Rightarrow> d\<lparr> dns_questions := (dns_questions d)[unat (dns_decoded_question_count d) := q] \<rparr>)"

definition count_question :: "ns_dns_info_t \<Rightarrow> ns_dns_question_t option \<Rightarrow> ns_dns_info_t" where
  "count_question d s = (case s of None \<Rightarrow> d
     | Some q \<Rightarrow> d\<lparr> dns_decoded_question_count := dns_decoded_question_count d + 1 \<rparr>)"

lemma put_question_wf: "dns_wf d \<Longrightarrow> slot_ok s \<Longrightarrow> dns_wf (put_question d s)"
  using set_update_subset_insert [of "dns_questions d" "unat (dns_decoded_question_count d)"]
  by (fastforce simp: dns_wf_def put_question_def slot_ok_def split: option.splits)

lemma count_question_wf [simp]: "dns_wf (count_question d s) = dns_wf d"
  by (simp add: dns_wf_def count_question_def split: option.splits)

lemma question_turn:
  assumes "i < qd" "dns_wf d" "unat (dns_decoded_question_count d) = min 4 (unat i)"
  obtains s where "slot_ok s" "s = None \<longleftrightarrow> 4 \<le> unat i"
    "\<And>st k s'. ns_dns_parse_question data len off s = Some (st, k, s') \<Longrightarrow> (s' = None \<longleftrightarrow> s = None) \<Longrightarrow>
       dns_question_loop data len qd i off d =
         (if st \<noteq> NS_PARSE_OK then Some (st, k, put_question d s')
          else dns_question_loop data len qd (i + 1) k (count_question (put_question d s') s'))"
proof (cases "unat i < 4")
  case True
  let ?c = "dns_decoded_question_count d"
  have c: "unat ?c < length (dns_questions d)" using assms(2,3) True by (simp add: dns_wf_def)
  let ?s = "Some (dns_questions d ! unat ?c)"
  have "i < NS_DNS_MAX_QUESTIONS" using True by (simp add: word_less_nat_alt)
  then have "dns_question_loop data len qd i off d =
         (if st \<noteq> NS_PARSE_OK then Some (st, k, put_question d s')
          else dns_question_loop data len qd (i + 1) k (count_question (put_question d s') s'))"
    if "ns_dns_parse_question data len off ?s = Some (st, k, s')" "s' = None \<longleftrightarrow> ?s = None" for st k s'
    using that assms(1) c
    by (subst dns_question_loop.simps) (auto simp: cmem put_question_def count_question_def)
  moreover have "slot_ok ?s" using assms(2) c by (simp add: slot_ok_def dns_wf_def)
  ultimately show thesis using that [of ?s] True by auto
next
  case False
  then have "\<not> i < NS_DNS_MAX_QUESTIONS" by (simp add: word_less_nat_alt)
  then have "dns_question_loop data len qd i off d =
         (if st \<noteq> NS_PARSE_OK then Some (st, k, put_question d s')
          else dns_question_loop data len qd (i + 1) k (count_question (put_question d s') s'))"
    if "ns_dns_parse_question data len off None = Some (st, k, s')" "s' = None \<longleftrightarrow> None = (None :: ns_dns_question_t option)" for st k s'
    using that assms(1)
    by (subst dns_question_loop.simps) (auto simp: put_question_def count_question_def)
  then show thesis using that [of None] False by (auto simp: slot_ok_def)
qed

text \<open>The fields the question loop leaves alone.\<close>

definition same_but_questions :: "ns_dns_info_t \<Rightarrow> ns_dns_info_t \<Rightarrow> bool" where
  "same_but_questions d d' \<longleftrightarrow>
     d' = d\<lparr> dns_questions := dns_questions d', dns_decoded_question_count := dns_decoded_question_count d' \<rparr>"

lemma same_but_questions_trans:
  "same_but_questions a b \<Longrightarrow> same_but_questions b c \<Longrightarrow> same_but_questions a c"
  by (cases a; cases b; cases c) (simp add: same_but_questions_def)

lemma same_but_questions_turn: "same_but_questions d (count_question (put_question d s) s)"
    "same_but_questions d (put_question d s)" "same_but_questions d d"
  by (cases d; simp add: same_but_questions_def count_question_def put_question_def split: option.splits)+

lemma stored_question:
  assumes "dns_wf d" "unat (dns_decoded_question_count d) = min 4 (unat i)"
  shows "unat j = Suc (unat i) \<Longrightarrow> (s = None \<longleftrightarrow> 4 \<le> unat i) \<Longrightarrow>
      unat (dns_decoded_question_count (count_question (put_question d s) s)) = min 4 (unat j)"
    and "n < min 4 (unat i) \<Longrightarrow> dns_questions (count_question (put_question d s) s) ! n = dns_questions d ! n"
    and "unat i < 4 \<Longrightarrow> s = Some t \<Longrightarrow> dns_questions (count_question (put_question d s) s) ! unat i = t"
proof -
  have "unat (dns_decoded_question_count d + 1) = Suc (unat i)" if "unat i < 4"
    using assms(2) that by (simp add: unat_word_ariths)
  then show "unat j = Suc (unat i) \<Longrightarrow> (s = None \<longleftrightarrow> 4 \<le> unat i) \<Longrightarrow>
      unat (dns_decoded_question_count (count_question (put_question d s) s)) = min 4 (unat j)"
    using assms(2) by (auto simp: count_question_def put_question_def split: option.splits)
qed (use assms in \<open>auto simp: count_question_def put_question_def dns_wf_def split: option.splits\<close>)

lemma dns_question_loop_at:
  assumes "unat len \<le> length data" "dns_wf d" "unat i \<le> unat qd"
    and "unat (dns_decoded_question_count d) = min 4 (unat i)"
  shows "\<exists>st k d'. dns_question_loop data len qd i off d = Some (st, k, d') \<and> dns_wf d' \<and>
    same_but_questions d d' \<and> st \<noteq> NS_PARSE_UNSUPPORTED \<and>
    (st = NS_PARSE_OK \<longrightarrow>
      (\<exists>qs. consecutive (question_at (take (unat len) data)) (unat off) qs (unat k) \<and>
       length qs = unat qd - unat i \<and> unat (dns_decoded_question_count d') = min 4 (unat qd) \<and>
       (\<forall>n < min 4 (unat i). dns_questions d' ! n = dns_questions d ! n) \<and>
       (\<forall>n < length qs. unat i + n < 4 \<longrightarrow> question_shown (dns_questions d' ! (unat i + n)) (qs ! n)))) \<and>
    (st \<noteq> NS_PARSE_OK \<longrightarrow>
      (\<nexists>qs e. consecutive (question_at (take (unat len) data)) (unat off) qs e \<and> length qs = unat qd - unat i))"
  using assms(2-4)
proof (induction "unat qd - unat i" arbitrary: i off d)
  case 0
  then have "\<not> i < qd" "unat i = unat qd" by (auto simp: word_less_nat_alt)
  with 0 show ?case
    by (subst dns_question_loop.simps) (auto simp: same_but_questions_turn consecutive.none)
next
  case (Suc c)
  let ?m = "take (unat len) data" and ?P = "question_at (take (unat len) data)"
  have i: "i < qd" "unat (i + 1) = Suc (unat i)"
    using Suc.hyps(2) unat_Suc_less [of i qd] by (auto simp: word_less_nat_alt)
  obtain s where s: "slot_ok s" "s = None \<longleftrightarrow> 4 \<le> unat i"
    "\<And>st k s'. ns_dns_parse_question data len off s = Some (st, k, s') \<Longrightarrow> (s' = None \<longleftrightarrow> s = None) \<Longrightarrow>
       dns_question_loop data len qd i off d =
         (if st \<noteq> NS_PARSE_OK then Some (st, k, put_question d s')
          else dns_question_loop data len qd (i + 1) k (count_question (put_question d s') s'))"
    using question_turn [OF i(1) Suc.prems(1,3), of data len off] by blast
  from assms(1) s(1) show ?case
  proof (cases rule: ns_dns_parse_question_at [where off = off])
    case (bad st k s')
    have "\<not> (consecutive ?P (unat off) qs e \<and> length qs = unat qd - unat i)" for qs e
      using bad(6) Suc.hyps(2) by (cases qs) auto
    then show ?thesis
      using s(3) [OF bad(1,4)] bad put_question_wf [OF Suc.prems(1) bad(5)] by (auto simp: same_but_questions_turn)
  next
    case (ok s' q k)
    define d1 where "d1 = count_question (put_question d s') s'"
    have loop: "dns_question_loop data len qd i off d = dns_question_loop data len qd (i + 1) k d1"
      using s(3) [OF ok(1,3)] by (simp add: d1_def)
    have d1: "dns_wf d1" "same_but_questions d d1"
      unfolding d1_def using put_question_wf [OF Suc.prems(1) ok(5)] by (simp_all add: same_but_questions_turn)
    note st = stored_question [OF Suc.prems(1,3), where s = s', folded d1_def]
    have c: "unat (dns_decoded_question_count d1) = min 4 (unat (i + 1))"
      using ok(3) s(2) by (intro st(1) [OF i(2)]) simp
    have c1: "c = unat qd - unat (i + 1)" and c2: "unat (i + 1) \<le> unat qd" using Suc.hyps(2) i(2) by simp_all
    obtain st' k' d' where IH: "dns_question_loop data len qd (i + 1) k d1 = Some (st', k', d')" "dns_wf d'"
      "same_but_questions d1 d'" "st' \<noteq> NS_PARSE_UNSUPPORTED"
      "st' = NS_PARSE_OK \<Longrightarrow> \<exists>qs. consecutive ?P (unat k) qs (unat k') \<and> length qs = unat qd - Suc (unat i) \<and>
         unat (dns_decoded_question_count d') = min 4 (unat qd) \<and>
         (\<forall>n < min 4 (Suc (unat i)). dns_questions d' ! n = dns_questions d1 ! n) \<and>
         (\<forall>n < length qs. Suc (unat i) + n < 4 \<longrightarrow> question_shown (dns_questions d' ! (Suc (unat i) + n)) (qs ! n))"
      "st' \<noteq> NS_PARSE_OK \<Longrightarrow> \<nexists>qs e. consecutive ?P (unat k) qs e \<and> length qs = unat qd - Suc (unat i)"
      using Suc.hyps(1) [OF c1 d1(1) c2 c, of k, unfolded i(2)] by blast
    have same: "same_but_questions d d'" using d1(2) IH(3) by (rule same_but_questions_trans)
    show ?thesis
    proof (cases "st' = NS_PARSE_OK")
      case True
      from IH(5) [OF True] obtain qs where qs: "consecutive ?P (unat k) qs (unat k')" "length qs = unat qd - Suc (unat i)"
         "unat (dns_decoded_question_count d') = min 4 (unat qd)"
         "\<And>n. n < min 4 (Suc (unat i)) \<Longrightarrow> dns_questions d' ! n = dns_questions d1 ! n"
         "\<And>n. n < length qs \<Longrightarrow> Suc (unat i) + n < 4 \<Longrightarrow> question_shown (dns_questions d' ! (Suc (unat i) + n)) (qs ! n)"
        by blast
      have "question_shown (dns_questions d' ! (unat i + n)) ((q # qs) ! n)" if "n < length (q # qs)" "unat i + n < 4" for n
        using that qs(4) [of "unat i"] qs(5) [of "n - 1"] st(3) ok(3,4) s(2) by (cases n) auto
      moreover have "dns_questions d' ! n = dns_questions d ! n" if "n < min 4 (unat i)" for n
        using that qs(4) [of n] st(2) [of n] by auto
      moreover have "consecutive ?P (unat off) (q # qs) (unat k')" using qs(1) ok(2) by auto
      ultimately show ?thesis
        unfolding loop IH(1) using True IH(2) same qs(2,3) Suc.hyps(2)
        by (intro exI [of _ st'] exI [of _ k'] exI [of _ d']) (auto intro!: exI [of _ "q # qs"] simp del: consecutive_simps)
    next
      case False
      have "\<not> (consecutive ?P (unat off) qs e \<and> length qs = unat qd - unat i)" for qs e
        using consecutive_blocked [OF ok(2) question_at_unique [OF ok(2)] IH(6) [OF False]] Suc.hyps(2) c1 i(2)
        by fastforce
      then show ?thesis unfolding loop IH(1) using False IH(2,4) same by auto
    qed
  qed
qed

subsection \<open>The answer section\<close>

text \<open>A record: labels, type, class, time to live, length and offset of the data.\<close>

type_synonym rr = "bytes list \<times> u16 \<times> u16 \<times> u32 \<times> u16 \<times> nat"

definition record_at :: "bytes \<Rightarrow> nat \<Rightarrow> rr \<Rightarrow> nat \<Rightarrow> bool" where
  "record_at m i r k \<longleftrightarrow> (\<exists>e. name_at m 256 i (fst r) e \<and> e + 10 + unat (be16 m (e + 8)) \<le> length m \<and>
     snd r = (be16 m e, be16 m (e + 2), be32 m (e + 4), be16 m (e + 8), e + 10) \<and>
     k = e + 10 + unat (be16 m (e + 8)))"

definition record_shown :: "bytes \<Rightarrow> ns_dns_record_t \<Rightarrow> rr \<Rightarrow> bool" where
  "record_shown m s r \<longleftrightarrow> name_shown (rr_name s) (fst r) \<and>
     (case snd r of (ty, cl, ttl, rdl, ro) \<Rightarrow>
        rr_type s = ty \<and> rr_class s = cl \<and> rr_ttl s = ttl \<and> rr_rdlength s = rdl \<and>
        (\<exists>t. c_str (rr_rdata_text s) = Some t \<and> rdata_shows m ty ro rdl t))"

definition record_ok :: "ns_dns_record_t \<Rightarrow> bool" where
  "record_ok s \<longleftrightarrow> length (rr_name s) = 256 \<and> length (rr_rdata_text s) = 263"

lemma record_at_unique: "record_at m i q k \<Longrightarrow> record_at m i q' k' \<Longrightarrow> q' = q \<and> k' = k"
  unfolding record_at_def by (metis name_at_unique prod.expand)

lemma ns_dns_parse_record_at:
  assumes "unat len \<le> length data" "record_ok s"
  obtains (ok) s' q k where "ns_dns_parse_record data len off (Some s) = Some (NS_PARSE_OK, k, Some s')"
      "record_at (take (unat len) data) (unat off) q (unat k)"
      "record_shown (take (unat len) data) s' q" "record_ok s'"
    | (bad) st k where "ns_dns_parse_record data len off (Some s) = Some (st, k, Some s)" "st \<noteq> NS_PARSE_OK"
      "st \<noteq> NS_PARSE_UNSUPPORTED" "\<nexists>q k. record_at (take (unat len) data) (unat off) q k"
proof -
  let ?m = "take (unat len) data" and ?b = "stack_buf 256"
  have b: "unat (256 :: size_t) = length ?b" "65 \<le> length ?b" "length ?b \<le> 65536" "length ?b = 256"
    by (simp_all add: stack_buf_def)
  from assms(1) b(1-3) show thesis
  proof (cases rule: decode_name_at [where offset = off])
    case (bad st out' eo)
    have "ns_dns_parse_record data len off (Some s) = Some (st, off, Some s)"
      using bad unfolding ns_dns_parse_record_def by simp
    moreover have "\<nexists>q k. record_at ?m (unat off) q k"
      using bad(5) b(4) by (auto simp: record_at_def)
    ultimately show thesis using that(2) bad(3,4) by blast
  next
    case (ok out' ls e)
    let ?e = "of_nat e :: size_t"
    have n: "name_at ?m 256 (unat off) ls e" using ok(3) unfolding b(4) .
    have none: "\<nexists>q k. record_at ?m (unat off) q k" if "\<not> e + 10 + unat (be16 ?m (e + 8)) \<le> unat len"
      using name_at_unique [OF n] that assms(1) by (fastforce simp: record_at_def)
    show thesis
    proof (cases "e + 10 \<le> unat len")
      case False
      then have "ns_dns_parse_record data len off (Some s) = Some (NS_PARSE_TRUNCATED, off, Some s)"
        using ok(1,8) unfolding ns_dns_parse_record_def by (simp add: ns_bounds_check_iff)
      with False show thesis using that(2) none by fastforce
    next
      case True
      let ?rdl = "be16 data (e + 8)"
      have e: "unat (?e + 2) = e + 2" "unat (?e + 4) = e + 4" "unat (?e + 8) = e + 8" "unat (?e + 10) = e + 10"
        using unat_add_le [of ?e 2 len] unat_add_le [of ?e 4 len] unat_add_le [of ?e 8 len]
          unat_add_le [of ?e 10 len] ok(8) True by simp_all
      have bs: "be16 ?m e = be16 data e" "be16 ?m (e + 2) = be16 data (e + 2)" "be32 ?m (e + 4) = be32 data (e + 4)"
        "be16 ?m (e + 8) = ?rdl" using True by (simp_all add: be_take)
      show thesis
      proof (cases "e + 10 + unat ?rdl \<le> unat len")
        case False
        then have "ns_dns_parse_record data len off (Some s) = Some (NS_PARSE_TRUNCATED, off, Some s)"
          using ok(1,8) True assms(1) e unfolding ns_dns_parse_record_def
          by (simp add: ns_bounds_check_iff cmem unat_ucast_up)
        with False show thesis using that(2) none bs(4) by fastforce
      next
        case fits: True
        have "unat (?e + 10) + unat ?rdl \<le> unat len" using fits e(4) by simp
        then obtain rd t where rd: "ns_dns_format_rdata data len (?e + 10) ?rdl (be16 data e) (rr_rdata_text s) 263 = Some rd"
          "length rd = 263" "c_str rd = Some t" "rdata_shows ?m (be16 data e) (e + 10) ?rdl t"
          using ns_dns_format_rdata_text [OF assms(1), of "rr_rdata_text s" "?e + 10" ?rdl "be16 data e"] assms(2) e(4)
          by (auto simp: record_ok_def)
        have nm: "mem_write (rr_name s) 0 out' = Some out'"
          using ok(2) b(4) assms(2) by (simp add: mem_write_def record_ok_def)
        let ?s = "s\<lparr> rr_name := out', rr_type := be16 data e, rr_class := be16 data (e + 2),
          rr_ttl := be32 data (e + 4), rr_rdlength := ?rdl, rr_rdata_text := rd \<rparr>"
        let ?q = "(ls, be16 data e, be16 data (e + 2), be32 data (e + 4), ?rdl, e + 10)"
        have k: "unat (?e + 10 + ucast ?rdl) = e + 10 + unat ?rdl"
          using unat_add_le [of "?e + 10" "ucast ?rdl" len] fits e(4) by (simp add: unat_ucast_up)
        have "ns_dns_parse_record data len off (Some s) = Some (NS_PARSE_OK, ?e + 10 + ucast ?rdl, Some ?s)"
          using ok(1,8) True fits assms(1) e rd(1) nm unfolding ns_dns_parse_record_def
          by (simp add: ns_bounds_check_iff cmem unat_ucast_up)
        moreover have "record_at ?m (unat off) ?q (e + 10 + unat ?rdl)"
          using n fits assms(1) bs by (auto simp: record_at_def)
        moreover have "record_shown ?m ?s ?q" using rd ok(2,4-6) b(4) by (auto simp: record_shown_def name_shown_def)
        ultimately show thesis
          using that(1) [of "?e + 10 + ucast ?rdl" ?s ?q] k rd(2) ok(2) b(4) by (simp add: record_ok_def)
      qed
    qed
  qed
qed

definition put_answer :: "ns_dns_info_t \<Rightarrow> ns_dns_record_t \<Rightarrow> ns_dns_info_t" where
  "put_answer d s = d\<lparr> dns_answers := (dns_answers d)[unat (dns_decoded_answer_count d) := s] \<rparr>"

definition count_answer :: "ns_dns_info_t \<Rightarrow> ns_dns_info_t" where
  "count_answer d = d\<lparr> dns_decoded_answer_count := dns_decoded_answer_count d + 1 \<rparr>"

lemma put_answer_wf: "dns_wf d \<Longrightarrow> record_ok s \<Longrightarrow> dns_wf (put_answer d s)"
  using set_update_subset_insert [of "dns_answers d" "unat (dns_decoded_answer_count d)" s]
  by (fastforce simp: dns_wf_def put_answer_def record_ok_def)

lemma count_answer_wf [simp]: "dns_wf (count_answer d) = dns_wf d"
  by (simp add: dns_wf_def count_answer_def)

definition same_but_answers :: "ns_dns_info_t \<Rightarrow> ns_dns_info_t \<Rightarrow> bool" where
  "same_but_answers d d' \<longleftrightarrow>
     d' = d\<lparr> dns_answers := dns_answers d', dns_decoded_answer_count := dns_decoded_answer_count d' \<rparr>"

lemma same_but_answers_trans:
  "same_but_answers a b \<Longrightarrow> same_but_answers b c \<Longrightarrow> same_but_answers a c"
  by (cases a; cases b; cases c) (simp add: same_but_answers_def)

lemma same_but_answers_turn: "same_but_answers d (count_answer (put_answer d s))"
    "same_but_answers d (put_answer d s)" "same_but_answers d d"
  by (cases d; simp add: same_but_answers_def count_answer_def put_answer_def)+

lemma answer_turn:
  assumes "i < an" "unat i < 12" "dns_wf d" "unat (dns_decoded_answer_count d) = unat i"
    and "ns_dns_parse_record data len off (Some (dns_answers d ! unat i)) = Some (st, k, Some s')"
  shows "dns_answer_loop data len an i off d =
    (if st \<noteq> NS_PARSE_OK then Some (st, k, put_answer d s')
     else dns_answer_loop data len an (i + 1) k (count_answer (put_answer d s')))"
proof -
  have "i < NS_DNS_MAX_ANSWERS" using assms(2) by (simp add: word_less_nat_alt)
  moreover have "unat (dns_decoded_answer_count d) < length (dns_answers d)" using assms(2-4) by (simp add: dns_wf_def)
  ultimately show ?thesis
    using assms(1,4,5) by (subst dns_answer_loop.simps) (simp add: cmem put_answer_def count_answer_def)
qed

lemma dns_answer_loop_at:
  assumes "unat len \<le> length data" "dns_wf d" "unat i \<le> min 12 (unat an)"
    and "unat (dns_decoded_answer_count d) = unat i"
  shows "\<exists>st k d'. dns_answer_loop data len an i off d = Some (st, k, d') \<and> dns_wf d' \<and>
    same_but_answers d d' \<and> st \<noteq> NS_PARSE_UNSUPPORTED \<and>
    (st = NS_PARSE_OK \<longrightarrow>
      (\<exists>rs. consecutive (record_at (take (unat len) data)) (unat off) rs (unat k) \<and>
       length rs = min 12 (unat an) - unat i \<and> unat (dns_decoded_answer_count d') = min 12 (unat an) \<and>
       (\<forall>n < unat i. dns_answers d' ! n = dns_answers d ! n) \<and>
       (\<forall>n < length rs. record_shown (take (unat len) data) (dns_answers d' ! (unat i + n)) (rs ! n)))) \<and>
    (st \<noteq> NS_PARSE_OK \<longrightarrow>
      (\<nexists>rs e. consecutive (record_at (take (unat len) data)) (unat off) rs e \<and> length rs = min 12 (unat an) - unat i))"
  using assms(2-4)
proof (induction "min 12 (unat an) - unat i" arbitrary: i off d)
  case 0
  then have eq: "unat i = min 12 (unat an)" by simp
  then have "\<not> (i < an \<and> i < NS_DNS_MAX_ANSWERS)" by (auto simp: word_less_nat_alt)
  with 0 eq show ?case
    by (subst dns_answer_loop.simps) (auto simp: same_but_answers_turn consecutive.none)
next
  case (Suc c)
  let ?m = "take (unat len) data" and ?P = "record_at (take (unat len) data)" and ?n = "min 12 (unat an)"
  have i: "i < an" "unat i < 12" "unat (i + 1) = Suc (unat i)"
    using Suc.hyps(2) unat_Suc_less [of i an] by (auto simp: word_less_nat_alt)
  have c1: "c = ?n - unat (i + 1)" and c2: "unat (i + 1) \<le> ?n" using Suc.hyps(2) i(3) by linarith+
  have s: "record_ok (dns_answers d ! unat i)" "unat i < length (dns_answers d)"
    using Suc.prems(1) i(2) by (auto simp: record_ok_def dns_wf_def)
  from assms(1) s(1) show ?case
  proof (cases rule: ns_dns_parse_record_at [where off = off])
    case (bad st k)
    have "\<not> (consecutive ?P (unat off) rs e \<and> length rs = ?n - unat i)" for rs e
      using bad(4) Suc.hyps(2) by (cases rs) auto
    then show ?thesis
      using answer_turn [OF i(1,2) Suc.prems(1,3) bad(1)] bad put_answer_wf [OF Suc.prems(1) s(1)]
      by (auto simp: same_but_answers_turn)
  next
    case (ok s' q k)
    define d1 where "d1 = count_answer (put_answer d s')"
    have loop: "dns_answer_loop data len an i off d = dns_answer_loop data len an (i + 1) k d1"
      using answer_turn [OF i(1,2) Suc.prems(1,3) ok(1)] by (simp add: d1_def)
    have d1: "dns_wf d1" "same_but_answers d d1"
      unfolding d1_def using put_answer_wf [OF Suc.prems(1) ok(4)] by (simp_all add: same_but_answers_turn)
    have st: "dns_answers d1 = (dns_answers d)[unat i := s']" "unat (dns_decoded_answer_count d1) = unat (i + 1)"
      using Suc.prems(3) i(2,3) by (simp_all add: d1_def count_answer_def put_answer_def unat_word_ariths)
    obtain st' k' d' where IH: "dns_answer_loop data len an (i + 1) k d1 = Some (st', k', d')" "dns_wf d'"
      "same_but_answers d1 d'" "st' \<noteq> NS_PARSE_UNSUPPORTED"
      "st' = NS_PARSE_OK \<Longrightarrow> \<exists>rs. consecutive ?P (unat k) rs (unat k') \<and> length rs = ?n - Suc (unat i) \<and>
         unat (dns_decoded_answer_count d') = ?n \<and>
         (\<forall>n < Suc (unat i). dns_answers d' ! n = dns_answers d1 ! n) \<and>
         (\<forall>n < length rs. record_shown ?m (dns_answers d' ! (Suc (unat i) + n)) (rs ! n))"
      "st' \<noteq> NS_PARSE_OK \<Longrightarrow> \<nexists>rs e. consecutive ?P (unat k) rs e \<and> length rs = ?n - Suc (unat i)"
      using Suc.hyps(1) [OF c1 d1(1) c2 st(2), of k, unfolded i(3)] by blast
    have same: "same_but_answers d d'" using d1(2) IH(3) by (rule same_but_answers_trans)
    show ?thesis
    proof (cases "st' = NS_PARSE_OK")
      case True
      from IH(5) [OF True] obtain rs where rs: "consecutive ?P (unat k) rs (unat k')" "length rs = ?n - Suc (unat i)"
         "unat (dns_decoded_answer_count d') = ?n"
         "\<And>n. n < Suc (unat i) \<Longrightarrow> dns_answers d' ! n = dns_answers d1 ! n"
         "\<And>n. n < length rs \<Longrightarrow> record_shown ?m (dns_answers d' ! (Suc (unat i) + n)) (rs ! n)"
        by blast
      have "record_shown ?m (dns_answers d' ! (unat i + n)) ((q # rs) ! n)" if "n < length (q # rs)" for n
        using that rs(4) [of "unat i"] rs(5) [of "n - 1"] st(1) ok(3) s(2) by (cases n) auto
      moreover have "dns_answers d' ! n = dns_answers d ! n" if "n < unat i" for n
        using that rs(4) [of n] st(1) by simp
      moreover have "consecutive ?P (unat off) (q # rs) (unat k')" using rs(1) ok(2) by auto
      ultimately show ?thesis
        unfolding loop IH(1) using True IH(2) same rs(2,3) Suc.hyps(2)
        by (intro exI [of _ st'] exI [of _ k'] exI [of _ d']) (auto intro!: exI [of _ "q # rs"] simp del: consecutive_simps)
    next
      case False
      have "\<not> (consecutive ?P (unat off) rs e \<and> length rs = ?n - unat i)" for rs e
        using consecutive_blocked [OF ok(2) record_at_unique [OF ok(2)] IH(6) [OF False]] Suc.hyps(2) c1 i(3)
        by fastforce
      then show ?thesis unfolding loop IH(1) using False IH(2,4) same by auto
    qed
  qed
qed

subsection \<open>Messages\<close>

definition dns_message :: "bytes \<Rightarrow> question list \<Rightarrow> rr list \<Rightarrow> bool" where
  "dns_message m qs rs \<longleftrightarrow> 12 \<le> length m \<and>
     (\<exists>k e. consecutive (question_at m) 12 qs k \<and> length qs = unat (be16 m 4) \<and>
            consecutive (record_at m) k rs e \<and> length rs = min 12 (unat (be16 m 6)))"

definition dns_header :: "bytes \<Rightarrow> ns_dns_info_t" where
  "dns_header m = ns_dns_zero\<lparr> dns_transaction_id := be16 m 0, dns_flags := be16 m 2,
     dns_is_response := (be16 m 2 AND 0x8000 \<noteq> 0), dns_question_count := be16 m 4,
     dns_answer_count := be16 m 6, dns_authority_count := be16 m 8, dns_additional_count := be16 m 10 \<rparr>"

text \<open>What an accepted message is stored as.\<close>

definition message_shown :: "bytes \<Rightarrow> ns_dns_info_t \<Rightarrow> question list \<Rightarrow> rr list \<Rightarrow> bool" where
  "message_shown m d qs rs \<longleftrightarrow>
     d = (dns_header m)\<lparr> dns_questions := dns_questions d, dns_answers := dns_answers d,
       dns_decoded_question_count := dns_decoded_question_count d,
       dns_decoded_answer_count := dns_decoded_answer_count d \<rparr> \<and>
     unat (dns_decoded_question_count d) = min 4 (length qs) \<and>
     unat (dns_decoded_answer_count d) = length rs \<and>
     (\<forall>i < min 4 (length qs). question_shown (dns_questions d ! i) (qs ! i)) \<and>
     (\<forall>i < length rs. record_shown m (dns_answers d ! i) (rs ! i))"

lemma consecutive_unique:
  assumes "\<And>i q k q' k'. P i q k \<Longrightarrow> P i q' k' \<Longrightarrow> q' = q \<and> k' = k"
  shows "consecutive P i xs e \<Longrightarrow> consecutive P i ys e' \<Longrightarrow> length xs = length ys \<Longrightarrow> ys = xs \<and> e' = e"
proof (induction arbitrary: ys e' rule: consecutive.induct)
  case (more i x k xs e)
  then obtain y zs k' where y: "ys = y # zs" "P i y k'" "consecutive P k' zs e'" "length zs = length xs"
    by (cases ys) auto
  with assms [OF more.hyps(1) y(2)] more.IH show ?case by simp
qed simp

lemma dns_message_unique: "dns_message m qs rs \<Longrightarrow> dns_message m qs' rs' \<Longrightarrow> qs' = qs \<and> rs' = rs"
proof -
  assume "dns_message m qs rs" "dns_message m qs' rs'"
  then obtain k e k' e' where c: "consecutive (question_at m) 12 qs k" "consecutive (question_at m) 12 qs' k'"
    "consecutive (record_at m) k rs e" "consecutive (record_at m) k' rs' e'"
    "length qs = length qs'" "length rs = length rs'" by (auto simp: dns_message_def)
  have q: "qs' = qs" "k' = k"
    using consecutive_unique [OF question_at_unique c(1,2,5)] by simp_all
  moreover have "rs' = rs"
    using consecutive_unique [OF record_at_unique c(3) c(4) [unfolded q(2)] c(6)] by simp
  ultimately show ?thesis by simp
qed

lemma dns_header_wf: "dns_wf (dns_header m)" "dns_decoded_question_count (dns_header m) = 0"
    "dns_decoded_answer_count (dns_header m) = 0"
  by (auto simp: dns_header_def dns_wf_def ns_dns_zero_def ns_dns_question_zero_def ns_dns_record_zero_def)

lemma ns_parse_dns_steps:
  assumes "unat len \<le> length data" "12 \<le> unat len"
  shows "ns_parse_dns data len out = do {
     (status, offset, d) \<leftarrow> dns_question_loop data len (be16 data 4) 0 12 (dns_header data);
     if status \<noteq> NS_PARSE_OK then Some (status, d)
     else do { (status, offset, d) \<leftarrow> dns_answer_loop data len (be16 data 6) 0 offset d; Some (status, d) } }"
  using assms by (simp add: ns_parse_dns_def ns_bounds_check_iff cmem dns_header_def)

lemma dns_header_take: "12 \<le> n \<Longrightarrow> dns_header (take n data) = dns_header data"
  by (simp add: dns_header_def be_take)

lemma same_but_questions_answers:
  "same_but_questions d d' \<Longrightarrow> dns_decoded_answer_count d' = dns_decoded_answer_count d"
  by (cases d; cases d') (simp add: same_but_questions_def)

lemma same_sections:
  assumes "same_but_questions h d" "same_but_answers d d'"
  shows "d' = h\<lparr> dns_questions := dns_questions d', dns_answers := dns_answers d',
       dns_decoded_question_count := dns_decoded_question_count d',
       dns_decoded_answer_count := dns_decoded_answer_count d' \<rparr>"
    and "dns_questions d' = dns_questions d" "dns_decoded_question_count d' = dns_decoded_question_count d"
  using assms by (cases h; cases d; cases d'; simp add: same_but_questions_def same_but_answers_def)+

lemma ns_parse_dns_at:
  assumes "unat len \<le> length data"
  obtains (short) "unat len < 12" "ns_parse_dns data len out = Some (NS_PARSE_TRUNCATED, out)"
    | (ok) d qs rs where "ns_parse_dns data len out = Some (NS_PARSE_OK, d)"
      "dns_message (take (unat len) data) qs rs" "message_shown (take (unat len) data) d qs rs" "dns_wf d"
    | (bad) st d where "ns_parse_dns data len out = Some (st, d)" "st \<noteq> NS_PARSE_OK" "st \<noteq> NS_PARSE_UNSUPPORTED"
      "\<nexists>qs rs. dns_message (take (unat len) data) qs rs" "dns_wf d"
proof (cases "12 \<le> unat len")
  case False
  then show thesis using short by (simp add: ns_parse_dns_def ns_bounds_check_iff)
next
  case True
  let ?m = "take (unat len) data"
  have cnt: "be16 ?m 4 = be16 data 4" "be16 ?m 6 = be16 data 6" "length ?m = unat len"
    using True assms by (simp_all add: be_take)
  note steps = ns_parse_dns_steps [OF assms True, of out]
  obtain st k d where q: "dns_question_loop data len (be16 data 4) 0 12 (dns_header data) = Some (st, k, d)"
    "dns_wf d" "same_but_questions (dns_header data) d" "st \<noteq> NS_PARSE_UNSUPPORTED"
    "st = NS_PARSE_OK \<Longrightarrow> \<exists>qs. consecutive (question_at ?m) 12 qs (unat k) \<and> length qs = unat (be16 data 4) \<and>
       unat (dns_decoded_question_count d) = min 4 (unat (be16 data 4)) \<and>
       (\<forall>n < length qs. n < 4 \<longrightarrow> question_shown (dns_questions d ! n) (qs ! n))"
    "st \<noteq> NS_PARSE_OK \<Longrightarrow> \<nexists>qs e. consecutive (question_at ?m) 12 qs e \<and> length qs = unat (be16 data 4)"
    using dns_question_loop_at [OF assms, of "dns_header data" 0 "be16 data 4" 12] by (auto simp: dns_header_wf)
  show thesis
  proof (cases "st = NS_PARSE_OK")
    case False
    then have "\<nexists>qs rs. dns_message ?m qs rs" using q(6) cnt unfolding dns_message_def by auto
    with False q steps bad show thesis by simp
  next
    case st: True
    from q(5) [OF st] obtain qs where qs: "consecutive (question_at ?m) 12 qs (unat k)" "length qs = unat (be16 data 4)"
       "unat (dns_decoded_question_count d) = min 4 (unat (be16 data 4))"
       "\<And>n. n < length qs \<Longrightarrow> n < 4 \<Longrightarrow> question_shown (dns_questions d ! n) (qs ! n)" by blast
    have "dns_decoded_answer_count d = 0"
      using same_but_questions_answers [OF q(3)] by (simp add: dns_header_wf)
    then obtain st' k' d' where a: "dns_answer_loop data len (be16 data 6) 0 k d = Some (st', k', d')"
      "dns_wf d'" "same_but_answers d d'" "st' \<noteq> NS_PARSE_UNSUPPORTED"
      "st' = NS_PARSE_OK \<Longrightarrow> \<exists>rs. consecutive (record_at ?m) (unat k) rs (unat k') \<and>
         length rs = min 12 (unat (be16 data 6)) \<and> unat (dns_decoded_answer_count d') = min 12 (unat (be16 data 6)) \<and>
         (\<forall>n < length rs. record_shown ?m (dns_answers d' ! n) (rs ! n))"
      "st' \<noteq> NS_PARSE_OK \<Longrightarrow> \<nexists>rs e. consecutive (record_at ?m) (unat k) rs e \<and> length rs = min 12 (unat (be16 data 6))"
      using dns_answer_loop_at [OF assms q(2), of 0 "be16 data 6" k] by auto
    have res: "ns_parse_dns data len out = Some (st', d')" using steps q(1) st a(1) by simp
    show thesis
    proof (cases "st' = NS_PARSE_OK")
      case True
      from a(5) [OF True] obtain rs where rs: "consecutive (record_at ?m) (unat k) rs (unat k')"
        "length rs = min 12 (unat (be16 data 6))" "unat (dns_decoded_answer_count d') = min 12 (unat (be16 data 6))"
        "\<And>n. n < length rs \<Longrightarrow> record_shown ?m (dns_answers d' ! n) (rs ! n)" by blast
      have "dns_message ?m qs rs"
        unfolding dns_message_def cnt using qs(1,2) rs(1,2) \<open>12 \<le> unat len\<close> by blast
      moreover have "message_shown ?m d' qs rs"
        unfolding message_shown_def dns_header_take [OF \<open>12 \<le> unat len\<close>]
        using same_sections [OF q(3) a(3)] qs(2-4) rs(2-4) by auto
      ultimately show thesis using ok res a(2) True by blast
    next
      case False
      have "\<not> dns_message ?m qs' rs" for qs' rs
      proof
        assume "dns_message ?m qs' rs"
        then obtain k1 e where m: "consecutive (question_at ?m) 12 qs' k1" "length qs' = unat (be16 data 4)"
          "consecutive (record_at ?m) k1 rs e" "length rs = min 12 (unat (be16 data 6))"
          unfolding dns_message_def cnt by blast
        have "k1 = unat k" using consecutive_unique [OF question_at_unique qs(1) m(1)] qs(2) m(2) by simp
        with a(6) [OF False] m(3,4) show False by blast
      qed
      with bad res False a(2,4) show thesis by blast
    qed
  qed
qed

subsection \<open>A query written by a sender\<close>

definition question_bytes :: "question \<Rightarrow> bytes" where
  "question_bytes q = dns_encode (fst q) @ to_be 2 (unat (fst (snd q))) @ to_be 2 (unat (snd (snd q)))"

definition question_wf :: "question \<Rightarrow> bool" where
  "question_wf q \<longleftrightarrow> (\<forall>l \<in> set (fst q). l \<noteq> [] \<and> length l < 64) \<and> dns_name_fits (fst q) 256"

definition dns_query_bytes :: "u16 \<Rightarrow> u16 \<Rightarrow> question list \<Rightarrow> bytes" where
  "dns_query_bytes txn flags qs = to_be 2 (unat txn) @ to_be 2 (unat flags) @ to_be 2 (length qs) @
     to_be 2 0 @ to_be 2 0 @ to_be 2 0 @ concat (map question_bytes qs)"

lemma question_at_bytes:
  assumes "question_wf q"
  shows "question_at (pre @ question_bytes q @ post) (length pre) q (length pre + length (question_bytes q))"
proof -
  let ?m = "pre @ question_bytes q @ post" and ?e = "length pre + length (dns_encode (fst q))"
  obtain ls ty cl where q: "q = (ls, ty, cl)" by (cases q)
  have "dns_name ?m (length pre) 0 ls ?e"
    using dns_name_encode [of ls pre "to_be 2 (unat ty) @ to_be 2 (unat cl) @ post"] assms
    by (simp add: question_wf_def question_bytes_def q)
  then have "name_at ?m 256 (length pre) ls ?e" using assms by (auto simp: name_at_def question_wf_def q)
  moreover have "be16 ?m ?e = ty" "be16 ?m (?e + 2) = cl"
    by (simp_all add: question_bytes_def q wire)
  ultimately show ?thesis
    unfolding question_at_def by (intro exI [of _ ?e]) (simp add: question_bytes_def q)
qed

lemma consecutive_questions:
  "\<forall>q \<in> set qs. question_wf q \<Longrightarrow>
     consecutive (question_at (pre @ concat (map question_bytes qs) @ post)) (length pre) qs
       (length pre + length (concat (map question_bytes qs)))"
proof (induction qs arbitrary: pre)
  case Nil
  then show ?case by simp
next
  case (Cons q qs)
  have "question_at (pre @ question_bytes q @ concat (map question_bytes qs) @ post) (length pre) q
      (length (pre @ question_bytes q))"
    using question_at_bytes [of q pre "concat (map question_bytes qs) @ post"] Cons.prems by simp
  with Cons.IH [of "pre @ question_bytes q"] Cons.prems show ?case by (auto simp: add.assoc)
qed

lemma dns_message_query:
  assumes "\<forall>q \<in> set qs. question_wf q" "length qs < 65536"
  shows "dns_message (dns_query_bytes txn flags qs) qs []"
proof -
  let ?h = "to_be 2 (unat txn) @ to_be 2 (unat flags) @ to_be 2 (length qs) @ to_be 2 0 @ to_be 2 0 @ to_be 2 0"
  let ?m = "dns_query_bytes txn flags qs"
  have m: "?m = ?h @ concat (map question_bytes qs) @ []" by (simp add: dns_query_bytes_def)
  have "consecutive (question_at ?m) 12 qs (length ?h + length (concat (map question_bytes qs)))"
    using consecutive_questions [OF assms(1), of ?h "[]"] unfolding m by simp
  moreover have "be16 ?m 4 = of_nat (length qs)" "be16 ?m 6 = 0" by (simp_all add: dns_query_bytes_def wire)
  moreover have "12 \<le> length ?m" by (simp add: dns_query_bytes_def)
  ultimately show ?thesis using assms(2) by (auto simp: dns_message_def unat_of_nat consecutive.none)
qed

lemma ns_parse_dns_query:
  assumes "\<forall>q \<in> set qs. question_wf q" "length qs < 65536" "unat len = length (dns_query_bytes txn flags qs)"
  shows "\<exists>d. ns_parse_dns (dns_query_bytes txn flags qs) len out = Some (NS_PARSE_OK, d) \<and>
    message_shown (dns_query_bytes txn flags qs) d qs [] \<and> dns_transaction_id d = txn \<and> dns_flags d = flags"
proof -
  let ?m = "dns_query_bytes txn flags qs"
  have m: "dns_message ?m qs []" using dns_message_query [OF assms(1,2)] .
  have le: "unat len \<le> length ?m" and tk: "take (unat len) ?m = ?m" using assms(3) by simp_all
  from le show ?thesis
  proof (cases rule: ns_parse_dns_at [where out = out])
    case short
    then show ?thesis using assms(3) by (simp add: dns_query_bytes_def)
  next
    case (bad st d)
    then show ?thesis using m tk by simp
  next
    case (ok d qs' rs)
    then have sh: "message_shown ?m d qs []" using dns_message_unique [OF m, of qs' rs] tk by simp
    then have "dns_transaction_id d = be16 ?m 0 \<and> dns_flags d = be16 ?m 2"
      by (cases d) (simp add: message_shown_def dns_header_def)
    moreover have "be16 ?m 0 = txn" "be16 ?m 2 = flags" by (simp_all add: dns_query_bytes_def wire)
    ultimately show ?thesis using ok(1) sh by simp
  qed
qed

subsection \<open>Properties\<close>

text \<open>C12: \<open>ns_parse_dns\<close> accepts exactly the DNS messages. It is defined on every captured
  buffer; it succeeds if and only if the header, all \<open>qdcount\<close> questions and the first
  \<open>min(12, ancount)\<close> answers are there, one after the other, with names that can be decoded;
  and then the header fields, the first four questions and those answers are stored as they are in
  the message, with exactly that many counted as decoded.\<close>

theorem dns_parse_exact:
  assumes "unat len \<le> length data"
  shows "\<exists>st d. ns_parse_dns data len out = Some (st, d) \<and>
    (st = NS_PARSE_OK \<longleftrightarrow> (\<exists>qs rs. dns_message (take (unat len) data) qs rs)) \<and>
    (\<forall>qs rs. dns_message (take (unat len) data) qs rs \<longrightarrow> message_shown (take (unat len) data) d qs rs)"
  using assms
proof (cases rule: ns_parse_dns_at [where out = out])
  case short
  then have "\<nexists>qs rs. dns_message (take (unat len) data) qs rs" by (simp add: dns_message_def)
  with short show ?thesis by auto
next
  case (ok d qs rs)
  then show ?thesis using dns_message_unique [OF ok(2)] by blast
next
  case (bad st d)
  then show ?thesis by blast
qed

theorem dns_parse_exact_witness:
  "\<exists>d. ns_parse_dns (dns_query_bytes 7 0x0100 [([[0x61]], 1, 1)]) 19 ns_dns_zero = Some (NS_PARSE_OK, d) \<and>
     unat (dns_decoded_question_count d) = 1"
proof -
  let ?m = "dns_query_bytes 7 0x0100 [([[0x61]], 1, 1)]"
  have len: "unat (19 :: size_t) = length ?m" by (simp add: dns_query_bytes_def question_bytes_def)
  have "question_wf ([[0x61]], 1, 1)" by (simp add: question_wf_def dns_name_fits_def dns_text_def)
  then have m: "dns_message (take (unat (19 :: size_t)) ?m) [([[0x61]], 1, 1)] []"
    unfolding len using dns_message_query [of "[([[0x61]], 1, 1)]"] by simp
  from dns_parse_exact [of 19 ?m ns_dns_zero] m len show ?thesis
    by (fastforce simp: message_shown_def)
qed

text \<open>A query of up to 65535 questions written without compression is read back: transaction id,
  flags and the first four questions.\<close>

lemma dns_query_roundtrip:
  assumes "\<forall>q \<in> set qs. question_wf q" "length qs < 65536" "unat len = length (dns_query_bytes txn flags qs)"
  shows "\<exists>d. ns_parse_dns (dns_query_bytes txn flags qs) len out = Some (NS_PARSE_OK, d) \<and>
    dns_transaction_id d = txn \<and> dns_flags d = flags \<and> unat (dns_decoded_question_count d) = min 4 (length qs) \<and>
    (\<forall>i < min 4 (length qs). c_str (q_name (dns_questions d ! i)) = Some (cut_nul (dns_text (fst (qs ! i)))) \<and>
       (q_type (dns_questions d ! i), q_class (dns_questions d ! i)) = snd (qs ! i))"
proof -
  obtain d where d: "ns_parse_dns (dns_query_bytes txn flags qs) len out = Some (NS_PARSE_OK, d)"
    "message_shown (dns_query_bytes txn flags qs) d qs []" "dns_transaction_id d = txn" "dns_flags d = flags"
    using ns_parse_dns_query [OF assms] by blast
  have "c_str (q_name (dns_questions d ! i)) = Some (cut_nul (dns_text (fst (qs ! i)))) \<and>
       (q_type (dns_questions d ! i), q_class (dns_questions d ! i)) = snd (qs ! i)" if "i < min 4 (length qs)" for i
  proof -
    have "question_shown (dns_questions d ! i) (qs ! i)" using d(2) that by (auto simp: message_shown_def)
    then show ?thesis using holds_cut by (auto simp: question_shown_def name_shown_def)
  qed
  with d show ?thesis by (auto simp: message_shown_def)
qed

lemma dns_query_roundtrip_example:
  "\<exists>d. ns_parse_dns (dns_query_bytes 7 0x0100 [([[0x61]], 1, 1)]) 19 ns_dns_zero = Some (NS_PARSE_OK, d) \<and>
     c_str (q_name (dns_questions d ! 0)) = Some ''a'' \<and> dns_transaction_id d = 7"
proof -
  have wf: "\<forall>q \<in> set [([[0x61]], 1, 1)]. question_wf q"
    by (simp add: question_wf_def dns_name_fits_def dns_text_def)
  have len: "unat (19 :: size_t) = length (dns_query_bytes 7 0x0100 [([[0x61]], 1, 1)])"
    by (simp add: dns_query_bytes_def question_bytes_def)
  have "cut_nul (dns_text [[0x61]]) = ''a''" by code_simp
  with dns_query_roundtrip [OF wf _ len, of ns_dns_zero] show ?thesis by auto
qed

end
