(* ===== verification/NS_Packet.thy ===== *)
theory NS_Packet
  imports NS_Ethernet NS_Arp NS_Ipv4 NS_Ipv6 NS_Tcp NS_Udp NS_Icmp NS_Dns_Message
begin

section \<open>packet.c: decoding a captured frame\<close>

text \<open>
  \<open>ns_packet_parse\<close> and its helpers. The two unions of \<open>ns_packet_t\<close> are datatypes that
  remember which member was written last; all members of zeroed memory are zero, and reading a
  member other than the one written is undefined. \<open>payload\<close> is a pointer into the captured
  buffer (the rest of the list) or \<open>NULL\<close>.
\<close>

record ns_timestamp_t =
  ts_seconds :: "64 word"
  ts_microseconds :: "32 word"

datatype ns_link_type_t = NS_LINK_UNKNOWN | NS_LINK_ETHERNET

datatype ns_proto_t =
  NS_PROTO_UNKNOWN | NS_PROTO_ARP | NS_PROTO_IPV4 | NS_PROTO_IPV6 | NS_PROTO_TCP | NS_PROTO_UDP |
  NS_PROTO_ICMP | NS_PROTO_ICMPV6 | NS_PROTO_DNS

datatype net_union = Net_zero | Net_arp ns_arp_info_t | Net_ipv4 ns_ipv4_info_t | Net_ipv6 ns_ipv6_info_t

datatype transport_union =
  Tr_zero | Tr_tcp ns_tcp_info_t | Tr_udp ns_udp_info_t | Tr_icmp ns_icmp_info_t | Tr_icmpv6 ns_icmpv6_info_t

definition net_arp :: "net_union \<Rightarrow> ns_arp_info_t option" where
  "net_arp u = (case u of Net_zero \<Rightarrow> Some ns_arp_zero | Net_arp i \<Rightarrow> Some i | _ \<Rightarrow> None)"

definition net_ipv4 :: "net_union \<Rightarrow> ns_ipv4_info_t option" where
  "net_ipv4 u = (case u of Net_zero \<Rightarrow> Some ns_ipv4_zero | Net_ipv4 i \<Rightarrow> Some i | _ \<Rightarrow> None)"

definition net_ipv6 :: "net_union \<Rightarrow> ns_ipv6_info_t option" where
  "net_ipv6 u = (case u of Net_zero \<Rightarrow> Some ns_ipv6_zero | Net_ipv6 i \<Rightarrow> Some i | _ \<Rightarrow> None)"

definition tr_tcp :: "transport_union \<Rightarrow> ns_tcp_info_t option" where
  "tr_tcp u = (case u of Tr_zero \<Rightarrow> Some ns_tcp_zero | Tr_tcp i \<Rightarrow> Some i | _ \<Rightarrow> None)"

definition tr_udp :: "transport_union \<Rightarrow> ns_udp_info_t option" where
  "tr_udp u = (case u of Tr_zero \<Rightarrow> Some ns_udp_zero | Tr_udp i \<Rightarrow> Some i | _ \<Rightarrow> None)"

definition tr_icmp :: "transport_union \<Rightarrow> ns_icmp_info_t option" where
  "tr_icmp u = (case u of Tr_zero \<Rightarrow> Some ns_icmp_zero | Tr_icmp i \<Rightarrow> Some i | _ \<Rightarrow> None)"

definition tr_icmpv6 :: "transport_union \<Rightarrow> ns_icmpv6_info_t option" where
  "tr_icmpv6 u = (case u of Tr_zero \<Rightarrow> Some ns_icmpv6_zero | Tr_icmpv6 i \<Rightarrow> Some i | _ \<Rightarrow> None)"

lemmas union_views = net_arp_def net_ipv4_def net_ipv6_def tr_tcp_def tr_udp_def tr_icmp_def tr_icmpv6_def

record ns_packet_t =
  pkt_number :: u64
  pkt_timestamp :: ns_timestamp_t
  pkt_captured_length :: size_t
  pkt_original_length :: size_t
  pkt_raw_data :: "bytes option"
  pkt_link_type :: ns_link_type_t
  pkt_has_eth :: bool
  pkt_eth :: ns_eth_info_t
  pkt_network_proto :: ns_proto_t
  pkt_net :: net_union
  pkt_transport_proto :: ns_proto_t
  pkt_transport :: transport_union
  pkt_has_dns :: bool
  pkt_dns :: ns_dns_info_t
  pkt_payload :: "bytes option"
  pkt_payload_length :: size_t
  pkt_malformed :: bool
  pkt_malformed_reason :: "string option"

definition ns_packet_zero :: ns_packet_t where
  "ns_packet_zero = \<lparr> pkt_number = 0, pkt_timestamp = \<lparr> ts_seconds = 0, ts_microseconds = 0 \<rparr>,
     pkt_captured_length = 0, pkt_original_length = 0, pkt_raw_data = None,
     pkt_link_type = NS_LINK_UNKNOWN, pkt_has_eth = False, pkt_eth = ns_eth_zero,
     pkt_network_proto = NS_PROTO_UNKNOWN, pkt_net = Net_zero,
     pkt_transport_proto = NS_PROTO_UNKNOWN, pkt_transport = Tr_zero, pkt_has_dns = False,
     pkt_dns = ns_dns_zero, pkt_payload = None, pkt_payload_length = 0, pkt_malformed = False,
     pkt_malformed_reason = None \<rparr>"

definition ns_packet_mark_malformed :: "ns_packet_t \<Rightarrow> string \<Rightarrow> ns_packet_t" where
  "ns_packet_mark_malformed out reason =
     out\<lparr> pkt_malformed := True, pkt_malformed_reason := Some reason \<rparr>"

definition ns_packet_set_payload :: "ns_packet_t \<Rightarrow> bytes \<Rightarrow> size_t \<Rightarrow> size_t \<Rightarrow> ns_packet_t option" where
  "ns_packet_set_payload out data len offset =
     (if offset > len then Some (out\<lparr> pkt_payload := None, pkt_payload_length := 0 \<rparr>)
      else do {
        p \<leftarrow> ptr_add data offset;
        Some (out\<lparr> pkt_payload := Some p, pkt_payload_length := len - offset \<rparr>) })"

definition ns_packet_parse_dns_if_applicable ::
  "ns_packet_t \<Rightarrow> bytes \<Rightarrow> size_t \<Rightarrow> size_t \<Rightarrow> u16 \<Rightarrow> u16 \<Rightarrow> ns_packet_t option" where
  "ns_packet_parse_dns_if_applicable out data len offset src_port dst_port =
     (if src_port \<noteq> 53 \<and> dst_port \<noteq> 53 then Some out
      else if offset > len then Some out
      else do {
        p \<leftarrow> ptr_add data offset;
        (status, d) \<leftarrow> ns_parse_dns p (len - offset) (pkt_dns out);
        let out = out\<lparr> pkt_dns := d \<rparr>;
        Some (if status = NS_PARSE_OK then out\<lparr> pkt_has_dns := True \<rparr> else out) })"

abbreviation NS_IP_PROTO_ICMP :: u8 where "NS_IP_PROTO_ICMP \<equiv> 1"
abbreviation NS_IP_PROTO_TCP :: u8 where "NS_IP_PROTO_TCP \<equiv> 6"
abbreviation NS_IP_PROTO_UDP :: u8 where "NS_IP_PROTO_UDP \<equiv> 17"
abbreviation NS_IP_PROTO_ICMPV6 :: u8 where "NS_IP_PROTO_ICMPV6 \<equiv> 58"

definition ns_packet_parse_transport ::
  "ns_packet_t \<Rightarrow> bytes \<Rightarrow> size_t \<Rightarrow> size_t \<Rightarrow> u8 \<Rightarrow> ns_packet_t option" where
  "ns_packet_parse_transport out data len offset proto =
     (if proto = NS_IP_PROTO_TCP then do {
        p \<leftarrow> ptr_add data offset;
        u \<leftarrow> tr_tcp (pkt_transport out);
        (status, i, header_len) \<leftarrow> ns_parse_tcp p (len - offset) u;
        let out = out\<lparr> pkt_transport := Tr_tcp i \<rparr>;
        if status = NS_PARSE_OK then do {
          let out = out\<lparr> pkt_transport_proto := NS_PROTO_TCP \<rparr>;
          header_len \<leftarrow> header_len;
          out \<leftarrow> ns_packet_set_payload out data len (offset + header_len);
          i \<leftarrow> tr_tcp (pkt_transport out);
          ns_packet_parse_dns_if_applicable out data len (offset + header_len)
            (tcp_source_port i) (tcp_destination_port i) }
        else if status = NS_PARSE_TRUNCATED
        then Some (ns_packet_mark_malformed out ''TCP header truncated'')
        else Some (ns_packet_mark_malformed out ''TCP header inconsistent'') }
      else if proto = NS_IP_PROTO_UDP then do {
        p \<leftarrow> ptr_add data offset;
        u \<leftarrow> tr_udp (pkt_transport out);
        (status, i) \<leftarrow> ns_parse_udp p (len - offset) u;
        let out = out\<lparr> pkt_transport := Tr_udp i \<rparr>;
        if status = NS_PARSE_OK then do {
          let out = out\<lparr> pkt_transport_proto := NS_PROTO_UDP \<rparr>;
          let app_offset = offset + 8;
          out \<leftarrow> ns_packet_set_payload out data len app_offset;
          i \<leftarrow> tr_udp (pkt_transport out);
          ns_packet_parse_dns_if_applicable out data len app_offset
            (udp_source_port i) (udp_destination_port i) }
        else if status = NS_PARSE_TRUNCATED
        then Some (ns_packet_mark_malformed out ''UDP header truncated'')
        else Some (ns_packet_mark_malformed out ''UDP header inconsistent'') }
      else if proto = NS_IP_PROTO_ICMP then do {
        p \<leftarrow> ptr_add data offset;
        u \<leftarrow> tr_icmp (pkt_transport out);
        (status, i) \<leftarrow> ns_parse_icmp p (len - offset) u;
        let out = out\<lparr> pkt_transport := Tr_icmp i \<rparr>;
        Some (if status = NS_PARSE_OK then out\<lparr> pkt_transport_proto := NS_PROTO_ICMP \<rparr>
              else ns_packet_mark_malformed out ''ICMP header truncated'') }
      else if proto = NS_IP_PROTO_ICMPV6 then do {
        p \<leftarrow> ptr_add data offset;
        u \<leftarrow> tr_icmpv6 (pkt_transport out);
        (status, i) \<leftarrow> ns_parse_icmpv6 p (len - offset) u;
        let out = out\<lparr> pkt_transport := Tr_icmpv6 i \<rparr>;
        Some (if status = NS_PARSE_OK then out\<lparr> pkt_transport_proto := NS_PROTO_ICMPV6 \<rparr>
              else ns_packet_mark_malformed out ''ICMPv6 header truncated'') }
      else Some out)"

definition ns_packet_parse_ipv4 :: "ns_packet_t \<Rightarrow> bytes \<Rightarrow> size_t \<Rightarrow> size_t \<Rightarrow> ns_packet_t option" where
  "ns_packet_parse_ipv4 out data len offset = do {
     p \<leftarrow> ptr_add data offset;
     u \<leftarrow> net_ipv4 (pkt_net out);
     (status, i, header_len) \<leftarrow> ns_parse_ipv4 p (len - offset) u;
     let out = out\<lparr> pkt_net := Net_ipv4 i \<rparr>;
     if status = NS_PARSE_TRUNCATED then Some (ns_packet_mark_malformed out ''IPv4 header truncated'')
     else if status \<noteq> NS_PARSE_OK then Some (ns_packet_mark_malformed out ''IPv4 header inconsistent'')
     else do {
       let out = out\<lparr> pkt_network_proto := NS_PROTO_IPV4 \<rparr>;
       header_len \<leftarrow> header_len;
       let transport_offset = offset + header_len;
       out \<leftarrow> ns_packet_set_payload out data len transport_offset;
       i \<leftarrow> net_ipv4 (pkt_net out);
       if ip4_is_fragment i \<and> \<not> ip4_is_initial_fragment i then Some out
       else ns_packet_parse_transport out data len transport_offset (ip4_protocol i) } }"

definition ns_packet_parse_ipv6 :: "ns_packet_t \<Rightarrow> bytes \<Rightarrow> size_t \<Rightarrow> size_t \<Rightarrow> ns_packet_t option" where
  "ns_packet_parse_ipv6 out data len offset = do {
     p \<leftarrow> ptr_add data offset;
     u \<leftarrow> net_ipv6 (pkt_net out);
     (status, i, header_len) \<leftarrow> ns_parse_ipv6 p (len - offset) u;
     let out = out\<lparr> pkt_net := Net_ipv6 i \<rparr>;
     if status = NS_PARSE_TRUNCATED then Some (ns_packet_mark_malformed out ''IPv6 header truncated'')
     else if status \<noteq> NS_PARSE_OK then Some (ns_packet_mark_malformed out ''IPv6 header inconsistent'')
     else do {
       let out = out\<lparr> pkt_network_proto := NS_PROTO_IPV6 \<rparr>;
       header_len \<leftarrow> header_len;
       let ext_offset = offset + header_len;
       i \<leftarrow> net_ipv6 (pkt_net out);
       (skipped, ext_offset, next_header) \<leftarrow>
         ns_ipv6_skip_extension_headers data len ext_offset (ip6_next_header i);
       if \<not> skipped
       then ns_packet_set_payload (ns_packet_mark_malformed out ''IPv6 extension header chain invalid'')
              data len ext_offset
       else do {
         out \<leftarrow> ns_packet_set_payload out data len ext_offset;
         ns_packet_parse_transport out data len ext_offset next_header } } }"

definition ns_packet_parse_arp :: "ns_packet_t \<Rightarrow> bytes \<Rightarrow> size_t \<Rightarrow> size_t \<Rightarrow> ns_packet_t option" where
  "ns_packet_parse_arp out data len offset = do {
     p \<leftarrow> ptr_add data offset;
     u \<leftarrow> net_arp (pkt_net out);
     (status, i) \<leftarrow> ns_parse_arp p (len - offset) u;
     let out = out\<lparr> pkt_net := Net_arp i \<rparr>;
     let out = (if status = NS_PARSE_OK then out\<lparr> pkt_network_proto := NS_PROTO_ARP \<rparr>
                else if status = NS_PARSE_TRUNCATED
                then ns_packet_mark_malformed out ''ARP packet truncated''
                else out);
     ns_packet_set_payload out data len offset }"

definition ns_packet_parse ::
  "bytes \<Rightarrow> size_t \<Rightarrow> size_t \<Rightarrow> ns_timestamp_t \<Rightarrow> u64 \<Rightarrow> ns_link_type_t \<Rightarrow> ns_packet_t option" where
  "ns_packet_parse data captured_length original_length timestamp number link_type = do {
     let out = ns_packet_zero\<lparr> pkt_number := number, pkt_timestamp := timestamp,
       pkt_captured_length := captured_length, pkt_original_length := original_length,
       pkt_raw_data := Some data, pkt_link_type := link_type, pkt_payload := Some data,
       pkt_payload_length := captured_length \<rparr>;
     if link_type \<noteq> NS_LINK_ETHERNET then Some out
     else do {
       (status, eth, offset) \<leftarrow> ns_parse_ethernet data captured_length (pkt_eth out);
       let out = out\<lparr> pkt_eth := eth \<rparr>;
       if status \<noteq> NS_PARSE_OK then Some (ns_packet_mark_malformed out ''Ethernet header truncated'')
       else do {
         let out = out\<lparr> pkt_has_eth := True \<rparr>;
         offset \<leftarrow> offset;
         out \<leftarrow> ns_packet_set_payload out data captured_length offset;
         if eth_ethertype (pkt_eth out) = NS_ETHERTYPE_IPV4
         then ns_packet_parse_ipv4 out data captured_length offset
         else if eth_ethertype (pkt_eth out) = NS_ETHERTYPE_IPV6
         then ns_packet_parse_ipv6 out data captured_length offset
         else if eth_ethertype (pkt_eth out) = NS_ETHERTYPE_ARP
         then ns_packet_parse_arp out data captured_length offset
         else Some out } } }"

definition ns_proto_name :: "ns_proto_t \<Rightarrow> string" where
  "ns_proto_name proto = (case proto of
     NS_PROTO_ARP \<Rightarrow> ''ARP'' | NS_PROTO_IPV4 \<Rightarrow> ''IPv4'' | NS_PROTO_IPV6 \<Rightarrow> ''IPv6''
   | NS_PROTO_TCP \<Rightarrow> ''TCP'' | NS_PROTO_UDP \<Rightarrow> ''UDP'' | NS_PROTO_ICMP \<Rightarrow> ''ICMP''
   | NS_PROTO_ICMPV6 \<Rightarrow> ''ICMPv6'' | NS_PROTO_DNS \<Rightarrow> ''DNS'' | NS_PROTO_UNKNOWN \<Rightarrow> ''Unknown'')"

subsection \<open>What a decoded packet looks like\<close>

definition payload_at :: "bytes \<Rightarrow> size_t \<Rightarrow> nat \<Rightarrow> ns_packet_t \<Rightarrow> bool" where
  "payload_at data len off p \<longleftrightarrow> off \<le> unat len \<and> pkt_payload p = Some (drop off data) \<and>
     unat (pkt_payload_length p) = unat len - off"

text \<open>The captured bytes the payload pointer and length describe.\<close>

definition captured_payload :: "ns_packet_t \<Rightarrow> bytes" where
  "captured_payload p = (case pkt_payload p of None \<Rightarrow> [] | Some d \<Rightarrow> take (unat (pkt_payload_length p)) d)"

definition port_53 :: "ns_packet_t \<Rightarrow> bool" where
  "port_53 p \<longleftrightarrow> (case pkt_transport p of
     Tr_tcp i \<Rightarrow> pkt_transport_proto p = NS_PROTO_TCP \<and> (tcp_source_port i = 53 \<or> tcp_destination_port i = 53)
   | Tr_udp i \<Rightarrow> pkt_transport_proto p = NS_PROTO_UDP \<and> (udp_source_port i = 53 \<or> udp_destination_port i = 53)
   | _ \<Rightarrow> False)"

definition dns_present :: "ns_packet_t \<Rightarrow> bool" where
  "dns_present p \<longleftrightarrow> (\<exists>qs rs. dns_message (captured_payload p) qs rs)"

definition dns_decoded :: "ns_packet_t \<Rightarrow> bool" where
  "dns_decoded p \<longleftrightarrow> dns_wf (pkt_dns p) \<and>
     (\<exists>qs rs. dns_message (captured_payload p) qs rs \<and> message_shown (captured_payload p) (pkt_dns p) qs rs)"

text \<open>The tag of the transport union says which member is stored, DNS is there exactly when a
  port is 53 and the payload is a DNS message, and a packet marked malformed has no transport.\<close>

definition transport_inv :: "ns_packet_t \<Rightarrow> bool" where
  "transport_inv p \<longleftrightarrow>
     (case pkt_transport_proto p of
        NS_PROTO_UNKNOWN \<Rightarrow> True
      | NS_PROTO_TCP \<Rightarrow> (\<exists>i. pkt_transport p = Tr_tcp i)
      | NS_PROTO_UDP \<Rightarrow> (\<exists>i. pkt_transport p = Tr_udp i)
      | NS_PROTO_ICMP \<Rightarrow> (\<exists>i. pkt_transport p = Tr_icmp i)
      | NS_PROTO_ICMPV6 \<Rightarrow> (\<exists>i. pkt_transport p = Tr_icmpv6 i)
      | _ \<Rightarrow> False) \<and>
     (pkt_has_dns p \<longleftrightarrow> port_53 p \<and> dns_present p) \<and> (pkt_has_dns p \<longrightarrow> dns_decoded p) \<and>
     (pkt_malformed p \<longrightarrow> pkt_transport_proto p = NS_PROTO_UNKNOWN) \<and>
     (pkt_malformed p \<longleftrightarrow> pkt_malformed_reason p \<noteq> None)"

text \<open>Nothing of the transport layer decoded yet.\<close>

definition no_transport :: "ns_packet_t \<Rightarrow> bool" where
  "no_transport p \<longleftrightarrow> pkt_transport_proto p = NS_PROTO_UNKNOWN \<and> pkt_transport p = Tr_zero \<and> \<not> pkt_has_dns p"

lemma no_transport_inv: "no_transport p \<Longrightarrow> (pkt_malformed p \<longleftrightarrow> pkt_malformed_reason p \<noteq> None) \<Longrightarrow> transport_inv p"
  by (simp add: no_transport_def transport_inv_def port_53_def)

definition same_below_transport :: "ns_packet_t \<Rightarrow> ns_packet_t \<Rightarrow> bool" where
  "same_below_transport p p' \<longleftrightarrow>
     p' = p\<lparr> pkt_transport_proto := pkt_transport_proto p', pkt_transport := pkt_transport p',
       pkt_has_dns := pkt_has_dns p', pkt_dns := pkt_dns p', pkt_payload := pkt_payload p',
       pkt_payload_length := pkt_payload_length p', pkt_malformed := pkt_malformed p',
       pkt_malformed_reason := pkt_malformed_reason p' \<rparr>"

lemma ns_packet_set_payload_in:
  assumes "unat off \<le> unat len" "unat len \<le> length data"
  shows "ns_packet_set_payload out data len off =
      Some (out\<lparr> pkt_payload := Some (drop (unat off) data), pkt_payload_length := len - off \<rparr>)"
  using assms by (simp add: ns_packet_set_payload_def cmem word_less_nat_alt)

lemma drop_captured:
  "unat off \<le> unat len \<Longrightarrow> take (unat (len - off)) (drop (unat off) data) = drop (unat off) (take (unat len) data)"
  by (simp add: unat_sub_le drop_take)

lemma ns_packet_parse_dns_at:
  assumes "unat off \<le> unat len" "unat len \<le> length data" "\<not> pkt_has_dns out"
  shows "\<exists>h d. ns_packet_parse_dns_if_applicable out data len off s t = Some (out\<lparr> pkt_dns := d, pkt_has_dns := h \<rparr>) \<and>
    (h \<longleftrightarrow> (s = 53 \<or> t = 53) \<and> (\<exists>qs rs. dns_message (drop (unat off) (take (unat len) data)) qs rs)) \<and>
    (h \<longrightarrow> dns_wf d \<and> (\<exists>qs rs. dns_message (drop (unat off) (take (unat len) data)) qs rs \<and>
       message_shown (drop (unat off) (take (unat len) data)) d qs rs))"
proof (cases "s = 53 \<or> t = 53")
  case False
  then have "ns_packet_parse_dns_if_applicable out data len off s t = Some out"
    by (simp add: ns_packet_parse_dns_if_applicable_def)
  with False assms(3) show ?thesis by (intro exI [of _ False] exI [of _ "pkt_dns out"]) simp
next
  case True
  let ?p = "drop (unat off) data" and ?l = "len - off"
  have le: "unat ?l \<le> length ?p" using assms(1,2) by (simp add: unat_sub_le)
  have call: "ns_packet_parse_dns_if_applicable out data len off s t = do {
      (status, d) \<leftarrow> ns_parse_dns ?p ?l (pkt_dns out);
      Some (out\<lparr> pkt_dns := d, pkt_has_dns := (status = NS_PARSE_OK) \<rparr>) }"
    using True assms
    by (cases out) (auto simp: ns_packet_parse_dns_if_applicable_def cmem word_less_nat_alt Let_def split: bind_splits)
  note cap = drop_captured [OF assms(1), of data]
  from le show ?thesis
  proof (cases rule: ns_parse_dns_at [where out = "pkt_dns out"])
    case short
    then have "\<nexists>qs rs. dns_message (drop (unat off) (take (unat len) data)) qs rs"
      using le unfolding cap [symmetric] dns_message_def by simp
    with short call show ?thesis by (intro exI [of _ False] exI [of _ "pkt_dns out"]) simp
  next
    case (ok d qs rs)
    then have "ns_packet_parse_dns_if_applicable out data len off s t = Some (out\<lparr> pkt_dns := d, pkt_has_dns := True \<rparr>)"
      using call by simp
    with ok(2-4) True show ?thesis unfolding cap by blast
  next
    case (bad st d)
    then have "ns_packet_parse_dns_if_applicable out data len off s t = Some (out\<lparr> pkt_dns := d, pkt_has_dns := False \<rparr>)"
      using call by simp
    with bad(4) show ?thesis unfolding cap by blast
  qed
qed

lemma transport_inv_dns:
  assumes "no_transport out" "\<not> pkt_malformed out" "pkt_malformed_reason out = None"
    and "unat off \<le> unat len" "unat len \<le> length data"
    and "(tp = NS_PROTO_TCP \<and> (\<exists>i. u = Tr_tcp i \<and> s = tcp_source_port i \<and> t = tcp_destination_port i)) \<or>
         (tp = NS_PROTO_UDP \<and> (\<exists>i. u = Tr_udp i \<and> s = udp_source_port i \<and> t = udp_destination_port i))"
  shows "\<exists>out'. ns_packet_parse_dns_if_applicable
      (out\<lparr> pkt_transport := u, pkt_transport_proto := tp, pkt_payload := Some (drop (unat off) data),
         pkt_payload_length := len - off \<rparr>) data len off s t = Some out' \<and>
    transport_inv out' \<and> same_below_transport out out' \<and> payload_at data len (unat off) out' \<and>
    pkt_transport_proto out' = tp \<and> pkt_transport out' = u \<and> \<not> pkt_malformed out'"
proof -
  let ?o = "out\<lparr> pkt_transport := u, pkt_transport_proto := tp, pkt_payload := Some (drop (unat off) data),
         pkt_payload_length := len - off \<rparr>"
  let ?c = "drop (unat off) (take (unat len) data)"
  have "\<not> pkt_has_dns ?o" using assms(1) by (simp add: no_transport_def)
  from ns_packet_parse_dns_at [OF assms(4,5) this, of s t] obtain h d where
    r: "ns_packet_parse_dns_if_applicable ?o data len off s t = Some (?o\<lparr> pkt_dns := d, pkt_has_dns := h \<rparr>)"
    "h \<longleftrightarrow> (s = 53 \<or> t = 53) \<and> (\<exists>qs rs. dns_message ?c qs rs)"
    "h \<Longrightarrow> dns_wf d \<and> (\<exists>qs rs. dns_message ?c qs rs \<and> message_shown ?c d qs rs)" by blast
  let ?r = "?o\<lparr> pkt_dns := d, pkt_has_dns := h \<rparr>"
  have c: "captured_payload ?r = ?c" using assms(4) by (simp add: captured_payload_def drop_captured)
  have p53: "port_53 ?r \<longleftrightarrow> s = 53 \<or> t = 53" using assms(6) by (auto simp: port_53_def)
  have "dns_present ?r \<longleftrightarrow> (\<exists>qs rs. dns_message ?c qs rs)" unfolding dns_present_def c ..
  moreover have "h \<Longrightarrow> dns_decoded ?r" using r(3) unfolding dns_decoded_def c by simp
  moreover have "pkt_has_dns ?r = h" "\<not> pkt_malformed ?r" "pkt_malformed_reason ?r = None"
    "pkt_transport_proto ?r = tp" "pkt_transport ?r = u" using assms(2,3) by simp_all
  ultimately have "transport_inv ?r" "\<not> pkt_malformed ?r"
    unfolding transport_inv_def p53 using assms(6) r(2) by auto
  moreover have "pkt_transport_proto ?r = tp" "pkt_transport ?r = u" by simp_all
  moreover have "same_below_transport out ?r" by (simp add: same_below_transport_def)
  moreover have "payload_at data len (unat off) ?r" using assms(4) by (simp add: payload_at_def unat_sub_le)
  ultimately show ?thesis using r(1) by blast
qed

lemma transport_inv_malformed:
  "no_transport out \<Longrightarrow> transport_inv (ns_packet_mark_malformed (out\<lparr> pkt_transport := u \<rparr>) reason)"
  by (auto simp: transport_inv_def no_transport_def ns_packet_mark_malformed_def port_53_def split: transport_union.splits)

lemma transport_inv_icmp:
  "no_transport out \<Longrightarrow> \<not> pkt_malformed out \<Longrightarrow> pkt_malformed_reason out = None \<Longrightarrow>
     transport_inv (out\<lparr> pkt_transport := Tr_icmp i, pkt_transport_proto := NS_PROTO_ICMP \<rparr>)"
  "no_transport out \<Longrightarrow> \<not> pkt_malformed out \<Longrightarrow> pkt_malformed_reason out = None \<Longrightarrow>
     transport_inv (out\<lparr> pkt_transport := Tr_icmpv6 i6, pkt_transport_proto := NS_PROTO_ICMPV6 \<rparr>)"
  by (auto simp: transport_inv_def no_transport_def port_53_def)

lemma payload_at_updates [simp]:
  "payload_at data len off (p\<lparr> pkt_transport := u \<rparr>) = payload_at data len off p"
  "payload_at data len off (p\<lparr> pkt_transport_proto := tp \<rparr>) = payload_at data len off p"
  "payload_at data len off (ns_packet_mark_malformed p reason) = payload_at data len off p"
  "payload_at data len off (p\<lparr> pkt_net := n \<rparr>) = payload_at data len off p"
  "payload_at data len off (p\<lparr> pkt_network_proto := np \<rparr>) = payload_at data len off p"
  by (simp_all add: payload_at_def ns_packet_mark_malformed_def)

lemma ns_packet_parse_transport_inv:
  assumes "no_transport out" "\<not> pkt_malformed out" "pkt_malformed_reason out = None"
    and "unat off \<le> unat len" "unat len \<le> length data" "payload_at data len n out"
  shows "\<exists>out'. ns_packet_parse_transport out data len off proto = Some out' \<and> transport_inv out' \<and>
    same_below_transport out out' \<and> (\<exists>n. payload_at data len n out')"
proof -
  have p: "ptr_add data off = Some (drop (unat off) data)" using assms(4,5) by (simp add: cmem)
  have z: "pkt_transport out = Tr_zero" using assms(1) by (simp add: no_transport_def)
  have self: "same_below_transport out out" by (simp add: same_below_transport_def)
  have mal: "transport_inv (ns_packet_mark_malformed (out\<lparr> pkt_transport := u \<rparr>) r) \<and>
      same_below_transport out (ns_packet_mark_malformed (out\<lparr> pkt_transport := u \<rparr>) r)" for u r
    using transport_inv_malformed [OF assms(1)]
    by (simp add: same_below_transport_def ns_packet_mark_malformed_def)
  consider "proto = 6" | "proto = 17" | "proto = 1" | "proto = 58" | "proto \<notin> {6, 17, 1, 58}" by blast
  then show ?thesis
  proof cases
    case 1
    obtain st i h where c: "ns_parse_tcp (drop (unat off) data) (len - off) ns_tcp_zero = Some (st, i, h)"
      "st = NS_PARSE_OK \<Longrightarrow> \<exists>n. h = Some n \<and> 20 \<le> unat n \<and>
         unat (off + n) = unat off + unat n \<and> unat (off + n) \<le> unat len"
      using tcp.parse_at [OF assms(4,5)] by blast
    show ?thesis
    proof (cases "st = NS_PARSE_OK")
      case True
      with c obtain hl where hl: "h = Some hl" "unat (off + hl) \<le> unat len" by blast
      show ?thesis
        using 1 p z c(1) True hl transport_inv_dns [OF assms(1-3) hl(2) assms(5), of NS_PROTO_TCP "Tr_tcp i"]
        by (auto simp: ns_packet_parse_transport_def union_views ns_packet_set_payload_in [OF hl(2) assms(5)] Let_def)
    next
      case False
      then show ?thesis using 1 p z c(1) mal assms(6)
        by (auto simp: ns_packet_parse_transport_def union_views Let_def)
    qed
  next
    case 2
    obtain st i where c: "ns_parse_udp (drop (unat off) data) (len - off) ns_udp_zero = Some (st, i)"
      "st = NS_PARSE_OK \<Longrightarrow> unat off + 8 \<le> unat len"
      using udp.parse_at [OF assms(4,5)] by blast
    show ?thesis
    proof (cases "st = NS_PARSE_OK")
      case True
      have hl: "unat (off + 8) \<le> unat len" using c(2) [OF True] unat_add_le [of off 8 len] by simp
      show ?thesis
        using 2 p z c(1) True transport_inv_dns [OF assms(1-3) hl assms(5), of NS_PROTO_UDP "Tr_udp i"]
        by (auto simp: ns_packet_parse_transport_def union_views ns_packet_set_payload_in [OF hl assms(5)] Let_def)
    next
      case False
      then show ?thesis using 2 p z c(1) mal assms(6)
        by (auto simp: ns_packet_parse_transport_def union_views Let_def)
    qed
  next
    case 3
    obtain st i where "ns_parse_icmp (drop (unat off) data) (len - off) ns_icmp_zero = Some (st, i)"
      using icmp.parse_at [OF assms(4,5)] by blast
    then show ?thesis using 3 p z mal assms(6) transport_inv_icmp(1) [OF assms(1-3)]
      by (auto simp: ns_packet_parse_transport_def union_views Let_def same_below_transport_def)
  next
    case 4
    obtain st i where "ns_parse_icmpv6 (drop (unat off) data) (len - off) ns_icmpv6_zero = Some (st, i)"
      using icmpv6.parse_at [OF assms(4,5)] by blast
    then show ?thesis using 4 p z mal assms(6) transport_inv_icmp(2) [OF assms(1-3)]
      by (auto simp: ns_packet_parse_transport_def union_views Let_def same_below_transport_def)
  next
    case 5
    then show ?thesis using no_transport_inv [OF assms(1)] assms(2,3,6) self
      by (auto simp: ns_packet_parse_transport_def)
  qed
qed

subsection \<open>The network layer and the whole frame\<close>

text \<open>The address arrays have the sizes the structures declare.\<close>

definition eth_sized :: "ns_eth_info_t \<Rightarrow> bool" where
  "eth_sized e \<longleftrightarrow> length (eth_source e) = 6 \<and> length (eth_destination e) = 6"

definition arp_sized :: "ns_arp_info_t \<Rightarrow> bool" where
  "arp_sized i \<longleftrightarrow> length (arp_sender_mac i) = 6 \<and> length (arp_target_mac i) = 6"

definition ip6_sized :: "ns_ipv6_info_t \<Rightarrow> bool" where
  "ip6_sized i \<longleftrightarrow> length (ip6_source i) = 16 \<and> length (ip6_destination i) = 16"

lemma parsed_sized:
  assumes "unat len \<le> length data"
  shows "ns_parse_ethernet data len e0 = Some (NS_PARSE_OK, e, h) \<Longrightarrow> eth_sized e"
    and "ns_parse_arp data len a0 = Some (NS_PARSE_OK, a) \<Longrightarrow> arp_sized a"
    and "ns_parse_ipv6 data len i0 = Some (NS_PARSE_OK, i, h) \<Longrightarrow> ip6_sized i"
  using assms
  by (auto simp: ns_parse_ethernet_eq ns_parse_arp_eq ns_parse_ipv6_eq Let_def eth_sized_def arp_sized_def
      ip6_sized_def ip6_decoded_def window_def split: if_splits)

lemma parsed_sized_at:
  assumes "unat off \<le> unat len" "unat len \<le> length data"
  shows "ns_parse_arp (drop (unat off) data) (len - off) a0 = Some (NS_PARSE_OK, a) \<Longrightarrow> arp_sized a"
    and "ns_parse_ipv6 (drop (unat off) data) (len - off) i0 = Some (NS_PARSE_OK, i, h) \<Longrightarrow> ip6_sized i"
  using parsed_sized(2,3) [of "len - off" "drop (unat off) data"] assms by (auto simp: unat_sub_le)

text \<open>The tag of the network union, what may follow it, and the fragment rule.\<close>

definition network_inv :: "ns_packet_t \<Rightarrow> bool" where
  "network_inv p \<longleftrightarrow>
     (case pkt_network_proto p of
        NS_PROTO_UNKNOWN \<Rightarrow> no_transport p
      | NS_PROTO_ARP \<Rightarrow> (\<exists>i. pkt_net p = Net_arp i \<and> arp_sized i) \<and> no_transport p \<and> \<not> pkt_malformed p
      | NS_PROTO_IPV4 \<Rightarrow> (\<exists>i. pkt_net p = Net_ipv4 i \<and>
          (ip4_fragment_offset i \<noteq> 0 \<longrightarrow> no_transport p \<and> \<not> pkt_malformed p))
      | NS_PROTO_IPV6 \<Rightarrow> (\<exists>i. pkt_net p = Net_ipv6 i \<and> ip6_sized i)
      | _ \<Rightarrow> False)"

definition packet_inv :: "bytes \<Rightarrow> size_t \<Rightarrow> ns_packet_t \<Rightarrow> bool" where
  "packet_inv data len p \<longleftrightarrow> (\<exists>off. payload_at data len off p) \<and> transport_inv p \<and> network_inv p \<and>
     (pkt_network_proto p \<noteq> NS_PROTO_UNKNOWN \<longrightarrow> pkt_has_eth p) \<and>
     (pkt_has_eth p \<longrightarrow> eth_sized (pkt_eth p))"

text \<open>An Ethernet header accepted and nothing above it yet.\<close>

definition link_only :: "bytes \<Rightarrow> size_t \<Rightarrow> ns_packet_t \<Rightarrow> bool" where
  "link_only data len p \<longleftrightarrow> (\<exists>off. payload_at data len off p) \<and> no_transport p \<and> pkt_has_eth p \<and>
     eth_sized (pkt_eth p) \<and> pkt_network_proto p = NS_PROTO_UNKNOWN \<and> pkt_net p = Net_zero \<and>
     \<not> pkt_malformed p \<and> pkt_malformed_reason p = None"

lemma no_transport_updates [simp]:
  "no_transport (p\<lparr> pkt_net := n \<rparr>) = no_transport p"
  "no_transport (p\<lparr> pkt_network_proto := np \<rparr>) = no_transport p"
  "no_transport (p\<lparr> pkt_payload := d \<rparr>) = no_transport p"
  "no_transport (p\<lparr> pkt_payload_length := l \<rparr>) = no_transport p"
  "no_transport (ns_packet_mark_malformed p reason) = no_transport p"
  by (simp_all add: no_transport_def ns_packet_mark_malformed_def)

lemma mark_malformed_sel [simp]:
  "pkt_network_proto (ns_packet_mark_malformed p r) = pkt_network_proto p"
  "pkt_net (ns_packet_mark_malformed p r) = pkt_net p"
  "pkt_has_eth (ns_packet_mark_malformed p r) = pkt_has_eth p"
  "pkt_eth (ns_packet_mark_malformed p r) = pkt_eth p"
  "pkt_malformed (ns_packet_mark_malformed p r)"
  "pkt_malformed_reason (ns_packet_mark_malformed p r) = Some r"
  by (simp_all add: ns_packet_mark_malformed_def)

lemma payload_at_here:
  "unat off \<le> unat len \<Longrightarrow>
     payload_at data len (unat off) (p\<lparr> pkt_payload := Some (drop (unat off) data), pkt_payload_length := len - off \<rparr>)"
  by (simp add: payload_at_def unat_sub_le)

lemma link_malformed_inv:
  "link_only data len out \<Longrightarrow> packet_inv data len (ns_packet_mark_malformed (out\<lparr> pkt_net := n \<rparr>) reason)"
  by (auto simp: link_only_def packet_inv_def network_inv_def no_transport_inv)

lemma same_below_transport_sel:
  assumes "same_below_transport p p'"
  shows "pkt_network_proto p' = pkt_network_proto p" "pkt_net p' = pkt_net p" "pkt_has_eth p' = pkt_has_eth p"
    "pkt_eth p' = pkt_eth p"
  using assms by (cases p; cases p'; simp add: same_below_transport_def)+

text \<open>A layer above the network header, decoded from offset \<open>off\<close>.\<close>

lemma network_transport_inv:
  assumes "link_only data len out" "unat off \<le> unat len" "unat len \<le> length data"
    and "(np = NS_PROTO_IPV4 \<and> (\<exists>i. n = Net_ipv4 i \<and> ip4_fragment_offset i = 0)) \<or> (np = NS_PROTO_IPV6 \<and> (\<exists>i. n = Net_ipv6 i \<and> ip6_sized i))"
  shows "\<exists>out'. ns_packet_parse_transport (out\<lparr> pkt_net := n, pkt_network_proto := np,
      pkt_payload := Some (drop (unat off) data), pkt_payload_length := len - off \<rparr>) data len off proto = Some out' \<and>
    packet_inv data len out' \<and> pkt_net out' = n \<and> pkt_network_proto out' = np"
proof -
  let ?o = "out\<lparr> pkt_net := n, pkt_network_proto := np,
      pkt_payload := Some (drop (unat off) data), pkt_payload_length := len - off \<rparr>"
  have o: "no_transport ?o" "\<not> pkt_malformed ?o" "pkt_malformed_reason ?o = None" "pkt_has_eth ?o"
    "pkt_net ?o = n" "pkt_network_proto ?o = np" "eth_sized (pkt_eth ?o)" using assms(1) by (simp_all add: link_only_def)
  obtain out' where r: "ns_packet_parse_transport ?o data len off proto = Some out'" "transport_inv out'"
    "same_below_transport ?o out'" "\<exists>n. payload_at data len n out'"
    using ns_packet_parse_transport_inv [OF o(1-3) assms(2,3) payload_at_here [OF assms(2)], of proto] by blast
  note sel = same_below_transport_sel [OF r(3), unfolded o(4-6)]
  have "network_inv out'" using assms(4) sel by (auto simp: network_inv_def)
  with r sel o(4,7) show ?thesis by (auto simp: packet_inv_def)
qed

lemma ns_packet_parse_ipv4_inv:
  assumes "link_only data len out" "unat off \<le> unat len" "unat len \<le> length data"
  shows "\<exists>out'. ns_packet_parse_ipv4 out data len off = Some out' \<and> packet_inv data len out'"
proof -
  have p: "ptr_add data off = Some (drop (unat off) data)" using assms(2,3) by (simp add: cmem)
  have z: "pkt_net out = Net_zero" using assms(1) by (simp add: link_only_def)
  obtain st i h where c: "ns_parse_ipv4 (drop (unat off) data) (len - off) ns_ipv4_zero = Some (st, i, h)"
    "st = NS_PARSE_OK \<Longrightarrow> \<exists>n. h = Some n \<and> 20 \<le> unat n \<and>
       unat (off + n) = unat off + unat n \<and> unat (off + n) \<le> unat len"
    using ip4.parse_at [OF assms(2,3)] by blast
  show ?thesis
  proof (cases "st = NS_PARSE_OK")
    case False
    then show ?thesis using p z c(1) link_malformed_inv [OF assms(1)]
      by (auto simp: ns_packet_parse_ipv4_def union_views Let_def)
  next
    case True
    with c obtain hl where hl: "h = Some hl" "unat (off + hl) \<le> unat len" by blast
    have frag: "ip4_is_fragment i = (ip4_flag_mf i \<or> ip4_fragment_offset i \<noteq> 0)"
      "ip4_is_initial_fragment i = (ip4_is_fragment i \<and> ip4_fragment_offset i = 0)"
      using c(1) True ns_parse_ipv4_eq [of "len - off" "drop (unat off) data" ns_ipv4_zero] assms(2,3)
      by (auto simp: unat_sub_le ip4_decoded_def Let_def split: if_splits)
    let ?o = "out\<lparr> pkt_net := Net_ipv4 i, pkt_network_proto := NS_PROTO_IPV4,
      pkt_payload := Some (drop (unat (off + hl)) data), pkt_payload_length := len - (off + hl) \<rparr>"
    have r: "ns_packet_parse_ipv4 out data len off =
      (if ip4_fragment_offset i \<noteq> 0 then Some ?o else ns_packet_parse_transport ?o data len (off + hl) (ip4_protocol i))"
      using p z c(1) True hl frag
      by (auto simp: ns_packet_parse_ipv4_def union_views Let_def ns_packet_set_payload_in [OF hl(2) assms(3)])
    have "packet_inv data len ?o"
      using assms(1) payload_at_here [OF hl(2)] no_transport_inv [of ?o]
      unfolding link_only_def packet_inv_def network_inv_def by auto
    with r network_transport_inv [OF assms(1) hl(2) assms(3), of NS_PROTO_IPV4 "Net_ipv4 i" "ip4_protocol i"]
    show ?thesis by auto
  qed
qed

lemma ns_packet_parse_ipv6_inv:
  assumes "link_only data len out" "unat off \<le> unat len" "unat len \<le> length data"
  shows "\<exists>out'. ns_packet_parse_ipv6 out data len off = Some out' \<and> packet_inv data len out'"
proof -
  have p: "ptr_add data off = Some (drop (unat off) data)" using assms(2,3) by (simp add: cmem)
  have z: "pkt_net out = Net_zero" using assms(1) by (simp add: link_only_def)
  obtain st i h where c: "ns_parse_ipv6 (drop (unat off) data) (len - off) ns_ipv6_zero = Some (st, i, h)"
    "st = NS_PARSE_OK \<Longrightarrow> \<exists>n. h = Some n \<and> 40 \<le> unat n \<and>
       unat (off + n) = unat off + unat n \<and> unat (off + n) \<le> unat len"
    using ip6.parse_at [OF assms(2,3)] by blast
  show ?thesis
  proof (cases "st = NS_PARSE_OK")
    case False
    then show ?thesis using p z c(1) link_malformed_inv [OF assms(1)]
      by (auto simp: ns_packet_parse_ipv6_def union_views Let_def)
  next
    case True
    with c obtain hl where hl: "h = Some hl" "unat (off + hl) \<le> unat len" by blast
    obtain b e nh where e: "ns_ipv6_skip_extension_headers data len (off + hl) (ip6_next_header i) = Some (b, e, nh)"
      "unat e \<le> unat len"
      using ns_ipv6_skip_loop_inside [OF assms(3) hl(2), of 8 "ip6_next_header i"]
      unfolding ns_ipv6_skip_extension_headers_def by auto
    let ?n = "out\<lparr> pkt_net := Net_ipv6 i, pkt_network_proto := NS_PROTO_IPV6 \<rparr>"
    let ?m = "(ns_packet_mark_malformed ?n ''IPv6 extension header chain invalid'')
      \<lparr> pkt_payload := Some (drop (unat e) data), pkt_payload_length := len - e \<rparr>"
    let ?o = "?n\<lparr> pkt_payload := Some (drop (unat e) data), pkt_payload_length := len - e \<rparr>"
    have r: "ns_packet_parse_ipv6 out data len off =
      (if \<not> b then Some ?m else ns_packet_parse_transport ?o data len e nh)"
      using p z c(1) True hl e
      by (auto simp: ns_packet_parse_ipv6_def union_views Let_def ns_packet_set_payload_in [OF e(2) assms(3)])
    have six: "ip6_sized i" using parsed_sized_at(2) [OF assms(2,3)] c(1) True by blast
    then have "packet_inv data len ?m"
      using assms(1) payload_at_here [OF e(2)] no_transport_inv [of ?m]
      unfolding link_only_def packet_inv_def network_inv_def by auto
    with r network_transport_inv [OF assms(1) e(2) assms(3), of NS_PROTO_IPV6 "Net_ipv6 i" nh] six
    show ?thesis by auto
  qed
qed

lemma ns_packet_parse_arp_inv:
  assumes "link_only data len out" "unat off \<le> unat len" "unat len \<le> length data"
  shows "\<exists>out'. ns_packet_parse_arp out data len off = Some out' \<and> packet_inv data len out'"
proof -
  have p: "ptr_add data off = Some (drop (unat off) data)" using assms(2,3) by (simp add: cmem)
  have z: "pkt_net out = Net_zero" using assms(1) by (simp add: link_only_def)
  obtain st i where c: "ns_parse_arp (drop (unat off) data) (len - off) ns_arp_zero = Some (st, i)"
    using arp.parse_at [OF assms(2,3)] by blast
  then have "st = NS_PARSE_OK \<Longrightarrow> arp_sized i" using parsed_sized_at(1) [OF assms(2,3)] by blast
  with c show ?thesis
    using p z assms(1) payload_at_here [OF assms(2)] no_transport_inv
    by (auto simp: ns_packet_parse_arp_def union_views Let_def ns_packet_set_payload_in [OF assms(2,3)]
        link_only_def packet_inv_def network_inv_def)
qed

text \<open>The fields that say where and when the frame was captured.\<close>

definition capture_fields :: "ns_packet_t \<Rightarrow> u64 \<times> ns_timestamp_t \<times> size_t \<times> size_t \<times> bytes option \<times> ns_link_type_t" where
  "capture_fields p = (pkt_number p, pkt_timestamp p, pkt_captured_length p, pkt_original_length p,
     pkt_raw_data p, pkt_link_type p)"

lemma capture_fields_malformed [simp]: "capture_fields (ns_packet_mark_malformed p r) = capture_fields p"
  by (simp add: capture_fields_def ns_packet_mark_malformed_def)

lemma capture_fields_payload:
  "ns_packet_set_payload out data len off = Some out' \<Longrightarrow> capture_fields out' = capture_fields out"
  by (auto simp: ns_packet_set_payload_def capture_fields_def split: if_splits bind_splits)

lemma capture_fields_dns:
  "ns_packet_parse_dns_if_applicable out data len off s t = Some out' \<Longrightarrow> capture_fields out' = capture_fields out"
  by (auto simp: ns_packet_parse_dns_if_applicable_def capture_fields_def Let_def split: if_splits bind_splits)

lemma capture_fields_updates [simp]:
  "capture_fields (p\<lparr> pkt_transport := u \<rparr>) = capture_fields p"
  "capture_fields (p\<lparr> pkt_transport_proto := tp \<rparr>) = capture_fields p"
  "capture_fields (p\<lparr> pkt_net := n \<rparr>) = capture_fields p"
  "capture_fields (p\<lparr> pkt_network_proto := np \<rparr>) = capture_fields p"
  "capture_fields (p\<lparr> pkt_eth := e \<rparr>) = capture_fields p"
  "capture_fields (p\<lparr> pkt_has_eth := h \<rparr>) = capture_fields p"
  by (simp_all add: capture_fields_def)

lemma capture_fields_transport:
  "ns_packet_parse_transport out data len off proto = Some out' \<Longrightarrow> capture_fields out' = capture_fields out"
  by (auto simp: ns_packet_parse_transport_def Let_def split: if_splits bind_splits
      dest!: capture_fields_dns capture_fields_payload)

lemma capture_fields_network:
  "ns_packet_parse_ipv4 out data len off = Some out' \<Longrightarrow> capture_fields out' = capture_fields out"
  "ns_packet_parse_ipv6 out data len off = Some out' \<Longrightarrow> capture_fields out' = capture_fields out"
  "ns_packet_parse_arp out data len off = Some out' \<Longrightarrow> capture_fields out' = capture_fields out"
  by (auto simp: ns_packet_parse_ipv4_def ns_packet_parse_ipv6_def ns_packet_parse_arp_def Let_def
      split: if_splits bind_splits dest!: capture_fields_transport capture_fields_payload)

lemma ns_packet_parse_safe:
  assumes "unat cap \<le> length data"
  shows "\<exists>p. ns_packet_parse data cap orig ts num link = Some p \<and> packet_inv data cap p \<and>
    capture_fields p = (num, ts, cap, orig, Some data, link)"
proof -
  let ?o = "ns_packet_zero\<lparr> pkt_number := num, pkt_timestamp := ts, pkt_captured_length := cap,
       pkt_original_length := orig, pkt_raw_data := Some data, pkt_link_type := link, pkt_payload := Some data,
       pkt_payload_length := cap \<rparr>"
  have o: "no_transport ?o" "\<not> pkt_malformed ?o" "pkt_malformed_reason ?o = None" "pkt_net ?o = Net_zero"
    "pkt_network_proto ?o = NS_PROTO_UNKNOWN" "payload_at data cap 0 ?o"
    "capture_fields ?o = (num, ts, cap, orig, Some data, link)"
    by (simp_all add: ns_packet_zero_def no_transport_def payload_at_def capture_fields_def)
  show ?thesis
  proof (cases "link = NS_LINK_ETHERNET")
    case False
    have "\<not> pkt_has_eth ?o" by (simp add: ns_packet_zero_def)
    then have "packet_inv data cap ?o"
      using o no_transport_inv [of ?o] by (auto simp: packet_inv_def network_inv_def)
    with False o(7) show ?thesis by (simp add: ns_packet_parse_def)
  next
    case True
    obtain st e h where c: "ns_parse_ethernet data cap (pkt_eth ?o) = Some (st, e, h)"
      "st = NS_PARSE_OK \<Longrightarrow> \<exists>n. h = Some n \<and> unat n \<le> unat cap"
      using eth.total [OF assms] eth.ok_header [OF assms] by metis
    show ?thesis
    proof (cases "st = NS_PARSE_OK")
      case False
      let ?m = "ns_packet_mark_malformed (?o\<lparr> pkt_eth := e \<rparr>) ''Ethernet header truncated''"
      have "payload_at data cap 0 ?m" "no_transport ?m" "pkt_network_proto ?m = NS_PROTO_UNKNOWN" "\<not> pkt_has_eth ?m"
        using o(1,5,6) by (simp_all add: payload_at_def no_transport_def ns_packet_mark_malformed_def ns_packet_zero_def)
      then have "packet_inv data cap ?m"
        using no_transport_inv [of ?m] by (auto simp: packet_inv_def network_inv_def)
      with True False c(1) o(7) show ?thesis by (simp add: ns_packet_parse_def capture_fields_def ns_packet_mark_malformed_def)
    next
      case ok: True
      with c(2) obtain off where off: "h = Some off" "unat off \<le> unat cap" by blast
      define o1 where "o1 = ?o\<lparr> pkt_eth := e, pkt_has_eth := True, pkt_payload := Some (drop (unat off) data),
        pkt_payload_length := cap - off \<rparr>"
      have "eth_sized e" using parsed_sized(1) [OF assms] c(1) ok by blast
      then have l: "link_only data cap o1"
        using o payload_at_here [OF off(2), of data] unfolding o1_def link_only_def no_transport_def by auto
      have cf: "capture_fields o1 = (num, ts, cap, orig, Some data, link)"
        by (simp add: o1_def capture_fields_def ns_packet_zero_def)
      have e: "pkt_eth o1 = e" by (simp add: o1_def)
      have inv: "packet_inv data cap o1"
        using l no_transport_inv [of o1] by (auto simp: link_only_def packet_inv_def network_inv_def)
      have "ns_packet_parse data cap orig ts num link =
        (if eth_ethertype e = NS_ETHERTYPE_IPV4 then ns_packet_parse_ipv4 o1 data cap off
         else if eth_ethertype e = NS_ETHERTYPE_IPV6 then ns_packet_parse_ipv6 o1 data cap off
         else if eth_ethertype e = NS_ETHERTYPE_ARP then ns_packet_parse_arp o1 data cap off else Some o1)"
        using True c(1) ok off(1)
        by (simp add: ns_packet_parse_def ns_packet_set_payload_in [OF off(2) assms] o1_def)
      then show ?thesis
        using ns_packet_parse_ipv4_inv [OF l off(2) assms] ns_packet_parse_ipv6_inv [OF l off(2) assms]
          ns_packet_parse_arp_inv [OF l off(2) assms] inv cf capture_fields_network by metis
    qed
  qed
qed

subsection \<open>Frames built by a sender\<close>

lemma payload_at_captured:
  assumes "payload_at data len off p"
  shows "captured_payload p = drop off (take (unat len) data)"
  using assms by (simp add: payload_at_def captured_payload_def drop_take)

text \<open>The transport layer over any bytes that start with a UDP or TCP header.\<close>

lemma parse_udp_layer:
  assumes "8 \<le> unat (udp_length u)" "unat len = length (pre @ udp_bytes u @ body)" "unat off = length pre"
    and "no_transport out" "\<not> pkt_malformed out" "pkt_malformed_reason out = None"
  shows "\<exists>out'. ns_packet_parse_transport out (pre @ udp_bytes u @ body) len off 17 = Some out' \<and>
    same_below_transport out out' \<and> pkt_transport_proto out' = NS_PROTO_UDP \<and> pkt_transport out' = Tr_udp u \<and>
    captured_payload out' = body \<and> transport_inv out' \<and> \<not> pkt_malformed out'"
proof -
  let ?d = "pre @ udp_bytes u @ body"
  have le: "unat off \<le> unat len" "unat len \<le> length ?d" using assms(2,3) by simp_all
  have p: "ptr_add ?d off = Some (udp_bytes u @ body)" using assms(3) by (simp add: ptr_add_def)
  have "unat (len - off) = length (udp_bytes u @ body)" using assms(2,3) by (simp add: unat_sub_le)
  from ns_parse_udp_bytes [OF assms(1) this]
  have c: "ns_parse_udp (udp_bytes u @ body) (len - off) ns_udp_zero = Some (NS_PARSE_OK, u)" .
  have "unat (off + 8) = length pre + 8" using unat_add_le [of off 8 len] assms(2,3) by simp
  then have hl: "unat (off + 8) \<le> unat len" "unat (off + 8) = length (pre @ udp_bytes u)" using assms(2) by simp_all
  have z: "pkt_transport out = Tr_zero" using assms(4) by (simp add: no_transport_def)
  from transport_inv_dns [OF assms(4-6) hl(1) le(2), of NS_PROTO_UDP "Tr_udp u" "udp_source_port u" "udp_destination_port u"]
  obtain out' where o: "ns_packet_parse_dns_if_applicable (out\<lparr> pkt_transport := Tr_udp u, pkt_transport_proto := NS_PROTO_UDP,
      pkt_payload := Some (drop (unat (off + 8)) ?d), pkt_payload_length := len - (off + 8) \<rparr>) ?d len (off + 8)
      (udp_source_port u) (udp_destination_port u) = Some out'" "transport_inv out'" "same_below_transport out out'"
    "payload_at ?d len (unat (off + 8)) out'" "pkt_transport_proto out' = NS_PROTO_UDP" "pkt_transport out' = Tr_udp u"
    "\<not> pkt_malformed out'" by auto
  have "captured_payload out' = body"
    using payload_at_captured [OF o(4)] assms(2) hl(2) by simp
  moreover have "ns_packet_parse_transport out ?d len off 17 = Some out'"
    using p z c o(1) by (simp add: ns_packet_parse_transport_def union_views ns_packet_set_payload_in [OF hl(1) le(2)])
  ultimately show ?thesis using o by blast
qed

lemma parse_tcp_layer:
  assumes "tcp_wf t reserved opts" "unat len = length (pre @ tcp_bytes t reserved opts @ body)" "unat off = length pre"
    and "no_transport out" "\<not> pkt_malformed out" "pkt_malformed_reason out = None"
  shows "\<exists>out'. ns_packet_parse_transport out (pre @ tcp_bytes t reserved opts @ body) len off 6 = Some out' \<and>
    same_below_transport out out' \<and> pkt_transport_proto out' = NS_PROTO_TCP \<and> pkt_transport out' = Tr_tcp t \<and>
    captured_payload out' = body \<and> transport_inv out' \<and> \<not> pkt_malformed out'"
proof -
  let ?d = "pre @ tcp_bytes t reserved opts @ body" and ?h = "tcp_header_length t"
  have le: "unat off \<le> unat len" "unat len \<le> length ?d" using assms(2,3) by simp_all
  have p: "ptr_add ?d off = Some (tcp_bytes t reserved opts @ body)" using assms(3) by (simp add: ptr_add_def)
  have "unat (len - off) = length (tcp_bytes t reserved opts @ body)" using assms(2,3) by (simp add: unat_sub_le)
  from ns_parse_tcp_bytes [OF assms(1) this]
  have c: "ns_parse_tcp (tcp_bytes t reserved opts @ body) (len - off) ns_tcp_zero = Some (NS_PARSE_OK, t, Some ?h)" .
  have "?h = of_nat (20 + length opts)" using assms(1) by (simp add: tcp_wf_def del: of_nat_add)
  then have "unat ?h = 20 + length opts" using assms(2) unat_lt_2p64 [of len] by (simp add: unat_of_nat del: of_nat_add)
  then have "unat (off + ?h) = length pre + 20 + length opts" using unat_add_le [of off ?h len] assms(2,3) by simp
  then have hl: "unat (off + ?h) \<le> unat len" "unat (off + ?h) = length (pre @ tcp_bytes t reserved opts)"
    using assms(2) by simp_all
  have z: "pkt_transport out = Tr_zero" using assms(4) by (simp add: no_transport_def)
  from transport_inv_dns [OF assms(4-6) hl(1) le(2), of NS_PROTO_TCP "Tr_tcp t" "tcp_source_port t" "tcp_destination_port t"]
  obtain out' where o: "ns_packet_parse_dns_if_applicable (out\<lparr> pkt_transport := Tr_tcp t, pkt_transport_proto := NS_PROTO_TCP,
      pkt_payload := Some (drop (unat (off + ?h)) ?d), pkt_payload_length := len - (off + ?h) \<rparr>) ?d len (off + ?h)
      (tcp_source_port t) (tcp_destination_port t) = Some out'" "transport_inv out'" "same_below_transport out out'"
    "payload_at ?d len (unat (off + ?h)) out'" "pkt_transport_proto out' = NS_PROTO_TCP" "pkt_transport out' = Tr_tcp t"
    "\<not> pkt_malformed out'" by auto
  have "captured_payload out' = body"
    using payload_at_captured [OF o(4)] assms(2) hl(2) by simp
  moreover have "ns_packet_parse_transport out ?d len off 6 = Some out'"
    using p z c o(1)
    by (simp add: ns_packet_parse_transport_def union_views ns_packet_set_payload_in [OF hl(1) le(2)] del: of_nat_add)
  ultimately show ?thesis using o by blast
qed

text \<open>An IPv4 header that is not a later fragment, then the transport layer.\<close>

lemma parse_ipv4_layer:
  assumes "ipv4_wf i opts" "ip4_fragment_offset i = 0"
    and "unat len = length (pre @ ipv4_bytes i opts @ body)" "unat off = length pre"
    and "link_only (pre @ ipv4_bytes i opts @ body) len out"
  obtains out1 off1 where
    "ns_packet_parse_ipv4 out (pre @ ipv4_bytes i opts @ body) len off =
       ns_packet_parse_transport out1 (pre @ ipv4_bytes i opts @ body) len off1 (ip4_protocol i)"
    "unat off1 = length (pre @ ipv4_bytes i opts)" "no_transport out1" "\<not> pkt_malformed out1"
    "pkt_malformed_reason out1 = None" "pkt_net out1 = Net_ipv4 i" "pkt_network_proto out1 = NS_PROTO_IPV4"
    "pkt_eth out1 = pkt_eth out" "pkt_has_eth out1"
proof -
  let ?d = "pre @ ipv4_bytes i opts @ body" and ?h = "ip4_header_length i"
  have p: "ptr_add ?d off = Some (ipv4_bytes i opts @ body)" using assms(4) by (simp add: ptr_add_def)
  have "unat (len - off) = length (ipv4_bytes i opts @ body)" using assms(3,4) by (simp add: unat_sub_le)
  from ns_parse_ipv4_bytes [OF assms(1) this]
  have c: "ns_parse_ipv4 (ipv4_bytes i opts @ body) (len - off) ns_ipv4_zero = Some (NS_PARSE_OK, i, Some ?h)" .
  have "?h = of_nat (20 + length opts)" using assms(1) by (simp add: ipv4_wf_def del: of_nat_add)
  then have "unat ?h = 20 + length opts" using assms(3) unat_lt_2p64 [of len] by (simp add: unat_of_nat del: of_nat_add)
  then have "unat (off + ?h) = length pre + 20 + length opts" using unat_add_le [of off ?h len] assms(3,4) by simp
  then have hl: "unat (off + ?h) \<le> unat len" "unat (off + ?h) = length (pre @ ipv4_bytes i opts)"
    using assms(3) by simp_all
  have le: "unat len \<le> length ?d" using assms(3) by simp
  have frag: "\<not> (ip4_is_fragment i \<and> \<not> ip4_is_initial_fragment i)" using assms(1,2) by (simp add: ipv4_wf_def)
  let ?o = "out\<lparr> pkt_net := Net_ipv4 i, pkt_network_proto := NS_PROTO_IPV4,
      pkt_payload := Some (drop (unat (off + ?h)) ?d), pkt_payload_length := len - (off + ?h) \<rparr>"
  have "ns_packet_parse_ipv4 out ?d len off = ns_packet_parse_transport ?o ?d len (off + ?h) (ip4_protocol i)"
    using p c frag assms(5)
    by (auto simp: ns_packet_parse_ipv4_def union_views link_only_def Let_def ns_packet_set_payload_in [OF hl(1) le])
  with that [of ?o "off + ?h"] hl(2) assms(5) show thesis by (simp add: link_only_def)
qed

lemma parse_ipv6_layer:
  assumes "ipv6_wf i" "\<not> is_ext (ip6_next_header i)"
    and "unat len = length (pre @ ipv6_bytes i @ body)" "unat off = length pre"
    and "link_only (pre @ ipv6_bytes i @ body) len out"
  obtains out1 off1 where
    "ns_packet_parse_ipv6 out (pre @ ipv6_bytes i @ body) len off =
       ns_packet_parse_transport out1 (pre @ ipv6_bytes i @ body) len off1 (ip6_next_header i)"
    "unat off1 = length (pre @ ipv6_bytes i)" "no_transport out1" "\<not> pkt_malformed out1"
    "pkt_malformed_reason out1 = None" "pkt_net out1 = Net_ipv6 i" "pkt_network_proto out1 = NS_PROTO_IPV6"
    "pkt_eth out1 = pkt_eth out" "pkt_has_eth out1"
proof -
  let ?d = "pre @ ipv6_bytes i @ body"
  have p: "ptr_add ?d off = Some (ipv6_bytes i @ body)" using assms(4) by (simp add: ptr_add_def)
  have "unat (len - off) = length (ipv6_bytes i @ body)" using assms(3,4) by (simp add: unat_sub_le)
  from ns_parse_ipv6_bytes [OF assms(1) this]
  have c: "ns_parse_ipv6 (ipv6_bytes i @ body) (len - off) ns_ipv6_zero = Some (NS_PARSE_OK, i, Some 40)" .
  have "unat (off + 40) = length pre + 40" using unat_add_le [of off 40 len] assms(1,3,4) by simp
  then have hl: "unat (off + 40) \<le> unat len" "unat (off + 40) = length (pre @ ipv6_bytes i)"
    using assms(1,3) by simp_all
  have le: "unat len \<le> length ?d" using assms(3) by simp
  have skip: "ns_ipv6_skip_extension_headers ?d len (off + 40) (ip6_next_header i) = Some (True, off + 40, ip6_next_header i)"
    using ns_ipv6_skip_loop_Suc [OF le hl(1), of 7 "ip6_next_header i"] assms(2)
    by (simp add: ns_ipv6_skip_extension_headers_def eval_nat_numeral)
  let ?o = "out\<lparr> pkt_net := Net_ipv6 i, pkt_network_proto := NS_PROTO_IPV6,
      pkt_payload := Some (drop (unat (off + 40)) ?d), pkt_payload_length := len - (off + 40) \<rparr>"
  have "ns_packet_parse_ipv6 out ?d len off = ns_packet_parse_transport ?o ?d len (off + 40) (ip6_next_header i)"
    using p c skip assms(5)
    by (simp add: ns_packet_parse_ipv6_def union_views link_only_def ns_packet_set_payload_in [OF hl(1) le])
  with that [of ?o "off + 40"] hl(2) assms(5) show thesis by (simp add: link_only_def)
qed

text \<open>The Ethernet header, with or without a VLAN tag.\<close>

definition eth_header :: "bytes \<Rightarrow> bytes \<Rightarrow> nat option \<Rightarrow> nat \<Rightarrow> bytes" where
  "eth_header dst src tci ethertype =
     dst @ src @ (case tci of None \<Rightarrow> [] | Some t \<Rightarrow> to_be 2 0x8100 @ to_be 2 t) @ to_be 2 ethertype"

lemma eth_frame_header: "eth_frame dst src tci ethertype body = eth_header dst src tci ethertype @ body"
  by (simp add: eth_frame_def eth_header_def)

definition eth_of :: "bytes \<Rightarrow> bytes \<Rightarrow> nat option \<Rightarrow> nat \<Rightarrow> ns_eth_info_t" where
  "eth_of dst src tci ethertype =
     \<lparr> eth_destination = dst, eth_source = src, eth_ethertype = of_nat ethertype, eth_has_vlan = (tci \<noteq> None),
       eth_vlan_id = (case tci of None \<Rightarrow> 0 | Some t \<Rightarrow> of_nat (t mod 4096)) \<rparr>"

lemma parse_eth_layer:
  assumes "length dst = 6" "length src = 6" "et = 0x0800 \<or> et = 0x86DD"
    and "unat len = length (eth_frame dst src tci et body)"
  obtains out off where
    "ns_packet_parse (eth_frame dst src tci et body) len orig ts num NS_LINK_ETHERNET =
       (if et = 0x0800 then ns_packet_parse_ipv4 out (eth_frame dst src tci et body) len off
        else ns_packet_parse_ipv6 out (eth_frame dst src tci et body) len off)"
    "unat off = length (eth_header dst src tci et)" "link_only (eth_frame dst src tci et body) len out"
    "pkt_eth out = eth_of dst src tci et"
proof -
  let ?d = "eth_frame dst src tci et body"
  let ?e = "eth_of dst src tci et"
  define off where "off = (if tci = None then 14 else 18 :: size_t)"
  have off: "unat off = length (eth_header dst src tci et)"
    using assms(1,2) by (cases tci) (simp_all add: off_def eth_header_def)
  have c: "ns_parse_ethernet ?d len ns_eth_zero = Some (NS_PARSE_OK, ?e, Some off)"
    using ns_parse_ethernet_frame [OF assms(1,2) _ _ assms(4)] assms(3) by (auto simp: off_def eth_of_def)
  have le: "unat off \<le> unat len" "unat len \<le> length ?d" using off assms(4) by (simp_all add: eth_frame_header)
  let ?o = "ns_packet_zero\<lparr> pkt_number := num, pkt_timestamp := ts, pkt_captured_length := len,
       pkt_original_length := orig, pkt_raw_data := Some ?d, pkt_link_type := NS_LINK_ETHERNET,
       pkt_eth := ?e, pkt_has_eth := True,
       pkt_payload := Some (drop (unat off) ?d), pkt_payload_length := len - off \<rparr>"
  have "payload_at ?d len (unat off) ?o" "eth_sized ?e"
    using le(1) assms(1,2) by (simp_all add: payload_at_def unat_sub_le eth_sized_def eth_of_def)
  then have "link_only ?d len ?o"
    unfolding link_only_def no_transport_def by (intro conjI exI) (simp_all add: ns_packet_zero_def)
  moreover have "ns_packet_parse ?d len orig ts num NS_LINK_ETHERNET =
     (if et = 0x0800 then ns_packet_parse_ipv4 ?o ?d len off else ns_packet_parse_ipv6 ?o ?d len off)"
    using c assms(3) by (auto simp: ns_packet_parse_def ns_packet_set_payload_in [OF le] ns_packet_zero_def eth_of_def)
  ultimately show thesis using that off by simp
qed

lemma ns_packet_parse_udp4_frame:
  assumes "length dst = 6" "length src = 6" "ipv4_wf i opts" "ip4_fragment_offset i = 0" "ip4_protocol i = 17"
    and "8 \<le> unat (udp_length u)"
    and d: "d = eth_frame dst src tci 0x0800 (ipv4_bytes i opts @ udp_bytes u @ body)" and len: "unat len = length d"
  shows "\<exists>p. ns_packet_parse d len orig ts num NS_LINK_ETHERNET = Some p \<and>
    pkt_eth p = eth_of dst src tci 0x0800 \<and> pkt_net p = Net_ipv4 i \<and> pkt_network_proto p = NS_PROTO_IPV4 \<and>
    pkt_transport_proto p = NS_PROTO_UDP \<and> pkt_transport p = Tr_udp u \<and> captured_payload p = body \<and>
    transport_inv p \<and> \<not> pkt_malformed p"
proof -
  let ?h = "eth_header dst src tci 0x0800"
  have dd: "d = ?h @ ipv4_bytes i opts @ udp_bytes u @ body" by (simp add: d eth_frame_header)
  obtain out off where 1: "ns_packet_parse d len orig ts num NS_LINK_ETHERNET = ns_packet_parse_ipv4 out d len off"
    "unat off = length ?h" "link_only d len out" "pkt_eth out = eth_of dst src tci 0x0800"
    using parse_eth_layer [OF assms(1,2), where et = "0x0800" and len = len and tci = tci and
        body = "ipv4_bytes i opts @ udp_bytes u @ body" and orig = orig and ts = ts and num = num] d len by auto
  obtain out1 off1 where 2: "ns_packet_parse_ipv4 out d len off = ns_packet_parse_transport out1 d len off1 17"
    "unat off1 = length (?h @ ipv4_bytes i opts)" "no_transport out1" "\<not> pkt_malformed out1"
    "pkt_malformed_reason out1 = None" "pkt_net out1 = Net_ipv4 i" "pkt_network_proto out1 = NS_PROTO_IPV4"
    "pkt_eth out1 = pkt_eth out"
    using parse_ipv4_layer [OF assms(3,4) len [unfolded dd] 1(2)] 1(3) assms(5) unfolding dd by metis
  have dd': "d = (?h @ ipv4_bytes i opts) @ udp_bytes u @ body" by (simp add: dd)
  obtain p where "ns_packet_parse_transport out1 d len off1 17 = Some p" "same_below_transport out1 p"
    "pkt_transport_proto p = NS_PROTO_UDP" "pkt_transport p = Tr_udp u" "captured_payload p = body" "transport_inv p"
    "\<not> pkt_malformed p"
    using parse_udp_layer [OF assms(6) len [unfolded dd'] 2(2-5)] unfolding dd' by blast
  then show ?thesis using 1 2 same_below_transport_sel [of out1 p] by auto
qed

lemma ns_packet_parse_tcp6_frame:
  assumes "length dst = 6" "length src = 6" "ipv6_wf i" "ip6_next_header i = 6" "tcp_wf t reserved opts"
    and d: "d = eth_frame dst src tci 0x86DD (ipv6_bytes i @ tcp_bytes t reserved opts @ body)" and len: "unat len = length d"
  shows "\<exists>p. ns_packet_parse d len orig ts num NS_LINK_ETHERNET = Some p \<and>
    pkt_eth p = eth_of dst src tci 0x86DD \<and> pkt_net p = Net_ipv6 i \<and> pkt_network_proto p = NS_PROTO_IPV6 \<and>
    pkt_transport_proto p = NS_PROTO_TCP \<and> pkt_transport p = Tr_tcp t \<and> captured_payload p = body \<and>
    transport_inv p \<and> \<not> pkt_malformed p"
proof -
  let ?h = "eth_header dst src tci 0x86DD"
  have dd: "d = ?h @ ipv6_bytes i @ tcp_bytes t reserved opts @ body" by (simp add: d eth_frame_header)
  obtain out off where 1: "ns_packet_parse d len orig ts num NS_LINK_ETHERNET = ns_packet_parse_ipv6 out d len off"
    "unat off = length ?h" "link_only d len out" "pkt_eth out = eth_of dst src tci 0x86DD"
    using parse_eth_layer [OF assms(1,2), where et = "0x86DD" and len = len and tci = tci and
        body = "ipv6_bytes i @ tcp_bytes t reserved opts @ body" and orig = orig and ts = ts and num = num] d len by auto
  have "\<not> is_ext (ip6_next_header i)" using assms(4) by (simp add: is_ext_def)
  then obtain out1 off1 where 2: "ns_packet_parse_ipv6 out d len off = ns_packet_parse_transport out1 d len off1 6"
    "unat off1 = length (?h @ ipv6_bytes i)" "no_transport out1" "\<not> pkt_malformed out1"
    "pkt_malformed_reason out1 = None" "pkt_net out1 = Net_ipv6 i" "pkt_network_proto out1 = NS_PROTO_IPV6"
    "pkt_eth out1 = pkt_eth out"
    using parse_ipv6_layer [OF assms(3) _ len [unfolded dd] 1(2)] 1(3) assms(4) unfolding dd by metis
  have dd': "d = (?h @ ipv6_bytes i) @ tcp_bytes t reserved opts @ body" by (simp add: dd)
  obtain p where "ns_packet_parse_transport out1 d len off1 6 = Some p" "same_below_transport out1 p"
    "pkt_transport_proto p = NS_PROTO_TCP" "pkt_transport p = Tr_tcp t" "captured_payload p = body" "transport_inv p"
    "\<not> pkt_malformed p"
    using parse_tcp_layer [OF assms(5) len [unfolded dd'] 2(2-5)] unfolding dd' by blast
  then show ?thesis using 1 2 same_below_transport_sel [of out1 p] by auto
qed

subsection \<open>Properties\<close>

text \<open>Two concrete frames the witnesses use: an IPv4 packet that is a later fragment, and a DNS query
  for \<^verbatim>\<open>ab.c\<close> over UDP.\<close>

definition frame_time :: ns_timestamp_t where
  "frame_time = \<lparr> ts_seconds = 0, ts_microseconds = 0 \<rparr>"

definition fragment_frame :: bytes where
  "fragment_frame = [1, 2, 3, 4, 5, 6, 7, 8, 9, 10, 11, 12, 8, 0, 0x45, 0, 0, 24, 0, 1, 0, 5, 64, 17, 0, 0,
     10, 0, 0, 1, 10, 0, 0, 2, 0xDE, 0xAD, 0xBE, 0xEF]"

lemma fragment_frame_parsed:
  obtains p i where "ns_packet_parse fragment_frame 38 38 frame_time 1 NS_LINK_ETHERNET = Some p"
    "pkt_network_proto p = NS_PROTO_IPV4" "pkt_net p = Net_ipv4 i" "ip4_fragment_offset i \<noteq> 0"
proof -
  have "case ns_packet_parse fragment_frame 38 38 frame_time 1 NS_LINK_ETHERNET of None \<Rightarrow> False
    | Some p \<Rightarrow> pkt_network_proto p = NS_PROTO_IPV4 \<and>
        (case pkt_net p of Net_ipv4 i \<Rightarrow> ip4_fragment_offset i \<noteq> 0 | _ \<Rightarrow> False)"
    by code_simp
  then show thesis using that by (auto split: option.splits net_union.splits)
qed

definition query_ip :: ns_ipv4_info_t where
  "query_ip = ns_ipv4_zero\<lparr> ip4_version := 4, ip4_ihl := 5, ip4_total_length := 50, ip4_protocol := 17,
     ip4_header_length := 20, ip4_source := 1, ip4_destination := 2 \<rparr>"

definition query_udp :: ns_udp_info_t where
  "query_udp = \<lparr> udp_source_port = 4000, udp_destination_port = 53, udp_length = 30, udp_checksum = 0 \<rparr>"

definition query_question :: question where
  "query_question = ([[0x61, 0x62], [0x63]], 1, 1)"

definition query_frame :: bytes where
  "query_frame = eth_frame [1, 2, 3, 4, 5, 6] [7, 8, 9, 10, 11, 12] None 0x0800
     (ipv4_bytes query_ip [] @ udp_bytes query_udp @ dns_query_bytes 7 0x0100 [query_question])"

lemma query_question_wf: "question_wf query_question"
  by (simp add: question_wf_def query_question_def dns_name_fits_def dns_text_def chars_def)

lemma query_frame_wf: "ipv4_wf query_ip []" "length query_frame = 64"
  by (simp_all add: ipv4_wf_def query_ip_def ns_ipv4_zero_def query_frame_def eth_frame_def
      dns_query_bytes_def question_bytes_def query_question_def dns_encode_def)

lemma query_frame_parsed:
  obtains p where "ns_packet_parse query_frame 64 64 frame_time 1 NS_LINK_ETHERNET = Some p" "port_53 p"
    "captured_payload p = dns_query_bytes 7 0x0100 [query_question]"
proof -
  have "ip4_fragment_offset query_ip = 0" "ip4_protocol query_ip = 17" "8 \<le> unat (udp_length query_udp)"
    by (simp_all add: query_ip_def ns_ipv4_zero_def query_udp_def)
  from ns_packet_parse_udp4_frame [OF _ _ query_frame_wf(1) this query_frame_def, of 64 64 frame_time 1] that
  show thesis by (fastforce simp: query_frame_wf port_53_def query_udp_def)
qed

text \<open>C1: memory safety of the decoder. Whatever bytes were captured, as long as the captured length
  does not exceed the buffer, \<open>ns_packet_parse\<close> reads no byte outside the captured ones and
  uses no unassigned variable or wrong union member; the capture data are stored unchanged and
  the payload pointer and length describe a suffix of the captured bytes.\<close>

theorem packet_parse_defined:
  assumes "unat captured_length \<le> length data"
  shows "\<exists>p off. ns_packet_parse data captured_length original_length timestamp number link_type = Some p \<and>
    capture_fields p = (number, timestamp, captured_length, original_length, Some data, link_type) \<and>
    off \<le> unat captured_length \<and> pkt_payload p = Some (drop off data) \<and>
    unat (pkt_payload_length p) = unat captured_length - off"
  using ns_packet_parse_safe [OF assms, of original_length timestamp number link_type]
  by (auto simp: packet_inv_def payload_at_def)

theorem packet_parse_defined_witness:
  "\<exists>p off. ns_packet_parse [0xFF, 0xFF, 0xFF] 3 60 \<lparr> ts_seconds = 0, ts_microseconds = 0 \<rparr> 1 NS_LINK_ETHERNET = Some p \<and>
    capture_fields p = (1, \<lparr> ts_seconds = 0, ts_microseconds = 0 \<rparr>, 3, 60, Some [0xFF, 0xFF, 0xFF], NS_LINK_ETHERNET) \<and>
    off \<le> unat (3 :: size_t) \<and> pkt_payload p = Some (drop off [0xFF, 0xFF, 0xFF]) \<and>
    unat (pkt_payload_length p) = unat (3 :: size_t) - off"
  by (rule packet_parse_defined) simp

text \<open>C7: the tags of a decoded packet tell the truth. The network and transport tags name the union
  member that is stored, a transport layer appears only above IPv4 or IPv6, ARP has none, a
  network layer only above an accepted Ethernet header, and a packet marked malformed has a reason
  and no transport layer.\<close>

theorem packet_tags_match:
  assumes "unat captured_length \<le> length data"
    and "ns_packet_parse data captured_length original_length timestamp number link_type = Some p"
  shows "(case pkt_network_proto p of
        NS_PROTO_UNKNOWN \<Rightarrow> pkt_transport_proto p = NS_PROTO_UNKNOWN
      | NS_PROTO_ARP \<Rightarrow> (\<exists>i. pkt_net p = Net_arp i) \<and> pkt_transport_proto p = NS_PROTO_UNKNOWN
      | NS_PROTO_IPV4 \<Rightarrow> (\<exists>i. pkt_net p = Net_ipv4 i)
      | NS_PROTO_IPV6 \<Rightarrow> (\<exists>i. pkt_net p = Net_ipv6 i)
      | _ \<Rightarrow> False) \<and>
    (case pkt_transport_proto p of
        NS_PROTO_UNKNOWN \<Rightarrow> True
      | NS_PROTO_TCP \<Rightarrow> (\<exists>i. pkt_transport p = Tr_tcp i)
      | NS_PROTO_UDP \<Rightarrow> (\<exists>i. pkt_transport p = Tr_udp i)
      | NS_PROTO_ICMP \<Rightarrow> (\<exists>i. pkt_transport p = Tr_icmp i)
      | NS_PROTO_ICMPV6 \<Rightarrow> (\<exists>i. pkt_transport p = Tr_icmpv6 i)
      | _ \<Rightarrow> False) \<and>
    (pkt_network_proto p \<noteq> NS_PROTO_UNKNOWN \<longrightarrow> pkt_has_eth p) \<and>
    (pkt_malformed p \<longleftrightarrow> pkt_malformed_reason p \<noteq> None) \<and>
    (pkt_malformed p \<longrightarrow> pkt_transport_proto p = NS_PROTO_UNKNOWN)"
  using ns_packet_parse_safe [OF assms(1), of original_length timestamp number link_type] assms(2)
  by (auto simp: packet_inv_def network_inv_def transport_inv_def no_transport_def split: ns_proto_t.splits)

theorem packet_tags_match_witness:
  "\<exists>p. ns_packet_parse fragment_frame 38 38 frame_time 1 NS_LINK_ETHERNET = Some p \<and>
    pkt_network_proto p = NS_PROTO_IPV4 \<and> (\<exists>i. pkt_net p = Net_ipv4 i) \<and> pkt_has_eth p"
proof -
  obtain p i where p: "ns_packet_parse fragment_frame 38 38 frame_time 1 NS_LINK_ETHERNET = Some p"
    "pkt_network_proto p = NS_PROTO_IPV4" using fragment_frame_parsed .
  have "unat (38 :: size_t) \<le> length fragment_frame" by (simp add: fragment_frame_def)
  from packet_tags_match [OF this p(1)] p show ?thesis by auto
qed

text \<open>C6: DNS is decoded exactly when it is there. A packet is reported to carry DNS if and only if
  its transport is TCP or UDP with port 53 on one side and the captured payload is a DNS message from its first byte on
  (also over TCP, where the two-byte length prefix is not skipped); the stored questions and answers are then those of that message. A payload that is not one does
  not make the packet malformed.\<close>

theorem packet_dns_exact:
  assumes "unat captured_length \<le> length data"
    and "ns_packet_parse data captured_length original_length timestamp number link_type = Some p"
  shows "(pkt_has_dns p \<longleftrightarrow> port_53 p \<and> (\<exists>qs rs. dns_message (captured_payload p) qs rs)) \<and>
    (pkt_has_dns p \<longrightarrow> (\<exists>qs rs. dns_message (captured_payload p) qs rs \<and>
       message_shown (captured_payload p) (pkt_dns p) qs rs)) \<and>
    (port_53 p \<longrightarrow> \<not> pkt_malformed p)"
  using ns_packet_parse_safe [OF assms(1), of original_length timestamp number link_type] assms(2)
  by (auto simp: packet_inv_def transport_inv_def dns_present_def dns_decoded_def port_53_def
      split: transport_union.splits)

theorem packet_dns_exact_witness:
  "\<exists>p. ns_packet_parse query_frame 64 64 frame_time 1 NS_LINK_ETHERNET = Some p \<and> pkt_has_dns p \<and> \<not> pkt_malformed p"
proof -
  obtain p where p: "ns_packet_parse query_frame 64 64 frame_time 1 NS_LINK_ETHERNET = Some p" "port_53 p"
    "captured_payload p = dns_query_bytes 7 0x0100 [query_question]" using query_frame_parsed .
  have "unat (64 :: size_t) \<le> length query_frame" by (simp add: query_frame_wf)
  moreover have "dns_message (captured_payload p) [query_question] []"
    unfolding p(3) by (rule dns_message_query) (simp_all add: query_question_wf)
  ultimately show ?thesis using packet_dns_exact [OF _ p(1)] p(1,2) by blast
qed

text \<open>C8: a later IPv4 fragment is never given a transport header: for a packet whose fragment offset is
  not zero the decoder stops at the IP layer, and does not call the packet malformed.\<close>

theorem packet_fragment_stops:
  assumes "unat captured_length \<le> length data"
    and "ns_packet_parse data captured_length original_length timestamp number link_type = Some p"
    and "pkt_network_proto p = NS_PROTO_IPV4" "pkt_net p = Net_ipv4 i" "ip4_fragment_offset i \<noteq> 0"
  shows "pkt_transport_proto p = NS_PROTO_UNKNOWN \<and> pkt_transport p = Tr_zero \<and> \<not> pkt_has_dns p \<and> \<not> pkt_malformed p"
  using ns_packet_parse_safe [OF assms(1), of original_length timestamp number link_type] assms(2-)
  by (auto simp: packet_inv_def network_inv_def no_transport_def)


theorem packet_fragment_stops_witness:
  "\<exists>p i. ns_packet_parse fragment_frame 38 38 frame_time 1 NS_LINK_ETHERNET = Some p \<and> pkt_net p = Net_ipv4 i \<and>
    ip4_fragment_offset i \<noteq> 0 \<and> pkt_transport_proto p = NS_PROTO_UNKNOWN"
proof -
  obtain p i where p: "ns_packet_parse fragment_frame 38 38 frame_time 1 NS_LINK_ETHERNET = Some p"
    "pkt_network_proto p = NS_PROTO_IPV4" "pkt_net p = Net_ipv4 i" "ip4_fragment_offset i \<noteq> 0"
    using fragment_frame_parsed .
  have "unat (38 :: size_t) \<le> length fragment_frame" by (simp add: fragment_frame_def)
  from packet_fragment_stops [OF this p] p show ?thesis by blast
qed

text \<open>C9: the full stack read back. A frame built by a sender, Ethernet (with or without a VLAN tag), IPv4
  with options, UDP to or from port 53 and a DNS query, is decoded into exactly these layers, and
  the query's questions are the ones stored.\<close>

theorem packet_dns_query_roundtrip:
  assumes "length dst = 6" "length src = 6" "ipv4_wf i opts" "ip4_fragment_offset i = 0" "ip4_protocol i = 17"
    and "8 \<le> unat (udp_length u)" "udp_source_port u = 53 \<or> udp_destination_port u = 53"
    and "\<forall>q \<in> set qs. question_wf q" "length qs < 65536"
    and "frame = eth_frame dst src tci 0x0800 (ipv4_bytes i opts @ udp_bytes u @ dns_query_bytes txn flags qs)"
    and "unat captured_length = length frame"
  shows "\<exists>p. ns_packet_parse frame captured_length original_length timestamp number NS_LINK_ETHERNET = Some p \<and>
    pkt_eth p = eth_of dst src tci 0x0800 \<and> pkt_network_proto p = NS_PROTO_IPV4 \<and> pkt_net p = Net_ipv4 i \<and>
    pkt_transport_proto p = NS_PROTO_UDP \<and> pkt_transport p = Tr_udp u \<and> pkt_has_dns p \<and> \<not> pkt_malformed p \<and>
    message_shown (dns_query_bytes txn flags qs) (pkt_dns p) qs []"
proof -
  let ?m = "dns_query_bytes txn flags qs"
  obtain p where p: "ns_packet_parse frame captured_length original_length timestamp number NS_LINK_ETHERNET = Some p"
    "pkt_eth p = eth_of dst src tci 0x0800" "pkt_net p = Net_ipv4 i" "pkt_network_proto p = NS_PROTO_IPV4"
    "pkt_transport_proto p = NS_PROTO_UDP" "pkt_transport p = Tr_udp u" "captured_payload p = ?m"
    "transport_inv p" "\<not> pkt_malformed p"
    using ns_packet_parse_udp4_frame [OF assms(1-6,10,11)] by blast
  have m: "dns_message ?m qs []" using dns_message_query [OF assms(8,9)] .
  have "port_53 p" using p(5,6) assms(7) by (simp add: port_53_def)
  with m p(7,8) have "pkt_has_dns p" "dns_decoded p" by (auto simp: transport_inv_def dns_present_def)
  moreover from this(2) obtain qs' rs where "dns_message ?m qs' rs" "message_shown ?m (pkt_dns p) qs' rs"
    unfolding dns_decoded_def p(7) by blast
  ultimately show ?thesis using p dns_message_unique [OF m] by blast
qed

theorem packet_dns_query_roundtrip_witness:
  "\<exists>p. ns_packet_parse query_frame 64 64 frame_time 1 NS_LINK_ETHERNET = Some p \<and> pkt_has_dns p \<and>
    pkt_transport p = Tr_udp query_udp \<and>
    message_shown (dns_query_bytes 7 0x0100 [query_question]) (pkt_dns p) [query_question] []"
proof -
  have "ip4_fragment_offset query_ip = 0" "ip4_protocol query_ip = 17" "8 \<le> unat (udp_length query_udp)"
    "udp_source_port query_udp = 53 \<or> udp_destination_port query_udp = 53"
    "\<forall>q \<in> set [query_question]. question_wf q" "length [query_question] < 65536"
    by (simp_all add: query_ip_def ns_ipv4_zero_def query_udp_def query_question_wf)
  from packet_dns_query_roundtrip [OF _ _ query_frame_wf(1) this query_frame_def, of 64 64 frame_time 1]
  show ?thesis by (auto simp: query_frame_wf)
qed

text \<open>C10: the same for TCP over IPv6: the decoded headers are the ones the sender wrote and the payload is
  what follows the TCP options.\<close>

theorem packet_tcp_ipv6_roundtrip:
  assumes "length dst = 6" "length src = 6" "ipv6_wf i" "ip6_next_header i = 6" "tcp_wf t reserved opts"
    and "frame = eth_frame dst src tci 0x86DD (ipv6_bytes i @ tcp_bytes t reserved opts @ body)"
    and "unat captured_length = length frame"
  shows "\<exists>p. ns_packet_parse frame captured_length original_length timestamp number NS_LINK_ETHERNET = Some p \<and>
    pkt_eth p = eth_of dst src tci 0x86DD \<and> pkt_network_proto p = NS_PROTO_IPV6 \<and> pkt_net p = Net_ipv6 i \<and>
    pkt_transport_proto p = NS_PROTO_TCP \<and> pkt_transport p = Tr_tcp t \<and> captured_payload p = body \<and>
    \<not> pkt_malformed p"
  using ns_packet_parse_tcp6_frame [OF assms] by blast

definition syn_ip :: ns_ipv6_info_t where
  "syn_ip = ns_ipv6_zero\<lparr> ip6_version := 6, ip6_next_header := 6, ip6_header_length := 40 \<rparr>"

definition syn_tcp :: ns_tcp_info_t where
  "syn_tcp = ns_tcp_zero\<lparr> tcp_source_port := 4000, tcp_destination_port := 443, tcp_data_offset := 5,
     tcp_header_length := 20, tcp_flags := 2 \<rparr>"

theorem packet_tcp_ipv6_roundtrip_witness:
  "\<exists>p. ns_packet_parse (eth_frame [1, 2, 3, 4, 5, 6] [7, 8, 9, 10, 11, 12] None 0x86DD (ipv6_bytes syn_ip @ tcp_bytes syn_tcp 0 [] @ []))
      74 74 frame_time 1 NS_LINK_ETHERNET = Some p \<and> pkt_transport p = Tr_tcp syn_tcp \<and> pkt_net p = Net_ipv6 syn_ip"
proof -
  have wf: "ipv6_wf syn_ip" "ip6_next_header syn_ip = 6" "tcp_wf syn_tcp 0 []"
    by (simp_all add: syn_ip_def ns_ipv6_zero_def ipv6_wf_def syn_tcp_def ns_tcp_zero_def tcp_wf_def)
  from packet_tcp_ipv6_roundtrip [OF _ _ wf refl, of "[1, 2, 3, 4, 5, 6]" "[7, 8, 9, 10, 11, 12]" 74 None "[]" 74 frame_time 1]
  show ?thesis using length_ipv6_bytes [OF wf(1)] by (auto simp: eth_frame_def)
qed

end
