(* ===== verification/NS_Flow.thy ===== *)
theory NS_Flow
  imports NS_Probing NS_Packet
begin

section \<open>stats.c: the flow table\<close>

text \<open>
  The data of \<^verbatim>\<open>stats.h\<close>, the endpoints of a packet, the FNV hash and \<open>record_flow\<close>,
  which finds or adds a flow in a table of 1024 slots by linear probing. The specification is a
  finite map from flow keys to packet and byte counts; \<open>record_flow\<close> refines the operation
  that counts a packet in that map as long as there is room for a new key.
\<close>

abbreviation NS_MAX_FLOWS :: u32 where "NS_MAX_FLOWS \<equiv> 1024"

record ns_flow_t =
  fl_in_use :: bool
  fl_protocol :: ns_proto_t
  fl_addr_a :: cbuf
  fl_addr_b :: cbuf
  fl_port_a :: u16
  fl_port_b :: u16
  fl_packets :: u64
  fl_bytes :: u64

record ns_stats_t =
  st_total_packets :: u64
  st_total_captured_bytes :: u64
  st_total_wire_bytes :: u64
  st_ipv4_packets :: u64
  st_ipv6_packets :: u64
  st_arp_packets :: u64
  st_tcp_packets :: u64
  st_udp_packets :: u64
  st_icmp_packets :: u64
  st_icmpv6_packets :: u64
  st_dns_packets :: u64
  st_malformed_packets :: u64
  st_unsupported_packets :: u64
  st_flows :: "ns_flow_t list"
  st_flow_count :: size_t

definition ns_flow_zero :: ns_flow_t where
  "ns_flow_zero = \<lparr> fl_in_use = False, fl_protocol = NS_PROTO_UNKNOWN, fl_addr_a = replicate 46 NUL,
     fl_addr_b = replicate 46 NUL, fl_port_a = 0, fl_port_b = 0, fl_packets = 0, fl_bytes = 0 \<rparr>"

text \<open>\<open>memset(stats, 0, sizeof(*stats))\<close>.\<close>

definition ns_stats_init :: ns_stats_t where
  "ns_stats_init = \<lparr> st_total_packets = 0, st_total_captured_bytes = 0, st_total_wire_bytes = 0,
     st_ipv4_packets = 0, st_ipv6_packets = 0, st_arp_packets = 0, st_tcp_packets = 0,
     st_udp_packets = 0, st_icmp_packets = 0, st_icmpv6_packets = 0, st_dns_packets = 0,
     st_malformed_packets = 0, st_unsupported_packets = 0,
     st_flows = replicate 1024 ns_flow_zero, st_flow_count = 0 \<rparr>"

text \<open>The address pair of an IP packet; \<open>None\<close> inside the computation stands for the
  \<open>return false\<close> of a packet that is neither IPv4 nor IPv6.\<close>

definition extract_addresses ::
  "ns_packet_t \<Rightarrow> cbuf \<Rightarrow> size_t \<Rightarrow> cbuf \<Rightarrow> size_t \<Rightarrow> (cbuf \<times> cbuf) option option" where
  "extract_addresses pkt addr_a addr_a_len addr_b addr_b_len =
     (if pkt_network_proto pkt = NS_PROTO_IPV4 then do {
        i \<leftarrow> net_ipv4 (pkt_net pkt);
        addr_a \<leftarrow> ns_format_ipv4 (ip4_source i) addr_a addr_a_len;
        addr_b \<leftarrow> ns_format_ipv4 (ip4_destination i) addr_b addr_b_len;
        Some (Some (addr_a, addr_b)) }
      else if pkt_network_proto pkt = NS_PROTO_IPV6 then do {
        i \<leftarrow> net_ipv6 (pkt_net pkt);
        addr_a \<leftarrow> ns_format_ipv6 (ip6_source i) addr_a addr_a_len;
        addr_b \<leftarrow> ns_format_ipv6 (ip6_destination i) addr_b addr_b_len;
        Some (Some (addr_a, addr_b)) }
      else Some None)"

text \<open>The result: the returned \<open>bool\<close>, \<open>*proto\<close> (unassigned: \<open>None\<close>), and the
  two address buffers and ports.\<close>

definition extract_endpoints ::
  "ns_packet_t \<Rightarrow> ns_proto_t option \<Rightarrow> cbuf \<Rightarrow> size_t \<Rightarrow> cbuf \<Rightarrow> size_t \<Rightarrow>
     (bool \<times> ns_proto_t option \<times> cbuf \<times> u16 \<times> cbuf \<times> u16) option" where
  "extract_endpoints pkt proto addr_a addr_a_len addr_b addr_b_len =
     (if pkt_network_proto pkt = NS_PROTO_ARP then do {
        i \<leftarrow> net_arp (pkt_net pkt);
        addr_a \<leftarrow> ns_format_ipv4 (arp_sender_ip i) addr_a addr_a_len;
        addr_b \<leftarrow> ns_format_ipv4 (arp_target_ip i) addr_b addr_b_len;
        Some (True, Some NS_PROTO_ARP, addr_a, 0, addr_b, 0) }
      else do {
        addrs \<leftarrow> extract_addresses pkt addr_a addr_a_len addr_b addr_b_len;
        (case addrs of
           None \<Rightarrow> Some (False, proto, addr_a, 0, addr_b, 0)
         | Some (addr_a, addr_b) \<Rightarrow>
             (case pkt_transport_proto pkt of
                NS_PROTO_TCP \<Rightarrow> do {
                  i \<leftarrow> tr_tcp (pkt_transport pkt);
                  Some (True, Some NS_PROTO_TCP, addr_a, tcp_source_port i, addr_b, tcp_destination_port i) }
              | NS_PROTO_UDP \<Rightarrow> do {
                  i \<leftarrow> tr_udp (pkt_transport pkt);
                  Some (True, Some NS_PROTO_UDP, addr_a, udp_source_port i, addr_b, udp_destination_port i) }
              | NS_PROTO_ICMP \<Rightarrow> Some (True, Some NS_PROTO_ICMP, addr_a, 0, addr_b, 0)
              | NS_PROTO_ICMPV6 \<Rightarrow> Some (True, Some NS_PROTO_ICMPV6, addr_a, 0, addr_b, 0)
              | _ \<Rightarrow> Some (False, proto, addr_a, 0, addr_b, 0))) })"

text \<open>The value of the enumeration, stored as a 32-bit integer.\<close>

definition proto_value :: "ns_proto_t \<Rightarrow> u32" where
  "proto_value p = (case p of NS_PROTO_UNKNOWN \<Rightarrow> 0 | NS_PROTO_ARP \<Rightarrow> 1 | NS_PROTO_IPV4 \<Rightarrow> 2
     | NS_PROTO_IPV6 \<Rightarrow> 3 | NS_PROTO_TCP \<Rightarrow> 4 | NS_PROTO_UDP \<Rightarrow> 5 | NS_PROTO_ICMP \<Rightarrow> 6
     | NS_PROTO_ICMPV6 \<Rightarrow> 7 | NS_PROTO_DNS \<Rightarrow> 8)"

definition hash_step :: "u32 \<Rightarrow> u8 \<Rightarrow> u32" where
  "hash_step h b = (h XOR ucast b) * 16777619"

definition hash_flow :: "ns_proto_t \<Rightarrow> cbuf \<Rightarrow> u16 \<Rightarrow> cbuf \<Rightarrow> u16 \<Rightarrow> u32 option" where
  "hash_flow proto addr_a port_a addr_b port_b = do {
     let h = 2166136261;
     let h = foldl hash_step h (mem_of_u32 (proto_value proto));
     s \<leftarrow> c_str addr_a;
     let h = foldl (\<lambda>h c. hash_step h (of_char c)) h s;
     s \<leftarrow> c_str addr_b;
     let h = foldl (\<lambda>h c. hash_step h (of_char c)) h s;
     let h = hash_step h (ucast (port_a AND 0xff));
     let h = hash_step h (ucast (drop_bit 8 port_a));
     let h = hash_step h (ucast (port_b AND 0xff));
     let h = hash_step h (ucast (drop_bit 8 port_b));
     Some h }"

text \<open>The condition that a slot holds the flow, evaluated from left to right.\<close>

definition same_flow :: "ns_flow_t \<Rightarrow> ns_proto_t \<Rightarrow> cbuf \<Rightarrow> u16 \<Rightarrow> cbuf \<Rightarrow> u16 \<Rightarrow> bool option" where
  "same_flow slot proto addr_a port_a addr_b port_b =
     (if fl_in_use slot \<and> fl_protocol slot = proto then do {
        c \<leftarrow> strcmp (fl_addr_a slot) addr_a;
        if c = 0 then do {
          c \<leftarrow> strcmp (fl_addr_b slot) addr_b;
          Some (c = 0 \<and> fl_port_a slot = port_a \<and> fl_port_b slot = port_b) }
        else Some False }
      else Some False)"

function record_flow_loop ::
  "u32 \<Rightarrow> u32 \<Rightarrow> ns_stats_t \<Rightarrow> ns_proto_t \<Rightarrow> cbuf \<Rightarrow> u16 \<Rightarrow> cbuf \<Rightarrow> u16 \<Rightarrow> u64 \<Rightarrow> ns_stats_t option" where
  "record_flow_loop start i stats proto addr_a port_a addr_b port_b bytes =
     (if i < NS_MAX_FLOWS
      then do {
        let idx = (ucast ((start + i) mod NS_MAX_FLOWS) :: size_t);
        slot \<leftarrow> mem_get (st_flows stats) idx;
        same \<leftarrow> same_flow slot proto addr_a port_a addr_b port_b;
        if same then do {
          flows \<leftarrow> mem_set (st_flows stats) idx
            (slot\<lparr> fl_packets := fl_packets slot + 1, fl_bytes := fl_bytes slot + bytes \<rparr>);
          Some (stats\<lparr> st_flows := flows \<rparr>) }
        else if \<not> fl_in_use slot then do {
          s \<leftarrow> c_str addr_a;
          (a, _) \<leftarrow> snprintf (fl_addr_a slot) 0 46 s;
          s \<leftarrow> c_str addr_b;
          (b, _) \<leftarrow> snprintf (fl_addr_b slot) 0 46 s;
          flows \<leftarrow> mem_set (st_flows stats) idx
            (slot\<lparr> fl_in_use := True, fl_protocol := proto, fl_addr_a := a, fl_addr_b := b,
               fl_port_a := port_a, fl_port_b := port_b, fl_packets := 1, fl_bytes := bytes \<rparr>);
          Some (stats\<lparr> st_flows := flows, st_flow_count := st_flow_count stats + 1 \<rparr>) }
        else record_flow_loop start (i + 1) stats proto addr_a port_a addr_b port_b bytes }
      else Some stats)"
  by pat_completeness auto

termination record_flow_loop
  by (relation "measure (\<lambda>(start, i, _). 1024 - unat i)")
    (auto simp: word_less_nat_alt unat_Suc_less [of _ NS_MAX_FLOWS])

declare record_flow_loop.simps [simp del]

definition record_flow ::
  "ns_stats_t \<Rightarrow> ns_proto_t \<Rightarrow> cbuf \<Rightarrow> u16 \<Rightarrow> cbuf \<Rightarrow> u16 \<Rightarrow> u64 \<Rightarrow> ns_stats_t option" where
  "record_flow stats proto addr_a port_a addr_b port_b bytes = do {
     c \<leftarrow> strcmp addr_a addr_b;
     let (addr_a, port_a, addr_b, port_b) =
       (if c > 0 \<or> (c = 0 \<and> port_a > port_b) then (addr_b, port_b, addr_a, port_a)
        else (addr_a, port_a, addr_b, port_b));
     h \<leftarrow> hash_flow proto addr_a port_a addr_b port_b;
     record_flow_loop (h mod NS_MAX_FLOWS) 0 stats proto addr_a port_a addr_b port_b bytes }"

subsection \<open>Keys and the map a table stands for\<close>

type_synonym flow_key = "ns_proto_t \<times> string \<times> u16 \<times> string \<times> u16"
type_synonym flow_map = "flow_key \<rightharpoonup> u64 \<times> u64"

definition flow_hash :: "flow_key \<Rightarrow> u32" where
  "flow_hash = (\<lambda>(p, a, pa, b, pb).
     foldl hash_step (foldl (\<lambda>h c. hash_step h (of_char c)) (foldl hash_step 2166136261 (mem_of_u32 (proto_value p)))
       (a @ b)) [ucast (pa AND 0xff), ucast (drop_bit 8 pa), ucast (pb AND 0xff), ucast (drop_bit 8 pb)])"

definition flow_home :: "flow_key \<Rightarrow> nat" where
  "flow_home k = unat (flow_hash k) mod 1024"

text \<open>Both directions of a conversation have one key: the smaller endpoint comes first.\<close>

definition canonical :: "flow_key \<Rightarrow> flow_key" where
  "canonical = (\<lambda>(p, a, pa, b, pb).
     if strcmp_str a b > 0 \<or> (a = b \<and> pa > pb) then (p, b, pb, a, pa) else (p, a, pa, b, pb))"

definition flow_slot :: "ns_flow_t \<Rightarrow> (flow_key \<times> u64 \<times> u64) option" where
  "flow_slot f = (if fl_in_use f
     then Some ((fl_protocol f, the (c_str (fl_addr_a f)), fl_port_a f, the (c_str (fl_addr_b f)), fl_port_b f),
       fl_packets f, fl_bytes f) else None)"

definition flow_slots :: "ns_stats_t \<Rightarrow> (flow_key, u64 \<times> u64) slots" where
  "flow_slots st = map flow_slot (st_flows st)"

definition flows_of :: "ns_stats_t \<Rightarrow> flow_map" where
  "flows_of st = table_map (flow_slots st)"

definition flows_inv :: "ns_stats_t \<Rightarrow> bool" where
  "flows_inv st \<longleftrightarrow> probe_inv 1024 flow_home (flow_slots st) \<and>
     (\<forall>f \<in> set (st_flows st). text_buf 46 (fl_addr_a f) \<and> text_buf 46 (fl_addr_b f)) \<and>
     unat (st_flow_count st) = card (dom (flows_of st))"

text \<open>The specification: count one packet of \<open>n\<close> bytes for key \<open>k\<close> in a map that
  holds at most \<open>cap\<close> keys.\<close>

definition count_flow :: "nat \<Rightarrow> flow_map \<Rightarrow> flow_key \<Rightarrow> u64 \<Rightarrow> flow_map" where
  "count_flow cap m k n = (case m k of
     Some (p, b) \<Rightarrow> m(k \<mapsto> (p + 1, b + n))
   | None \<Rightarrow> if card (dom m) < cap then m(k \<mapsto> (1, n)) else m)"

interpretation ft: probing 1024 flow_home
  by unfold_locales (simp_all add: flow_home_def)

lemma strcmp_str_self [simp]: "strcmp_str s s = 0"
  by simp

lemma hash_flow_key:
  assumes "c_str a = Some s" "c_str b = Some t"
  shows "hash_flow p a pa b pb = Some (flow_hash (p, s, pa, t, pb))"
  using assms by (simp add: hash_flow_def flow_hash_def)

lemma same_flow_key:
  assumes "c_str a = Some s" "c_str b = Some t" "text_buf 46 (fl_addr_a f)" "text_buf 46 (fl_addr_b f)"
  shows "same_flow f p a pa b pb = Some (\<exists>v. flow_slot f = Some ((p, s, pa, t, pb), v))"
  using assms by (auto simp: same_flow_def flow_slot_def strcmp_def text_buf_c_str)

lemma ns_stats_init_inv: "flows_inv ns_stats_init" "flows_of ns_stats_init = Map.empty"
proof -
  have e: "flow_slots ns_stats_init = replicate 1024 None"
    by (simp add: flow_slots_def ns_stats_init_def flow_slot_def ns_flow_zero_def)
  show "flows_of ns_stats_init = Map.empty" by (simp add: flows_of_def e table_map_def)
  then show "flows_inv ns_stats_init"
    using ft.empty_inv by (simp add: flows_inv_def e)
      (simp add: ns_stats_init_def ns_flow_zero_def text_buf_def)
qed

subsection \<open>\<open>record_flow\<close> counts in the map\<close>

lemma probe_index:
  "unat (ucast ((flow_hash k mod NS_MAX_FLOWS + i) mod NS_MAX_FLOWS) :: size_t) = probe 1024 (flow_home k) (unat i)"
proof -
  have "unat ((flow_hash k mod 1024 + i) mod 1024) = (unat (flow_hash k) mod 1024 + unat i) mod 1024"
    by (simp add: unat_mod unat_word_ariths mod_mod_cancel)
  then show ?thesis by (simp add: unat_ucast_up probe_def flow_home_def)
qed

text \<open>A slot written where the search for its key ended.\<close>

lemma write_flow:
  assumes inv: "flows_inv st" and m: "m < 1024" "passed 1024 (flow_home k) (flow_slots st) k m"
    and j: "j = probe 1024 (flow_home k) m"
    and old: "flow_slot (st_flows st ! j) = None \<or> (\<exists>v. flow_slot (st_flows st ! j) = Some (k, v))"
    and new: "flow_slot f = Some (k, w)" "text_buf 46 (fl_addr_a f)" "text_buf 46 (fl_addr_b f)"
    and count: "unat c = card (dom ((flows_of st)(k \<mapsto> w)))"
  shows "flows_inv (st\<lparr> st_flows := (st_flows st)[j := f], st_flow_count := c \<rparr>)"
    and "flows_of (st\<lparr> st_flows := (st_flows st)[j := f], st_flow_count := c \<rparr>) = (flows_of st)(k \<mapsto> w)"
proof -
  let ?st = "st\<lparr> st_flows := (st_flows st)[j := f], st_flow_count := c \<rparr>"
  have pinv: "probe_inv 1024 flow_home (flow_slots st)" using inv by (simp add: flows_inv_def)
  then have len: "length (st_flows st) = 1024" by (simp add: probe_inv_def flow_slots_def)
  have jl: "j < 1024" using ft.probe_less j by simp
  have slots: "flow_slots ?st = (flow_slots st)[j := Some (k, w)]"
    using new(1) by (simp add: flow_slots_def map_update)
  have "flow_slots st ! j = flow_slot (st_flows st ! j)" using len jl by (simp add: flow_slots_def)
  with old j have slot: "flow_slots st ! probe 1024 (flow_home k) m = None \<or>
      (\<exists>v. flow_slots st ! probe 1024 (flow_home k) m = Some (k, v))" by simp
  show map: "flows_of ?st = (flows_of st)(k \<mapsto> w)"
    using ft.write_map [OF pinv m slot, of w] unfolding flows_of_def slots unfolding j .
  have "text_buf 46 (fl_addr_a g) \<and> text_buf 46 (fl_addr_b g)" if "g \<in> set ((st_flows st)[j := f])" for g
    using that new(2,3) inv set_update_subset_insert [of "st_flows st" j f] by (auto simp: flows_inv_def)
  then show "flows_inv ?st"
    using ft.write_inv [OF pinv m slot, of w, folded j] count unfolding flows_inv_def slots map by simp
qed

lemma snprintf_addr:
  assumes "nul_free s" "length s < 46" "length p = 46"
  obtains q where "snprintf p 0 46 s = Some (q, int (length s))" "text_buf 46 q" "c_str q = Some s"
proof -
  have "unat (46 :: size_t) = length p" "0 < length p" using assms(3) by simp_all
  from snprintf_whole [OF assms(1) this] assms(2,3) that show thesis
    by (metis One_nat_def diff_Suc_1 less_Suc_eq_le numeral_eq_Suc pred_numeral_simps(2) take_all text_buf_c_str)
qed

lemma record_flow_loop_counts:
  assumes inv: "flows_inv st" and s: "c_str a = Some s" "length s < 46" and t: "c_str b = Some t" "length t < 46"
    and k: "k = (p, s, pa, t, pb)" and i: "unat i \<le> 1024" "passed 1024 (flow_home k) (flow_slots st) k (unat i)"
  shows "\<exists>st'. record_flow_loop (flow_hash k mod NS_MAX_FLOWS) i st p a pa b pb n = Some st' \<and> flows_inv st' \<and>
    flows_of st' = count_flow 1024 (flows_of st) k n \<and>
    st' = st\<lparr> st_flows := st_flows st', st_flow_count := st_flow_count st' \<rparr>"
  using i
proof (induction "1024 - unat i" arbitrary: i)
  case 0
  then have "unat i = 1024" by simp
  have pinv: "probe_inv 1024 flow_home (flow_slots st)" using inv by (simp add: flows_inv_def)
  have "flows_of st k = None" "card (dom (flows_of st)) = 1024"
    using ft.absent [OF pinv _ 0(3)] ft.full [OF pinv] 0(3) \<open>unat i = 1024\<close> by (auto simp: flows_of_def)
  moreover have "record_flow_loop (flow_hash k mod NS_MAX_FLOWS) i st p a pa b pb n = Some st"
    using \<open>unat i = 1024\<close> by (subst record_flow_loop.simps) (simp add: word_less_nat_alt)
  ultimately show ?case using inv by (simp add: count_flow_def)
next
  case (Suc x)
  then have il: "unat i < 1024" "i < NS_MAX_FLOWS" by (simp_all add: word_less_nat_alt)
  have pinv: "probe_inv 1024 flow_home (flow_slots st)" using inv by (simp add: flows_inv_def)
  then have len: "length (st_flows st) = 1024" by (simp add: probe_inv_def flow_slots_def)
  define j where "j = probe 1024 (flow_home k) (unat i)"
  have jl: "j < 1024" using ft.probe_less by (simp add: j_def)
  define f where "f = st_flows st ! j"
  have slot: "flow_slots st ! j = flow_slot f" using len jl by (simp add: flow_slots_def f_def)
  have bufs: "text_buf 46 (fl_addr_a f)" "text_buf 46 (fl_addr_b f)"
    using inv len jl by (simp_all add: flows_inv_def f_def)
  note step = record_flow_loop.simps [of "flow_hash k mod NS_MAX_FLOWS" i st p a pa b pb n]
  note eval = il same_flow_key [OF s(1) t(1) bufs, of p pa pb, folded k] Let_def mem_get_def mem_set_def
    probe_index len j_def [symmetric] jl f_def [symmetric]
  consider (hit) v where "flow_slot f = Some (k, v)" | (free) "flow_slot f = None"
    | (other) k' v where "flow_slot f = Some (k', v)" "k' \<noteq> k"
    by (metis option.exhaust surj_pair)
  then show ?case
  proof cases
    case hit
    let ?f = "f\<lparr> fl_packets := fl_packets f + 1, fl_bytes := fl_bytes f + n \<rparr>"
    let ?w = "(fl_packets f + 1, fl_bytes f + n)"
    have v: "v = (fl_packets f, fl_bytes f)" and new: "flow_slot ?f = Some (k, ?w)"
      using hit by (auto simp: flow_slot_def split: if_splits)
    have m: "flows_of st k = Some v"
      using ft.table_map_slot [OF pinv, of k v] slot hit jl by (auto simp: flows_of_def)
    then have c: "unat (st_flow_count st) = card (dom ((flows_of st)(k \<mapsto> ?w)))"
      using inv by (simp add: flows_inv_def insert_absorb domIff)
    have "record_flow_loop (flow_hash k mod NS_MAX_FLOWS) i st p a pa b pb n =
        Some (st\<lparr> st_flows := (st_flows st)[j := ?f], st_flow_count := st_flow_count st \<rparr>)"
      using hit by (simp add: step eval)
    moreover have "flow_slot (st_flows st ! j) = Some (k, v)" using hit by (simp add: f_def)
    ultimately show ?thesis
      using write_flow [OF inv il(1) Suc.prems(2) j_def _ new _ _ c] bufs m v
      by (auto simp: count_flow_def)
  next
    case free
    then have nf: "\<not> fl_in_use f" by (auto simp: flow_slot_def split: if_splits)
    obtain qa where qa: "snprintf (fl_addr_a f) 0 46 s = Some (qa, int (length s))" "text_buf 46 qa" "c_str qa = Some s"
      using snprintf_addr [OF c_str_nul_free [OF s(1)] s(2)] bufs by (auto simp: text_buf_def)
    obtain qb where qb: "snprintf (fl_addr_b f) 0 46 t = Some (qb, int (length t))" "text_buf 46 qb" "c_str qb = Some t"
      using snprintf_addr [OF c_str_nul_free [OF t(1)] t(2)] bufs by (auto simp: text_buf_def)
    let ?f = "f\<lparr> fl_in_use := True, fl_protocol := p, fl_addr_a := qa, fl_addr_b := qb,
               fl_port_a := pa, fl_port_b := pb, fl_packets := 1, fl_bytes := n \<rparr>"
    have new: "flow_slot ?f = Some (k, (1, n))" using qa qb k by (simp add: flow_slot_def)
    have none: "flow_slots st ! j = None" using slot free by simp
    have m: "flows_of st k = None" "card (dom (flows_of st)) < 1024"
      using ft.absent [OF pinv _ Suc.prems(2)] ft.not_full [OF pinv jl none] none il
      by (simp_all add: flows_of_def j_def)
    then have "finite (dom (flows_of st))" by (simp add: flows_of_def table_map_def finite_dom_map_of)
    with m inv have c: "unat (st_flow_count st + 1) = card (dom ((flows_of st)(k \<mapsto> (1, n))))"
      by (simp add: flows_inv_def unat_word_ariths domIff)
    have "record_flow_loop (flow_hash k mod NS_MAX_FLOWS) i st p a pa b pb n =
        Some (st\<lparr> st_flows := (st_flows st)[j := ?f], st_flow_count := st_flow_count st + 1 \<rparr>)"
      using free nf s(1) t(1) qa(1) qb(1) by (simp add: step eval)
    moreover have "flow_slot (st_flows st ! j) = None" using free by (simp add: f_def)
    ultimately show ?thesis
      using write_flow [OF inv il(1) Suc.prems(2) j_def _ new _ _ c] qa(2) qb(2) m
      by (auto simp: count_flow_def)
  next
    case other
    then have "fl_in_use f" by (auto simp: flow_slot_def split: if_splits)
    then have "record_flow_loop (flow_hash k mod NS_MAX_FLOWS) i st p a pa b pb n =
        record_flow_loop (flow_hash k mod NS_MAX_FLOWS) (i + 1) st p a pa b pb n"
      using other by (simp add: step eval)
    moreover have i1: "unat (i + 1) = Suc (unat i)" using il(1) by (simp add: unat_word_ariths)
    moreover have "passed 1024 (flow_home k) (flow_slots st) k (Suc (unat i))"
      using passed_Suc [OF Suc.prems(2)] other slot unfolding j_def by simp
    ultimately show ?thesis using Suc.hyps(1) [of "i + 1"] Suc.hyps(2) il(1) by simp
  qed
qed

lemma record_flow_counts:
  assumes "flows_inv st" "c_str a = Some s" "length s < 46" "c_str b = Some t" "length t < 46"
  shows "\<exists>st'. record_flow st p a pa b pb n = Some st' \<and> flows_inv st' \<and>
    flows_of st' = count_flow 1024 (flows_of st) (canonical (p, s, pa, t, pb)) n \<and>
    st' = st\<lparr> st_flows := st_flows st', st_flow_count := st_flow_count st' \<rparr>"
proof -
  have "strcmp a b = Some (strcmp_str s t)" using assms by (simp add: strcmp_def)
  moreover have "passed 1024 h t' k 0" for h k and t' :: "(flow_key, u64 \<times> u64) slots" by (simp add: passed_def)
  ultimately show ?thesis
    using record_flow_loop_counts [OF assms refl, of 0 p pa pb n] hash_flow_key [OF assms(2,4)]
      record_flow_loop_counts [OF assms(1,4,5,2,3) refl, of 0 p pb pa n] hash_flow_key [OF assms(4,2)]
    by (auto simp: record_flow_def canonical_def)
qed

end
