(* ===== verification/NS_Stats.thy ===== *)
theory NS_Stats
  imports NS_Flow
begin

section \<open>stats.c: the counters\<close>

text \<open>
  \<open>ns_stats_update\<close>, called once per decoded packet, and what a whole run of it computes. The
  key under which a packet is counted is specified on the decoded packet; the run theorem says
  that the counters are the numbers of packets of each kind and that the flow table holds the
  first 1024 distinct keys with exactly the packets and bytes of those keys.
\<close>

definition ns_stats_update :: "ns_stats_t \<Rightarrow> ns_packet_t \<Rightarrow> ns_stats_t option" where
  "ns_stats_update stats pkt = do {
     let stats = stats\<lparr> st_total_packets := st_total_packets stats + 1,
       st_total_captured_bytes := st_total_captured_bytes stats + pkt_captured_length pkt,
       st_total_wire_bytes := st_total_wire_bytes stats + pkt_original_length pkt \<rparr>;
     let stats = (if pkt_malformed pkt
       then stats\<lparr> st_malformed_packets := st_malformed_packets stats + 1 \<rparr> else stats);
     let stats = (case pkt_network_proto pkt of
         NS_PROTO_IPV4 \<Rightarrow> stats\<lparr> st_ipv4_packets := st_ipv4_packets stats + 1 \<rparr>
       | NS_PROTO_IPV6 \<Rightarrow> stats\<lparr> st_ipv6_packets := st_ipv6_packets stats + 1 \<rparr>
       | NS_PROTO_ARP \<Rightarrow> stats\<lparr> st_arp_packets := st_arp_packets stats + 1 \<rparr>
       | _ \<Rightarrow> (if pkt_has_eth pkt \<and> \<not> pkt_malformed pkt
           then stats\<lparr> st_unsupported_packets := st_unsupported_packets stats + 1 \<rparr> else stats));
     let stats = (case pkt_transport_proto pkt of
         NS_PROTO_TCP \<Rightarrow> stats\<lparr> st_tcp_packets := st_tcp_packets stats + 1 \<rparr>
       | NS_PROTO_UDP \<Rightarrow> stats\<lparr> st_udp_packets := st_udp_packets stats + 1 \<rparr>
       | NS_PROTO_ICMP \<Rightarrow> stats\<lparr> st_icmp_packets := st_icmp_packets stats + 1 \<rparr>
       | NS_PROTO_ICMPV6 \<Rightarrow> stats\<lparr> st_icmpv6_packets := st_icmpv6_packets stats + 1 \<rparr>
       | _ \<Rightarrow> stats);
     let stats = (if pkt_has_dns pkt
       then stats\<lparr> st_dns_packets := st_dns_packets stats + 1 \<rparr> else stats);
     (ok, flow_proto, addr_a, port_a, addr_b, port_b) \<leftarrow>
       extract_endpoints pkt None (stack_buf 46) 46 (stack_buf 46) 46;
     if ok then do {
       flow_proto \<leftarrow> flow_proto;
       record_flow stats flow_proto addr_a port_a addr_b port_b (pkt_captured_length pkt) }
     else Some stats }"

subsection \<open>The key of a packet\<close>

definition address_pair :: "ns_packet_t \<Rightarrow> (string \<times> string) option" where
  "address_pair p = (case (pkt_network_proto p, pkt_net p) of
     (NS_PROTO_ARP, Net_arp i) \<Rightarrow> Some (ipv4_text (arp_sender_ip i), ipv4_text (arp_target_ip i))
   | (NS_PROTO_IPV4, Net_ipv4 i) \<Rightarrow> Some (ipv4_text (ip4_source i), ipv4_text (ip4_destination i))
   | (NS_PROTO_IPV6, Net_ipv6 i) \<Rightarrow>
       Some (ipv6_text (groups_of (ip6_source i)), ipv6_text (groups_of (ip6_destination i)))
   | _ \<Rightarrow> None)"

definition port_pair :: "ns_packet_t \<Rightarrow> (ns_proto_t \<times> u16 \<times> u16) option" where
  "port_pair p = (if pkt_network_proto p = NS_PROTO_ARP then Some (NS_PROTO_ARP, 0, 0)
     else case (pkt_transport_proto p, pkt_transport p) of
       (NS_PROTO_TCP, Tr_tcp i) \<Rightarrow> Some (NS_PROTO_TCP, tcp_source_port i, tcp_destination_port i)
     | (NS_PROTO_UDP, Tr_udp i) \<Rightarrow> Some (NS_PROTO_UDP, udp_source_port i, udp_destination_port i)
     | (NS_PROTO_ICMP, _) \<Rightarrow> Some (NS_PROTO_ICMP, 0, 0)
     | (NS_PROTO_ICMPV6, _) \<Rightarrow> Some (NS_PROTO_ICMPV6, 0, 0)
     | _ \<Rightarrow> None)"

definition packet_key :: "ns_packet_t \<Rightarrow> flow_key option" where
  "packet_key p = do {
     (a, b) \<leftarrow> address_pair p;
     (proto, pa, pb) \<leftarrow> port_pair p;
     Some (canonical (proto, a, pa, b, pb)) }"

text \<open>A packet the decoder produced.\<close>

definition decoded :: "ns_packet_t \<Rightarrow> bool" where
  "decoded p \<longleftrightarrow> (\<exists>data len. packet_inv data len p)"

lemma format_pair:
  "\<exists>q. ns_format_ipv4 x (stack_buf 46) 46 = Some q \<and> c_str q = Some (ipv4_text x) \<and> length (ipv4_text x) < 46"
  "length y = 16 \<Longrightarrow> \<exists>q. ns_format_ipv6 y (stack_buf 46) 46 = Some q \<and> c_str q = Some (ipv6_text (groups_of y)) \<and>
     length (ipv6_text (groups_of y)) < 46"
proof -
  have b: "unat (46 :: size_t) = length (stack_buf 46)" "16 \<le> length (stack_buf 46)" "0 < length (stack_buf 46)"
    "length (stack_buf 46) = 46" by (simp_all add: stack_buf_def)
  show "\<exists>q. ns_format_ipv4 x (stack_buf 46) 46 = Some q \<and> c_str q = Some (ipv4_text x) \<and> length (ipv4_text x) < 46"
    using ns_format_ipv4_text [OF b(1,2), of x] ipv4_text_length [of x] by fastforce
  have t: "length (ipv6_text (groups_of y)) \<le> 39" using ipv6_text_length(1) [OF length_groups_of] .
  then have "take 45 (ipv6_text (groups_of y)) = ipv6_text (groups_of y)" by simp
  then show "length y = 16 \<Longrightarrow> \<exists>q. ns_format_ipv6 y (stack_buf 46) 46 = Some q \<and>
     c_str q = Some (ipv6_text (groups_of y)) \<and> length (ipv6_text (groups_of y)) < 46"
    using ns_format_ipv6_text [OF _ b(1,3)] b(4) t by force
qed

text \<open>An address printed into a local buffer of 46 bytes.\<close>

definition shows_addr :: "cbuf \<Rightarrow> string \<Rightarrow> bool" where
  "shows_addr q s \<longleftrightarrow> c_str q = Some s \<and> length s < 46"

lemma shown_ipv4: "\<exists>q. ns_format_ipv4 x (stack_buf 46) 46 = Some q \<and> shows_addr q (ipv4_text x)"
  using format_pair(1) [of x] by (auto simp: shows_addr_def)

lemma shown_ipv6:
  "length y = 16 \<Longrightarrow> \<exists>q. ns_format_ipv6 y (stack_buf 46) 46 = Some q \<and> shows_addr q (ipv6_text (groups_of y))"
  using format_pair(2) [of y] by (auto simp: shows_addr_def)

lemma extract_addresses_pair:
  assumes "network_inv p" "pkt_network_proto p = NS_PROTO_IPV4 \<or> pkt_network_proto p = NS_PROTO_IPV6"
  obtains a b s t where "extract_addresses p (stack_buf 46) 46 (stack_buf 46) 46 = Some (Some (a, b))"
    "address_pair p = Some (s, t)" "shows_addr a s" "shows_addr b t"
  using assms(2)
proof
  assume n: "pkt_network_proto p = NS_PROTO_IPV4"
  with assms(1) obtain i where i: "pkt_net p = Net_ipv4 i" by (auto simp: network_inv_def)
  obtain a b where "ns_format_ipv4 (ip4_source i) (stack_buf 46) 46 = Some a" "shows_addr a (ipv4_text (ip4_source i))"
    "ns_format_ipv4 (ip4_destination i) (stack_buf 46) 46 = Some b" "shows_addr b (ipv4_text (ip4_destination i))"
    using shown_ipv4 by metis
  with n i that show thesis by (simp add: extract_addresses_def address_pair_def net_ipv4_def)
next
  assume n: "pkt_network_proto p = NS_PROTO_IPV6"
  with assms(1) obtain i where i: "pkt_net p = Net_ipv6 i" "ip6_sized i" by (auto simp: network_inv_def)
  then obtain a b where "ns_format_ipv6 (ip6_source i) (stack_buf 46) 46 = Some a"
    "shows_addr a (ipv6_text (groups_of (ip6_source i)))" "ns_format_ipv6 (ip6_destination i) (stack_buf 46) 46 = Some b"
    "shows_addr b (ipv6_text (groups_of (ip6_destination i)))"
    using shown_ipv6 unfolding ip6_sized_def by metis
  with n i that show thesis by (simp add: extract_addresses_def address_pair_def net_ipv6_def)
qed

lemma extract_endpoints_key:
  assumes "decoded p"
  shows "(packet_key p = None \<and> (\<exists>x. extract_endpoints p None (stack_buf 46) 46 (stack_buf 46) 46 = Some (False, x))) \<or>
    (\<exists>proto a s pa b t pb. packet_key p = Some (canonical (proto, s, pa, t, pb)) \<and>
      extract_endpoints p None (stack_buf 46) 46 (stack_buf 46) 46 = Some (True, Some proto, a, pa, b, pb) \<and>
      shows_addr a s \<and> shows_addr b t)"
proof -
  have inv: "transport_inv p" "network_inv p" using assms by (auto simp: decoded_def packet_inv_def)
  consider "pkt_network_proto p = NS_PROTO_ARP"
    | "pkt_network_proto p = NS_PROTO_IPV4 \<or> pkt_network_proto p = NS_PROTO_IPV6"
    | "pkt_network_proto p = NS_PROTO_UNKNOWN"
    using inv(2) by (cases "pkt_network_proto p") (auto simp: network_inv_def)
  then show ?thesis
  proof cases
    case 1
    then obtain i where i: "pkt_net p = Net_arp i" using inv(2) by (auto simp: network_inv_def)
    obtain a b where "ns_format_ipv4 (arp_sender_ip i) (stack_buf 46) 46 = Some a"
      "shows_addr a (ipv4_text (arp_sender_ip i))" "ns_format_ipv4 (arp_target_ip i) (stack_buf 46) 46 = Some b"
      "shows_addr b (ipv4_text (arp_target_ip i))" using shown_ipv4 by metis
    with 1 i show ?thesis
      by (simp add: packet_key_def address_pair_def port_pair_def extract_endpoints_def net_arp_def) blast
  next
    case 2
    obtain a b s t where ab: "extract_addresses p (stack_buf 46) 46 (stack_buf 46) 46 = Some (Some (a, b))"
      "address_pair p = Some (s, t)" "shows_addr a s" "shows_addr b t" using extract_addresses_pair [OF inv(2) 2] .
    have "pkt_network_proto p \<noteq> NS_PROTO_ARP" using 2 by auto
    with ab inv(1) show ?thesis
      by (cases "pkt_transport_proto p")
        (auto simp: packet_key_def port_pair_def extract_endpoints_def transport_inv_def tr_tcp_def tr_udp_def)
  next
    case 3
    then show ?thesis by (simp add: packet_key_def address_pair_def extract_endpoints_def extract_addresses_def)
  qed
qed

subsection \<open>One update\<close>

definition counted :: "ns_stats_t \<Rightarrow> ns_packet_t \<Rightarrow> ns_stats_t" where
  "counted st p = st\<lparr>
     st_total_packets := st_total_packets st + 1,
     st_total_captured_bytes := st_total_captured_bytes st + pkt_captured_length p,
     st_total_wire_bytes := st_total_wire_bytes st + pkt_original_length p,
     st_ipv4_packets := st_ipv4_packets st + of_bool (pkt_network_proto p = NS_PROTO_IPV4),
     st_ipv6_packets := st_ipv6_packets st + of_bool (pkt_network_proto p = NS_PROTO_IPV6),
     st_arp_packets := st_arp_packets st + of_bool (pkt_network_proto p = NS_PROTO_ARP),
     st_tcp_packets := st_tcp_packets st + of_bool (pkt_transport_proto p = NS_PROTO_TCP),
     st_udp_packets := st_udp_packets st + of_bool (pkt_transport_proto p = NS_PROTO_UDP),
     st_icmp_packets := st_icmp_packets st + of_bool (pkt_transport_proto p = NS_PROTO_ICMP),
     st_icmpv6_packets := st_icmpv6_packets st + of_bool (pkt_transport_proto p = NS_PROTO_ICMPV6),
     st_dns_packets := st_dns_packets st + of_bool (pkt_has_dns p),
     st_malformed_packets := st_malformed_packets st + of_bool (pkt_malformed p),
     st_unsupported_packets := st_unsupported_packets st +
       of_bool (pkt_network_proto p = NS_PROTO_UNKNOWN \<and> pkt_has_eth p \<and> \<not> pkt_malformed p) \<rparr>"

lemma count_if:
  "(if b then st\<lparr> st_malformed_packets := st_malformed_packets st + 1 \<rparr> else st) =
     st\<lparr> st_malformed_packets := st_malformed_packets st + of_bool b \<rparr>"
  "(if b then st\<lparr> st_dns_packets := st_dns_packets st + 1 \<rparr> else st) =
     st\<lparr> st_dns_packets := st_dns_packets st + of_bool b \<rparr>"
  "(if b then st\<lparr> st_unsupported_packets := st_unsupported_packets st + 1 \<rparr> else st) =
     st\<lparr> st_unsupported_packets := st_unsupported_packets st + of_bool b \<rparr>"
  by simp_all

lemma count_network:
  assumes "network_inv p"
  shows "(case pkt_network_proto p of
         NS_PROTO_IPV4 \<Rightarrow> st\<lparr> st_ipv4_packets := st_ipv4_packets st + 1 \<rparr>
       | NS_PROTO_IPV6 \<Rightarrow> st\<lparr> st_ipv6_packets := st_ipv6_packets st + 1 \<rparr>
       | NS_PROTO_ARP \<Rightarrow> st\<lparr> st_arp_packets := st_arp_packets st + 1 \<rparr>
       | _ \<Rightarrow> st\<lparr> st_unsupported_packets := st_unsupported_packets st + of_bool b \<rparr>) =
     st\<lparr> st_ipv4_packets := st_ipv4_packets st + of_bool (pkt_network_proto p = NS_PROTO_IPV4),
       st_ipv6_packets := st_ipv6_packets st + of_bool (pkt_network_proto p = NS_PROTO_IPV6),
       st_arp_packets := st_arp_packets st + of_bool (pkt_network_proto p = NS_PROTO_ARP),
       st_unsupported_packets := st_unsupported_packets st + of_bool (pkt_network_proto p = NS_PROTO_UNKNOWN \<and> b) \<rparr>"
  using assms by (cases "pkt_network_proto p") (simp_all add: network_inv_def)

lemma count_transport:
  "(case tp of
         NS_PROTO_TCP \<Rightarrow> st\<lparr> st_tcp_packets := st_tcp_packets st + 1 \<rparr>
       | NS_PROTO_UDP \<Rightarrow> st\<lparr> st_udp_packets := st_udp_packets st + 1 \<rparr>
       | NS_PROTO_ICMP \<Rightarrow> st\<lparr> st_icmp_packets := st_icmp_packets st + 1 \<rparr>
       | NS_PROTO_ICMPV6 \<Rightarrow> st\<lparr> st_icmpv6_packets := st_icmpv6_packets st + 1 \<rparr>
       | _ \<Rightarrow> st) =
     st\<lparr> st_tcp_packets := st_tcp_packets st + of_bool (tp = NS_PROTO_TCP),
       st_udp_packets := st_udp_packets st + of_bool (tp = NS_PROTO_UDP),
       st_icmp_packets := st_icmp_packets st + of_bool (tp = NS_PROTO_ICMP),
       st_icmpv6_packets := st_icmpv6_packets st + of_bool (tp = NS_PROTO_ICMPV6) \<rparr>"
  by (cases tp) simp_all

lemma ns_stats_update_counted:
  assumes "network_inv p"
  shows "ns_stats_update st p = do {
     (ok, flow_proto, addr_a, port_a, addr_b, port_b) \<leftarrow>
       extract_endpoints p None (stack_buf 46) 46 (stack_buf 46) 46;
     if ok then do {
       flow_proto \<leftarrow> flow_proto;
       record_flow (counted st p) flow_proto addr_a port_a addr_b port_b (pkt_captured_length p) }
     else Some (counted st p) }"
  unfolding ns_stats_update_def counted_def count_if count_network [OF assms] count_transport Let_def
  by (cases st) (simp only: ns_stats_t.select_convs ns_stats_t.update_convs)

lemma counted_flows [simp]:
  "st_flows (counted st p) = st_flows st" "st_flow_count (counted st p) = st_flow_count st"
  "flows_of (counted st p) = flows_of st" "flows_inv (counted st p) = flows_inv st"
  by (simp_all add: counted_def flows_of_def flows_inv_def flow_slots_def)

definition key_counted :: "flow_map \<Rightarrow> ns_packet_t \<Rightarrow> flow_map" where
  "key_counted m p = (case packet_key p of None \<Rightarrow> m | Some k \<Rightarrow> count_flow 1024 m k (pkt_captured_length p))"

lemma ns_stats_update_step:
  assumes p: "decoded p" and inv: "flows_inv st"
  obtains st' where "ns_stats_update st p = Some st'" "flows_inv st'" "flows_of st' = key_counted (flows_of st) p"
    "st' = (counted st p)\<lparr> st_flows := st_flows st', st_flow_count := st_flow_count st' \<rparr>"
proof -
  have n: "network_inv p" using p by (auto simp: decoded_def packet_inv_def)
  note upd = ns_stats_update_counted [OF n, of st]
  from extract_endpoints_key [OF p] show thesis
  proof (elim disjE exE conjE)
    fix x assume "packet_key p = None" "extract_endpoints p None (stack_buf 46) 46 (stack_buf 46) 46 = Some (False, x)"
    then have "ns_stats_update st p = Some (counted st p)" by (cases x) (simp add: upd)
    with that \<open>packet_key p = None\<close> inv show thesis by (simp add: key_counted_def)
  next
    fix proto a s pa b t pb
    assume k: "packet_key p = Some (canonical (proto, s, pa, t, pb))"
      "extract_endpoints p None (stack_buf 46) 46 (stack_buf 46) 46 = Some (True, Some proto, a, pa, b, pb)"
      and ab: "shows_addr a s" "shows_addr b t"
    have "flows_inv (counted st p)" using inv by simp
    from record_flow_counts [OF this, of a s b t proto pa pb "pkt_captured_length p"] ab
    obtain st' where "record_flow (counted st p) proto a pa b pb (pkt_captured_length p) = Some st'" "flows_inv st'"
      "flows_of st' = count_flow 1024 (flows_of st) (canonical (proto, s, pa, t, pb)) (pkt_captured_length p)"
      "st' = (counted st p)\<lparr> st_flows := st_flows st', st_flow_count := st_flow_count st' \<rparr>"
      unfolding shows_addr_def by auto
    with k that show thesis by (simp add: upd key_counted_def)
  qed
qed

subsection \<open>A run of updates\<close>

fun stats_run :: "ns_stats_t \<Rightarrow> ns_packet_t list \<Rightarrow> ns_stats_t option" where
  "stats_run st [] = Some st"
| "stats_run st (p # ps) = do { st \<leftarrow> ns_stats_update st p; stats_run st ps }"

definition how_many :: "(ns_packet_t \<Rightarrow> bool) \<Rightarrow> ns_packet_t list \<Rightarrow> u64" where
  "how_many P ps = of_nat (length (filter P ps))"

lemma how_many_simps [simp]:
  "how_many P [] = 0" "how_many P (p # ps) = of_bool (P p) + how_many P ps"
  by (simp_all add: how_many_def)

text \<open>Keys in the order in which they were first seen.\<close>

definition first_seen :: "'a list \<Rightarrow> 'a list" where
  "first_seen ks = rev (remdups (rev ks))"

lemma first_seen_snoc: "first_seen (ks @ [k]) = (if k \<in> set ks then first_seen ks else first_seen ks @ [k])"
  by (simp add: first_seen_def)

lemma set_first_seen [simp]: "set (first_seen ks) = set ks" "distinct (first_seen ks)"
  by (simp_all add: first_seen_def)

definition keyed :: "ns_packet_t list \<Rightarrow> (flow_key \<times> u64) list" where
  "keyed ps = List.map_filter (\<lambda>p. map_option (\<lambda>k. (k, pkt_captured_length p)) (packet_key p)) ps"

text \<open>What the map holds after a sequence of packets: the first \<open>cap\<close> distinct keys, each with
  all of its packets.\<close>

definition flow_totals :: "nat \<Rightarrow> (flow_key \<times> u64) list \<Rightarrow> flow_map" where
  "flow_totals cap kns k =
     (if k \<in> set (take cap (first_seen (map fst kns)))
      then Some (of_nat (length (filter (\<lambda>e. fst e = k) kns)), sum_list (map snd (filter (\<lambda>e. fst e = k) kns)))
      else None)"

lemma card_flow_totals: "card (dom (flow_totals cap kns)) = min cap (length (first_seen (map fst kns)))"
proof -
  have "dom (flow_totals cap kns) = set (take cap (first_seen (map fst kns)))"
    by (auto simp: flow_totals_def dom_def)
  then show ?thesis by (simp add: distinct_card min.commute)
qed

lemma flow_totals_snoc: "flow_totals cap (kns @ [(k, n)]) = count_flow cap (flow_totals cap kns) k n"
proof
  fix k'
  let ?fs = "first_seen (map fst kns)"
  have none: "filter (\<lambda>e. fst e = x) kns = []" if "x \<notin> fst ` set kns" for x
    using that by (auto simp: filter_empty_conv)
  consider (hit) "k \<in> set (take cap ?fs)" | (late) "k \<in> fst ` set kns" "k \<notin> set (take cap ?fs)"
    | (new) "k \<notin> fst ` set kns" by blast
  then show "flow_totals cap (kns @ [(k, n)]) k' = count_flow cap (flow_totals cap kns) k n k'"
  proof cases
    case hit
    then have "k \<in> fst ` set kns" using set_take_subset [of cap ?fs] by auto
    with hit show ?thesis by (simp add: flow_totals_def first_seen_snoc count_flow_def)
  next
    case late
    then have "k \<in> set ?fs" by simp
    then have "cap < length ?fs" using late(2) by (metis linorder_not_less take_all)
    with late show ?thesis
      by (auto simp: flow_totals_def first_seen_snoc count_flow_def card_flow_totals)
  next
    case new
    then have "k \<notin> set (take cap ?fs)" using set_take_subset [of cap ?fs] by auto
    with new none [OF new] show ?thesis
      by (auto simp: flow_totals_def first_seen_snoc count_flow_def card_flow_totals)
  qed
qed

lemma keyed_snoc:
  "keyed (ps @ [p]) = keyed ps @ (case packet_key p of None \<Rightarrow> [] | Some k \<Rightarrow> [(k, pkt_captured_length p)])"
  by (simp add: keyed_def map_filter_def split: option.splits)

lemma key_counted_totals: "foldl key_counted Map.empty ps = flow_totals 1024 (keyed ps)"
proof (induction ps rule: rev_induct)
  case Nil
  then show ?case by (simp add: fun_eq_iff flow_totals_def keyed_def map_filter_simps first_seen_def)
next
  case (snoc p ps)
  then show ?case by (simp add: keyed_snoc key_counted_def flow_totals_snoc split: option.splits)
qed

text \<open>Every counter grew by the number of packets of its kind.\<close>

definition tallied :: "ns_stats_t \<Rightarrow> ns_packet_t list \<Rightarrow> ns_stats_t \<Rightarrow> bool" where
  "tallied st ps st' \<longleftrightarrow>
     st_total_packets st' = st_total_packets st + of_nat (length ps) \<and>
     st_total_captured_bytes st' = st_total_captured_bytes st + sum_list (map pkt_captured_length ps) \<and>
     st_total_wire_bytes st' = st_total_wire_bytes st + sum_list (map pkt_original_length ps) \<and>
     st_ipv4_packets st' = st_ipv4_packets st + how_many (\<lambda>p. pkt_network_proto p = NS_PROTO_IPV4) ps \<and>
     st_ipv6_packets st' = st_ipv6_packets st + how_many (\<lambda>p. pkt_network_proto p = NS_PROTO_IPV6) ps \<and>
     st_arp_packets st' = st_arp_packets st + how_many (\<lambda>p. pkt_network_proto p = NS_PROTO_ARP) ps \<and>
     st_tcp_packets st' = st_tcp_packets st + how_many (\<lambda>p. pkt_transport_proto p = NS_PROTO_TCP) ps \<and>
     st_udp_packets st' = st_udp_packets st + how_many (\<lambda>p. pkt_transport_proto p = NS_PROTO_UDP) ps \<and>
     st_icmp_packets st' = st_icmp_packets st + how_many (\<lambda>p. pkt_transport_proto p = NS_PROTO_ICMP) ps \<and>
     st_icmpv6_packets st' = st_icmpv6_packets st + how_many (\<lambda>p. pkt_transport_proto p = NS_PROTO_ICMPV6) ps \<and>
     st_dns_packets st' = st_dns_packets st + how_many pkt_has_dns ps \<and>
     st_malformed_packets st' = st_malformed_packets st + how_many pkt_malformed ps \<and>
     st_unsupported_packets st' = st_unsupported_packets st +
       how_many (\<lambda>p. pkt_network_proto p = NS_PROTO_UNKNOWN \<and> pkt_has_eth p \<and> \<not> pkt_malformed p) ps"

lemma tallied_Nil: "tallied st [] st"
  by (simp add: tallied_def)

lemma tallied_Cons:
  assumes "st' = (counted st p)\<lparr> st_flows := st_flows st', st_flow_count := st_flow_count st' \<rparr>" "tallied st' ps st''"
  shows "tallied st (p # ps) st''"
proof -
  have sel: "f st' = f (counted st p)"
    if "\<And>s x y. f (s\<lparr> st_flows := x, st_flow_count := y \<rparr>) = f s" for f :: "ns_stats_t \<Rightarrow> u64"
    by (subst assms(1)) (rule that)
  show ?thesis
    using assms(2) unfolding tallied_def
    by (simp add: sel [of st_total_packets] sel [of st_total_captured_bytes] sel [of st_total_wire_bytes]
        sel [of st_ipv4_packets] sel [of st_ipv6_packets] sel [of st_arp_packets] sel [of st_tcp_packets]
        sel [of st_udp_packets] sel [of st_icmp_packets] sel [of st_icmpv6_packets] sel [of st_dns_packets]
        sel [of st_malformed_packets] sel [of st_unsupported_packets] counted_def add.assoc)
qed

lemma stats_run_counts:
  assumes "\<forall>p \<in> set ps. decoded p" "flows_inv st"
  shows "\<exists>st'. stats_run st ps = Some st' \<and> flows_inv st' \<and> flows_of st' = foldl key_counted (flows_of st) ps \<and>
    tallied st ps st'"
  using assms
proof (induction ps arbitrary: st)
  case (Cons p ps)
  obtain st1 where st1: "ns_stats_update st p = Some st1" "flows_inv st1" "flows_of st1 = key_counted (flows_of st) p"
    "st1 = (counted st p)\<lparr> st_flows := st_flows st1, st_flow_count := st_flow_count st1 \<rparr>"
    using ns_stats_update_step [of p st] Cons.prems by auto
  obtain st2 where "stats_run st1 ps = Some st2" "flows_inv st2" "flows_of st2 = foldl key_counted (flows_of st1) ps"
    "tallied st1 ps st2" using Cons.IH [OF _ st1(2)] Cons.prems by auto
  with st1 tallied_Cons [OF st1(4)] show ?case by simp
qed (simp add: tallied_Nil)

lemma ns_packet_parse_decoded:
  assumes "unat cap \<le> length data" "ns_packet_parse data cap orig ts num link = Some p"
  shows "decoded p"
  using ns_packet_parse_safe [OF assms(1), of orig ts num link] assms(2) by (auto simp: decoded_def)

subsection \<open>Both directions of a conversation\<close>

lemma record_flow_loop_strings:
  assumes "c_str a = c_str a'" "c_str b = c_str b'"
  shows "record_flow_loop start i st p a pa b pb n = record_flow_loop start i st p a' pa b' pb n"
proof (induction "1024 - unat i" arbitrary: i)
  case 0
  then have "\<not> i < NS_MAX_FLOWS" by (simp add: word_less_nat_alt)
  then show ?case by (simp add: record_flow_loop.simps [of _ i])
next
  case (Suc x)
  then have "x = 1024 - unat (i + 1)" by (simp add: unat_word_ariths)
  from Suc.hyps(1) [OF this] show ?case
    by (simp add: record_flow_loop.simps [of _ i] same_flow_def strcmp_def assms cong: if_cong)
qed

lemma record_flow_swap:
  assumes "c_str a = Some s" "c_str b = Some t"
  shows "record_flow st p a pa b pb n = record_flow st p b pb a pa n"
proof -
  have c: "strcmp a b = Some (strcmp_str s t)" "strcmp b a = Some (- strcmp_str s t)"
    using assms strcmp_str_swap [of t s] by (simp_all add: strcmp_def)
  consider "strcmp_str s t > 0" | "strcmp_str s t < 0" | "s = t" using strcmp_str_eq_0 [of s t] by linarith
  then show ?thesis
  proof cases
    case 3
    then have "hash_flow p a pa b pb = hash_flow p b pa a pb" for pa pb using assms by (simp add: hash_flow_def)
    with 3 assms show ?thesis
      using record_flow_loop_strings [of a b b a]
      by (cases pa pb rule: linorder_cases) (auto simp: record_flow_def c dest: order.asym)
  qed (auto simp: record_flow_def c)
qed

subsection \<open>The flow of a sample frame\<close>

lemma query_frame_key:
  obtains p k where "ns_packet_parse query_frame 64 64 frame_time 1 NS_LINK_ETHERNET = Some p" "decoded p"
    "packet_key p = Some k" "pkt_captured_length p = 64" "pkt_transport_proto p = NS_PROTO_UDP"
proof -
  obtain p where p: "ns_packet_parse query_frame 64 64 frame_time 1 NS_LINK_ETHERNET = Some p"
    using query_frame_parsed .
  have len: "unat (64 :: size_t) \<le> length query_frame" by (simp add: query_frame_wf)
  have "ip4_fragment_offset query_ip = 0" "ip4_protocol query_ip = 17" "8 \<le> unat (udp_length query_udp)"
    by (simp_all add: query_ip_def ns_ipv4_zero_def query_udp_def)
  from ns_packet_parse_udp4_frame [OF _ _ query_frame_wf(1) this query_frame_def, of 64 64 frame_time 1] p
  have q: "pkt_network_proto p = NS_PROTO_IPV4" "pkt_net p = Net_ipv4 query_ip"
    "pkt_transport_proto p = NS_PROTO_UDP" "pkt_transport p = Tr_udp query_udp"
    by (simp_all add: query_frame_wf)
  have cap: "pkt_captured_length p = 64"
    using ns_packet_parse_safe [OF len, of 64 frame_time 1 NS_LINK_ETHERNET] p by (auto simp: capture_fields_def)
  obtain k where "packet_key p = Some k" using q by (auto simp: packet_key_def address_pair_def port_pair_def)
  with that p cap q(3) ns_packet_parse_decoded [OF len p] show thesis by blast
qed

text \<open>After it the table holds one flow.\<close>

lemma query_frame_counted:
  obtains p st where "ns_packet_parse query_frame 64 64 frame_time 1 NS_LINK_ETHERNET = Some p"
    "stats_run ns_stats_init [p] = Some st" "flows_inv st" "st_flow_count st \<noteq> 0"
proof -
  obtain p k where p: "ns_packet_parse query_frame 64 64 frame_time 1 NS_LINK_ETHERNET = Some p" "decoded p"
    "packet_key p = Some k" using query_frame_key .
  then obtain st where st: "stats_run ns_stats_init [p] = Some st" "flows_inv st" "flows_of st = key_counted (flows_of ns_stats_init) p"
    using stats_run_counts [of "[p]" ns_stats_init] ns_stats_init_inv(1) by auto
  then have "flows_of st = [k \<mapsto> (1, pkt_captured_length p)]" using p(3) by (simp add: key_counted_def count_flow_def ns_stats_init_inv)
  with st(2) have "unat (st_flow_count st) = 1" by (simp add: flows_inv_def)
  with that p(1) st show thesis by fastforce
qed

subsection \<open>Properties\<close>

text \<open>C30: counting one decoded packet. \<open>ns_stats_update\<close> is defined on every packet the decoder
  produces and every well-formed table, keeps the table well formed, and changes the map from flow
  keys to packet and byte counts as specified: the packet's key is counted if it is already there
  or the map has fewer than 1024 keys, and nothing else changes.\<close>

theorem stats_update_refines:
  assumes "unat captured_length \<le> length data"
    and "ns_packet_parse data captured_length original_length timestamp number link_type = Some p"
    and "flows_inv st"
  shows "\<exists>st'. ns_stats_update st p = Some st' \<and> flows_inv st' \<and>
    flows_of st' = (case packet_key p of None \<Rightarrow> flows_of st
      | Some k \<Rightarrow> (case flows_of st k of
           Some (packets, bytes) \<Rightarrow> (flows_of st)(k \<mapsto> (packets + 1, bytes + pkt_captured_length p))
         | None \<Rightarrow> if card (dom (flows_of st)) < 1024
             then (flows_of st)(k \<mapsto> (1, pkt_captured_length p)) else flows_of st))"
  using ns_stats_update_step [OF ns_packet_parse_decoded [OF assms(1,2)] assms(3)]
  unfolding key_counted_def count_flow_def by blast

theorem stats_update_refines_witness:
  "\<exists>p st'. ns_packet_parse query_frame 64 64 frame_time 1 NS_LINK_ETHERNET = Some p \<and>
     ns_stats_update ns_stats_init p = Some st' \<and> flows_inv st'"
proof -
  obtain p where p: "ns_packet_parse query_frame 64 64 frame_time 1 NS_LINK_ETHERNET = Some p"
    using query_frame_parsed .
  have "unat (64 :: size_t) \<le> length query_frame" by (simp add: query_frame_wf)
  from stats_update_refines [OF this p ns_stats_init_inv(1)] p show ?thesis by blast
qed

text \<open>C31: a whole capture. After any sequence of decoded packets the counters are the numbers of packets
  of each kind, and the flow table holds exactly the first 1024 distinct conversations, each with
  the number and the captured bytes of all of its packets; later conversations never displace them.\<close>

theorem stats_run_exact:
  assumes "\<forall>p \<in> set ps. decoded p"
  shows "\<exists>st. stats_run ns_stats_init ps = Some st \<and>
    flows_of st = flow_totals 1024 (keyed ps) \<and>
    unat (st_flow_count st) = min 1024 (length (first_seen (map fst (keyed ps)))) \<and>
    st_total_packets st = of_nat (length ps) \<and>
    st_total_captured_bytes st = sum_list (map pkt_captured_length ps) \<and>
    st_total_wire_bytes st = sum_list (map pkt_original_length ps) \<and>
    st_arp_packets st = how_many (\<lambda>p. pkt_network_proto p = NS_PROTO_ARP) ps \<and>
    st_ipv4_packets st = how_many (\<lambda>p. pkt_network_proto p = NS_PROTO_IPV4) ps \<and>
    st_ipv6_packets st = how_many (\<lambda>p. pkt_network_proto p = NS_PROTO_IPV6) ps \<and>
    st_tcp_packets st = how_many (\<lambda>p. pkt_transport_proto p = NS_PROTO_TCP) ps \<and>
    st_udp_packets st = how_many (\<lambda>p. pkt_transport_proto p = NS_PROTO_UDP) ps \<and>
    st_icmp_packets st = how_many (\<lambda>p. pkt_transport_proto p = NS_PROTO_ICMP) ps \<and>
    st_icmpv6_packets st = how_many (\<lambda>p. pkt_transport_proto p = NS_PROTO_ICMPV6) ps \<and>
    st_dns_packets st = how_many pkt_has_dns ps \<and>
    st_malformed_packets st = how_many pkt_malformed ps \<and>
    st_unsupported_packets st = how_many (\<lambda>p. pkt_network_proto p = NS_PROTO_UNKNOWN \<and> pkt_has_eth p \<and> \<not> pkt_malformed p) ps"
proof -
  obtain st where st: "stats_run ns_stats_init ps = Some st" "flows_inv st"
    "flows_of st = foldl key_counted (flows_of ns_stats_init) ps" "tallied ns_stats_init ps st"
    using stats_run_counts [OF assms ns_stats_init_inv(1)] by blast
  then have f: "flows_of st = flow_totals 1024 (keyed ps)" by (simp add: ns_stats_init_inv key_counted_totals)
  with st(2) have "unat (st_flow_count st) = min 1024 (length (first_seen (map fst (keyed ps))))"
    by (simp add: flows_inv_def card_flow_totals)
  with st(1,4) f show ?thesis by (simp add: tallied_def ns_stats_init_def)
qed

theorem stats_run_exact_witness:
  "\<exists>p st k. ns_packet_parse query_frame 64 64 frame_time 1 NS_LINK_ETHERNET = Some p \<and>
     stats_run ns_stats_init [p, p] = Some st \<and> packet_key p = Some k \<and> flows_of st k = Some (2, 128) \<and>
     st_total_packets st = 2 \<and> st_udp_packets st = 2"
proof -
  obtain p k where p: "ns_packet_parse query_frame 64 64 frame_time 1 NS_LINK_ETHERNET = Some p" "decoded p"
    "packet_key p = Some k" "pkt_captured_length p = 64" "pkt_transport_proto p = NS_PROTO_UDP" using query_frame_key .
  then have "\<forall>p' \<in> set [p, p]. decoded p'" by simp
  from stats_run_exact [OF this] obtain st where st: "stats_run ns_stats_init [p, p] = Some st"
    "flows_of st = flow_totals 1024 (keyed [p, p])" "st_total_packets st = of_nat (length [p, p])"
    "st_udp_packets st = how_many (\<lambda>p. pkt_transport_proto p = NS_PROTO_UDP) [p, p]" by blast
  have "flows_of st k = Some (2, 128)"
    using st(2) p by (simp add: keyed_def map_filter_simps flow_totals_def first_seen_def)
  with p st show ?thesis by (intro exI [of _ p] exI [of _ st] exI [of _ k]) simp
qed

text \<open>A conversation is one flow. Recording a packet from A to B and recording the reply from B to A
  have the same effect on the table, whatever the addresses and ports.\<close>

lemma record_flow_direction:
  assumes "c_str addr_a = Some a" "c_str addr_b = Some b"
  shows "record_flow stats proto addr_a port_a addr_b port_b bytes =
    record_flow stats proto addr_b port_b addr_a port_a bytes"
  using record_flow_swap [OF assms] .

lemma record_flow_direction_example:
  "record_flow ns_stats_init NS_PROTO_TCP (''10.0.0.1'' @ [NUL]) 80 (''10.0.0.2'' @ [NUL]) 4000 60 =
   record_flow ns_stats_init NS_PROTO_TCP (''10.0.0.2'' @ [NUL]) 4000 (''10.0.0.1'' @ [NUL]) 80 60"
  by (rule record_flow_direction [of _ "''10.0.0.1''" _ "''10.0.0.2''"]) (rule c_str_terminated, simp)+

end
