(* ===== verification/NS_Double.thy ===== *)
theory NS_Double
  imports Complex_Main "HOL-Library.Log_Nat" NS_CString
begin

section \<open>Doubles\<close>

text \<open>
  What the program does with \<open>double\<close>: converting counters and times, adding, subtracting, multiplying
  and dividing, and printing with \<^verbatim>\<open>%.2f\<close>. A double is the rational number it represents. Every
  operation rounds its exact result to the nearest number with a 53-bit significand, ties to even,
  as IEEE 754 prescribes for results in the normal range (the magnitude of every result here is zero or between
  \<open>2\<^sup>-\<^sup>6\<^sup>4\<close> and \<open>2\<^sup>7\<^sup>1\<close>). \<^verbatim>\<open>%.2f\<close> prints the exact value rounded to the nearest hundredth, ties
  to even.
\<close>

definition round_even :: "rat \<Rightarrow> int" where
  "round_even x = (let f = \<lfloor>x\<rfloor>; d = x - of_int f in
     if d < 1 / 2 \<or> (d = 1 / 2 \<and> even f) then f else f + 1)"

text \<open>The exponent of a positive number, from the bit lengths of numerator and denominator.\<close>

definition exponent :: "rat \<Rightarrow> int" where
  "exponent x = (let (p, q) = quotient_of x; e = bitlen p - bitlen q in
     if 2 powi e \<le> x then e else e - 1)"

definition ulp :: "rat \<Rightarrow> rat" where
  "ulp x = 2 powi (exponent x - 52)"

text \<open>Rounding of the magnitude; rounding to nearest, ties to even, does not depend on the sign.\<close>

definition dbl_abs :: "rat \<Rightarrow> rat" where
  "dbl_abs x = (if x \<le> 0 then 0 else of_int (round_even (x / ulp x)) * ulp x)"

definition dbl :: "rat \<Rightarrow> rat" where
  "dbl x = (if x < 0 then - dbl_abs (- x) else dbl_abs x)"

definition fixed2 :: "rat \<Rightarrow> string" where
  "fixed2 x = (let h = nat (round_even (\<bar>x\<bar> * 100)) in
     (if x < 0 then ''-'' else []) @ dec (h div 100) @ ''.'' @ zero_pad 2 (dec (h mod 100)))"

subsection \<open>Rounding\<close>

lemma round_even_of_int [simp]: "round_even (of_int i) = i"
  by (simp add: round_even_def)

lemma round_even_near: "\<bar>of_int (round_even x) - x\<bar> \<le> 1 / 2"
proof -
  have f: "of_int \<lfloor>x\<rfloor> \<le> x" "x < of_int \<lfloor>x\<rfloor> + 1" by linarith+
  show ?thesis
  proof (cases "x - of_int \<lfloor>x\<rfloor> < 1 / 2 \<or> (x - of_int \<lfloor>x\<rfloor> = 1 / 2 \<and> even \<lfloor>x\<rfloor>)")
    case True
    then have "round_even x = \<lfloor>x\<rfloor>" "x - of_int \<lfloor>x\<rfloor> \<le> 1 / 2" by (auto simp: round_even_def Let_def)
    with f show ?thesis by linarith
  next
    case False
    then have "round_even x = \<lfloor>x\<rfloor> + 1" "1 / 2 \<le> x - of_int \<lfloor>x\<rfloor>" by (auto simp: round_even_def Let_def)
    with f show ?thesis by linarith
  qed
qed

lemma round_even_bounds:
  assumes "of_int a \<le> x" "x \<le> of_int b"
  shows "a \<le> round_even x" "round_even x \<le> b"
proof -
  have n: "of_int (round_even x) \<le> x + 1 / 2" "x - 1 / 2 \<le> of_int (round_even x)"
    using round_even_near [of x] by linarith+
  then have "of_int a < (of_int (round_even x + 1) :: rat)" using assms(1) by simp
  then show "a \<le> round_even x" by linarith
  have "of_int (round_even x) < (of_int (b + 1) :: rat)" using assms(2) n by simp
  then show "round_even x \<le> b" by linarith
qed

lemma exponent_bounds:
  assumes "0 < x"
  shows "2 powi exponent x \<le> x" "x < 2 powi (exponent x + 1)"
proof -
  obtain p q where pq: "quotient_of x = (p, q)" by force
  then have q: "0 < q" and x: "x = of_int p / of_int q" using quotient_of_denom_pos quotient_of_div by blast+
  then have p: "0 < p" using assms by (simp add: zero_less_divide_iff)
  have pow: "(2 :: rat) powi a = of_int (2 ^ nat a)" if "0 \<le> a" for a using that by (simp add: power_int_def)
  have b1: "1 \<le> bitlen p" "1 \<le> bitlen q" using p q bitlen_eq_zero_iff [of p] bitlen_eq_zero_iff [of q]
    bitlen_nonneg [of p] bitlen_nonneg [of q] by linarith+
  have bp: "(2 :: rat) powi (bitlen p - 1) \<le> of_int p" "of_int p < (2 :: rat) powi bitlen p"
    using bitlen_bounds [OF p] b1 by (simp_all only: pow of_int_le_iff of_int_less_iff bitlen_nonneg diff_ge_0_iff_ge)
  have bq: "(2 :: rat) powi (bitlen q - 1) \<le> of_int q" "of_int q < (2 :: rat) powi bitlen q"
    using bitlen_bounds [OF q] b1 by (simp_all only: pow of_int_le_iff of_int_less_iff bitlen_nonneg diff_ge_0_iff_ge)
  let ?e = "bitlen p - bitlen q"
  have pos: "(0 :: rat) < of_int q" "(0 :: rat) < of_int p" using p q by simp_all
  have "(2 :: rat) powi (?e - 1) * of_int q \<le> 2 powi (?e - 1) * 2 powi bitlen q"
    using bq(2) by (intro mult_left_mono) simp_all
  also have "\<dots> = 2 powi (bitlen p - 1)" by (simp flip: power_int_add)
  also note bp(1)
  finally have lo: "2 powi (?e - 1) \<le> x" using pos x by (simp add: pos_le_divide_eq)
  have "of_int p < (2 :: rat) powi bitlen p" by (rule bp(2))
  also have "\<dots> = 2 powi (?e + 1) * 2 powi (bitlen q - 1)" by (simp flip: power_int_add)
  also have "\<dots> \<le> 2 powi (?e + 1) * of_int q" using bq(1) by (intro mult_left_mono) simp_all
  finally have hi: "x < 2 powi (?e + 1)" using pos x by (simp add: pos_divide_less_eq)
  show "2 powi exponent x \<le> x" "x < 2 powi (exponent x + 1)"
    using lo hi by (auto simp: exponent_def pq Let_def)
qed

lemma exponent_unique:
  assumes "2 powi e \<le> x" "x < 2 powi (e + 1)"
  shows "exponent x = e"
proof -
  have "(0 :: rat) < 2 powi e" by simp
  with assms(1) have "0 < x" by linarith
  note b = exponent_bounds [OF this]
  have "(2 :: rat) powi e < 2 powi (exponent x + 1)" using assms(1) b(2) by linarith
  then have "e < exponent x + 1" by (metis linorder_not_less one_le_numeral power_int_increasing)
  moreover have "(2 :: rat) powi exponent x < 2 powi (e + 1)" using assms(2) b(1) by linarith
  then have "exponent x < e + 1" by (metis linorder_not_less one_le_numeral power_int_increasing)
  ultimately show ?thesis by linarith
qed

lemma ulp_pos [simp]: "0 < ulp x" "ulp x \<noteq> 0"
  by (simp_all add: ulp_def)

text \<open>The significand before rounding has 53 bits.\<close>

lemma significand:
  assumes "0 < x"
  shows "2 ^ 52 \<le> x / ulp x" "x / ulp x < 2 ^ 53"
proof -
  have e: "(2 :: rat) powi exponent x = 2 ^ 52 * ulp x" "(2 :: rat) powi (exponent x + 1) = 2 ^ 53 * ulp x"
    using power_int_add [of "2 :: rat" 52 "exponent x - 52"] power_int_add [of "2 :: rat" 53 "exponent x - 52"]
    by (simp_all add: ulp_def add.commute [of _ 1])
  show "2 ^ 52 \<le> x / ulp x" "x / ulp x < 2 ^ 53"
    using exponent_bounds [OF assms] by (simp_all add: pos_le_divide_eq pos_divide_less_eq e)
qed

lemma dbl_abs_near:
  assumes "0 \<le> x"
  shows "\<bar>dbl_abs x - x\<bar> \<le> x / 2 ^ 53"
proof (cases "x = 0")
  case False
  then have x: "0 < x" using assms by simp
  have "dbl_abs x - x = (of_int (round_even (x / ulp x)) - x / ulp x) * ulp x"
    using x ulp_pos(1) [of x] by (simp add: dbl_abs_def left_diff_distrib)
  then have "\<bar>dbl_abs x - x\<bar> = \<bar>of_int (round_even (x / ulp x)) - x / ulp x\<bar> * ulp x"
    by (simp add: abs_mult abs_of_pos)
  also have "\<dots> \<le> 1 / 2 * ulp x" by (intro mult_right_mono round_even_near) (simp add: less_imp_le)
  also have "\<dots> \<le> x / 2 ^ 53" using significand(1) [OF x] by (simp add: field_simps)
  finally show ?thesis .
qed (simp add: dbl_abs_def)

text \<open>Whole numbers of at most 53 bits are represented exactly.\<close>

lemma dbl_abs_exact:
  assumes "n < 2 ^ 53"
  shows "dbl_abs (of_nat n) = of_nat n"
proof (cases "n = 0")
  case False
  then have x: "0 < (of_nat n :: rat)" by simp
  have "(of_nat n :: rat) < of_nat (2 ^ 53)" using assms by (simp only: of_nat_less_iff)
  then have "(2 :: rat) powi exponent (of_nat n) < 2 powi 53"
    using exponent_bounds(1) [OF x] by simp
  then have e: "exponent (of_nat n) < 53" by (metis linorder_not_less one_le_numeral power_int_increasing)
  have "(of_nat n :: rat) / ulp (of_nat n) = of_nat n * 2 powi (52 - exponent (of_nat n))"
    by (simp add: ulp_def divide_inverse flip: power_int_minus)
  also have "\<dots> = of_int (int n * 2 ^ nat (52 - exponent (of_nat n)))" using e by (simp add: power_int_def)
  finally have "of_int (round_even (of_nat n / ulp (of_nat n))) = (of_nat n :: rat) / ulp (of_nat n)"
    by (metis round_even_of_int)
  then show ?thesis using x by (simp add: dbl_abs_def)
qed (simp add: dbl_abs_def)

text \<open>Scaling by a power of two commutes with rounding, so dividing a double by 1024 is exact.\<close>

lemma dbl_abs_scale: "dbl_abs (x * 2 powi k) = dbl_abs x * 2 powi k"
proof (cases "0 < x")
  case True
  have "exponent (x * 2 powi k) = exponent x + k"
    using exponent_bounds [OF True]
    by (intro exponent_unique) (simp_all add: power_int_add add.assoc [symmetric] add.commute [of k])
  then have "ulp (x * 2 powi k) = ulp x * 2 powi k" by (simp add: ulp_def power_int_add [symmetric] algebra_simps)
  moreover have "\<not> x * 2 powi k \<le> 0" using True by (simp add: not_le)
  ultimately show ?thesis using True by (simp add: dbl_abs_def)
next
  case False
  then have "x * 2 powi k \<le> 0" by (simp add: mult_nonpos_nonneg not_less)
  with False show ?thesis by (simp add: dbl_abs_def)
qed

lemma dbl_abs_of_ulps:
  assumes "0 < m" "m < 2 ^ 53" "x = of_int m * 2 powi k"
  shows "dbl_abs x = x"
proof -
  have "dbl_abs x = dbl_abs (of_nat (nat m)) * 2 powi k" using assms(1,3) dbl_abs_scale [of "of_int m" k] by simp
  also have "\<dots> = of_nat (nat m) * 2 powi k" using assms(2) by (subst dbl_abs_exact) auto
  finally show ?thesis using assms(1,3) by simp
qed

lemma dbl_abs_idem: "dbl_abs (dbl_abs x) = dbl_abs x"
proof (cases "0 < x")
  case True
  define m where "m = round_even (x / ulp x)"
  have m: "2 ^ 52 \<le> m" "m \<le> 2 ^ 53"
    using round_even_bounds [of "2 ^ 52" "x / ulp x" "2 ^ 53"] significand [OF True] by (simp_all add: m_def)
  have d: "dbl_abs x = of_int m * 2 powi (exponent x - 52)" using True by (simp add: dbl_abs_def m_def ulp_def)
  show ?thesis
  proof (cases "m = 2 ^ 53")
    case False
    then show ?thesis using m d dbl_abs_of_ulps [of m] by simp
  next
    case True
    then have "dbl_abs x = of_int 1 * 2 powi (53 + (exponent x - 52))" 
      using d power_int_add [of "2 :: rat" 53 "exponent x - 52"] by simp
    then show ?thesis by (intro dbl_abs_of_ulps [of 1]) simp_all
  qed
qed (simp add: dbl_abs_def)

text \<open>The same for either sign.\<close>

lemma dbl_nonneg: "0 \<le> x \<Longrightarrow> dbl x = dbl_abs x"
  by (simp add: dbl_def)

lemma dbl_minus: "dbl (- x) = - dbl x"
  by (cases "x = 0") (auto simp: dbl_def dbl_abs_def)

lemma dbl_near: "0 \<le> x \<Longrightarrow> \<bar>dbl x - x\<bar> \<le> x / 2 ^ 53"
  using dbl_abs_near [of x] by (simp add: dbl_nonneg)

lemma dbl_exact: "n < 2 ^ 53 \<Longrightarrow> dbl (of_nat n) = of_nat n"
  using dbl_abs_exact [of n] by (simp add: dbl_nonneg)

lemma dbl_scale: "dbl (x * 2 powi k) = dbl x * 2 powi k"
proof -
  have "\<not> (2 :: rat) powi k < 0" by (simp add: not_less)
  then have "x * 2 powi k < 0 \<longleftrightarrow> x < 0" by (simp add: mult_less_0_iff)
  then show ?thesis using dbl_abs_scale [of x k] dbl_abs_scale [of "- x" k] by (simp add: dbl_def)
qed

lemma dbl_abs_ge_0: "0 \<le> dbl_abs x"
proof (cases "0 < x")
  case True
  then have "0 \<le> round_even (x / ulp x)" using round_even_bounds(1) [of 0 "x / ulp x" "\<lceil>x / ulp x\<rceil>"] by (simp add: less_imp_le)
  with True show ?thesis by (simp add: dbl_abs_def less_imp_le)
qed (simp add: dbl_abs_def)

lemma dbl_idem [simp]: "dbl (dbl x) = dbl x"
proof -
  have "dbl (dbl_abs y) = dbl_abs y" for y by (simp add: dbl_nonneg dbl_abs_ge_0 dbl_abs_idem)
  then show ?thesis by (simp add: dbl_def [of x] dbl_minus)
qed

lemma dbl_div_1024: "dbl (y / 1024) = dbl y / 1024"
  using dbl_scale [of y "-10"] by (simp add: power_int_minus field_simps)

lemma dbl_div_1024_power [simp]: "dbl (dbl x / 1024 ^ k) = dbl x / 1024 ^ k"
proof (induction k)
  case (Suc k)
  have "dbl x / 1024 ^ Suc k = dbl x / 1024 ^ k / 1024" by simp
  with Suc show ?case by (simp only: dbl_div_1024)
qed simp

end
