(* ===== verification/NS_Format_Bytes.thy ===== *)
theory NS_Format_Bytes
  imports NS_Double
begin

section \<open>util.c: \<open>ns_format_bytes\<close>\<close>

text \<open>
  A byte count as text with a unit. The loop divides a \<open>double\<close> by 1024; the divisions are
  exact, so the only errors are the conversion of counters of more than 53 bits and the final
  rounding to hundredths.
\<close>

definition units :: "string list" where
  "units = [''B'', ''KB'', ''MB'', ''GB'', ''TB'']"

function format_bytes_loop :: "rat \<Rightarrow> size_t \<Rightarrow> rat \<times> size_t" where
  "format_bytes_loop value unit =
     (if value \<ge> 1024 \<and> unit < 4 then format_bytes_loop (dbl (value / 1024)) (unit + 1)
      else (value, unit))"
  by pat_completeness auto

termination format_bytes_loop
  by (relation "measure (\<lambda>(value, unit). 4 - unat unit)")
    (auto simp: word_less_nat_alt unat_Suc_less [of _ "4 :: size_t"])

declare format_bytes_loop.simps [simp del]

definition ns_format_bytes :: "u64 \<Rightarrow> cbuf \<Rightarrow> size_t \<Rightarrow> cbuf option" where
  "ns_format_bytes bytes buf buf_len = do {
     let (value, unit) = format_bytes_loop (dbl (of_nat (unat bytes))) 0;
     name \<leftarrow> mem_get units unit;
     (buf, _) \<leftarrow> (if unit = 0 then snprintf buf 0 buf_len (dec (unat bytes) @ '' '' @ name)
        else snprintf buf 0 buf_len (fixed2 value @ '' '' @ name));
     Some buf }"

subsection \<open>The unit and the digits\<close>

text \<open>The number of divisions for a count of \<open>n\<close> bytes.\<close>

definition unit_of :: "nat \<Rightarrow> nat" where
  "unit_of n = (if n < 1024 then 0 else if n < 1024 ^ 2 then 1 else if n < 1024 ^ 3 then 2
     else if n < 1024 ^ 4 then 3 else 4)"

definition bytes_text :: "nat \<Rightarrow> string" where
  "bytes_text n = (if n < 1024 then dec n @ '' B''
     else fixed2 (dbl (of_nat n) / 1024 ^ unit_of n) @ '' '' @ units ! unit_of n)"

lemma format_bytes_loop_step:
  "format_bytes_loop (dbl x / 1024 ^ k) unit =
     (if 1024 ^ Suc k \<le> dbl x \<and> unit < 4 then format_bytes_loop (dbl x / 1024 ^ Suc k) (unit + 1)
      else (dbl x / 1024 ^ k, unit))"
proof -
  have "dbl (dbl x / 1024 ^ k / 1024) = dbl x / 1024 ^ Suc k" by (simp only: dbl_div_1024 dbl_div_1024_power) simp
  moreover have "1024 \<le> dbl x / 1024 ^ k \<longleftrightarrow> 1024 ^ Suc k \<le> dbl x" by (simp add: pos_le_divide_eq mult.commute)
  ultimately show ?thesis by (simp only: format_bytes_loop.simps [of "dbl x / 1024 ^ k"])
qed

lemma dbl_reaches_power:
  assumes "k \<le> 4"
  shows "1024 ^ k \<le> dbl (of_nat n) \<longleftrightarrow> 1024 ^ k \<le> n"
proof (cases "n < 2 ^ 53")
  case True
  have "1024 ^ k \<le> (of_nat n :: rat) \<longleftrightarrow> (of_nat (1024 ^ k) :: rat) \<le> of_nat n" by simp
  then show ?thesis unfolding dbl_exact [OF True] by (simp only: of_nat_le_iff)
next
  case False
  have p: "(1024 :: rat) ^ k \<le> 1024 ^ 4" "(1024 :: nat) ^ k \<le> 1024 ^ 4"
    using power_increasing [of k 4 "1024 :: rat"] power_increasing [of k 4 "1024 :: nat"] assms by simp_all
  have "(of_nat (2 ^ 53) :: rat) \<le> of_nat n" using False by (simp only: of_nat_le_iff not_less)
  moreover have "of_nat n - of_nat n / 2 ^ 53 \<le> dbl (of_nat n)" using dbl_near [of "of_nat n"] by linarith
  ultimately have "1024 ^ 4 \<le> dbl (of_nat n)" by simp
  with p False show ?thesis by simp
qed

lemma unit_of_bounds:
  "unit_of n \<le> 4" "k < unit_of n \<Longrightarrow> 1024 ^ Suc k \<le> n" "unit_of n < 4 \<Longrightarrow> n < 1024 ^ Suc (unit_of n)"
proof -
  show le: "unit_of n \<le> 4" by (simp add: unit_of_def)
  show "unit_of n < 4 \<Longrightarrow> n < 1024 ^ Suc (unit_of n)" by (simp add: unit_of_def split: if_splits)
  assume k: "k < unit_of n"
  then consider "k = 0" | "k = 1" | "k = 2" | "k = 3" using le by linarith
  then show "1024 ^ Suc k \<le> n" using k by cases (auto simp: unit_of_def split: if_splits)
qed

lemma format_bytes_loop_from:
  assumes "k \<le> unit_of n"
  shows "format_bytes_loop (dbl (of_nat n) / 1024 ^ k) (of_nat k) =
    (dbl (of_nat n) / 1024 ^ unit_of n, of_nat (unit_of n))"
  using assms
proof (induction "unit_of n - k" arbitrary: k)
  case 0
  then have k: "k = unit_of n" by simp
  have "\<not> (1024 ^ Suc k \<le> dbl (of_nat n) \<and> (of_nat k :: size_t) < 4)"
  proof
    assume a: "1024 ^ Suc k \<le> dbl (of_nat n) \<and> (of_nat k :: size_t) < 4"
    then have "k < 4" using unit_of_bounds(1) [of n] k by (simp add: word_less_nat_alt unat_of_nat)
    with a k unit_of_bounds(3) [of n] dbl_reaches_power [of "Suc k" n] show False by simp
  qed
  then show ?case by (subst format_bytes_loop_step) (simp only: if_False k)
next
  case (Suc x)
  then have k: "k < unit_of n" "k < 4" using unit_of_bounds(1) [of n] by linarith+
  then have "1024 ^ Suc k \<le> dbl (of_nat n)" "(of_nat k :: size_t) < 4"
    using dbl_reaches_power [of "Suc k" n] unit_of_bounds(2) [OF k(1)] by (simp_all add: word_less_nat_alt unat_of_nat)
  moreover have "of_nat (Suc k) = (of_nat k + 1 :: size_t)" by simp
  ultimately show ?case using Suc.hyps(1) [of "Suc k"] Suc.hyps(2) k
    by (subst format_bytes_loop_step) (simp only: simp_thms if_True)
qed

lemma format_bytes_loop_unit:
  "format_bytes_loop (dbl (of_nat n)) 0 = (dbl (of_nat n) / 1024 ^ unit_of n, of_nat (unit_of n))"
  using format_bytes_loop_from [of 0 n] by simp

subsection \<open>The text\<close>

lemma fixed2_text:
  assumes "0 \<le> v" "v \<le> 2 ^ 25"
  obtains h where "fixed2 v = dec (h div 100) @ ''.'' @ zero_pad 2 (dec (h mod 100))" "h < 10 ^ 10"
    "\<bar>of_nat h / 100 - v\<bar> \<le> 1 / 200" "length (fixed2 v) \<le> 11" "nul_free (fixed2 v)"
proof -
  let ?r = "round_even (v * 100)" let ?h = "nat (round_even (v * 100))"
  have r: "0 \<le> ?r" "?r \<le> 2 ^ 25 * 100" using round_even_bounds [of 0 "v * 100" "2 ^ 25 * 100"] assms by simp_all
  then have h: "?h < 10 ^ 10" "of_nat ?h = (of_int ?r :: rat)" by simp_all
  have "\<bar>of_nat ?h - v * 100\<bar> \<le> 1 / 2" using round_even_near [of "v * 100"] h(2) by simp
  then have near: "\<bar>of_nat ?h / 100 - v\<bar> \<le> 1 / 200" by linarith
  have "?h div 100 < 10 ^ 8" using h(1) by simp
  then have "length (dec (?h div 100)) \<le> 8" "length (dec (?h mod 100)) \<le> 2"
    using length_show_base [of 10 "?h div 100" 7] length_show_base [of 10 "?h mod 100" 1] by simp_all
  moreover have f: "fixed2 v = dec (?h div 100) @ ''.'' @ zero_pad 2 (dec (?h mod 100))" using assms(1) by (simp add: fixed2_def Let_def)
  ultimately have len: "length (fixed2 v) \<le> 11" by (simp add: zero_pad_def)
  have "nul_free (fixed2 v)" by (simp add: f zero_pad_def nul_free_def [of "replicate _ _"])
  with that [of ?h] h(1) near len f show thesis by simp
qed

lemma near_trans: "\<bar>a - b\<bar> \<le> x \<Longrightarrow> \<bar>b - c\<bar> \<le> y \<Longrightarrow> \<bar>a - c\<bar> \<le> x + (y :: rat)"
  by linarith

lemma bytes_value:
  assumes "n < 2 ^ 64"
  shows "0 \<le> dbl (of_nat n) / 1024 ^ unit_of n" "dbl (of_nat n) / 1024 ^ unit_of n \<le> 2 ^ 25"
    "\<bar>dbl (of_nat n) / 1024 ^ unit_of n - of_nat n / 1024 ^ unit_of n\<bar> \<le> of_nat n / 1024 ^ unit_of n / 2 ^ 53"
proof -
  have near: "\<bar>dbl (of_nat n) - of_nat n\<bar> \<le> of_nat n / 2 ^ 53" by (rule dbl_near) simp
  have pos: "(0 :: rat) < 1024 ^ unit_of n" by simp
  have "(0 :: rat) \<le> of_nat n" "(of_nat n :: rat) / 2 ^ 53 \<le> of_nat n" by (simp_all add: pos_divide_le_eq)
  with near have d: "0 \<le> dbl (of_nat n)" "dbl (of_nat n) \<le> 2 * of_nat n" unfolding abs_le_iff by auto
  then show "0 \<le> dbl (of_nat n) / 1024 ^ unit_of n" by simp
  have "n \<le> 1024 ^ unit_of n * 2 ^ 24"
    using unit_of_bounds(3) [of n] unit_of_bounds(1) [of n] assms by (cases "unit_of n = 4") auto
  then have "(of_nat n :: rat) \<le> of_nat (1024 ^ unit_of n * 2 ^ 24)" by (simp only: of_nat_le_iff)
  with d have "dbl (of_nat n) \<le> 2 ^ 25 * 1024 ^ unit_of n" by simp
  then show "dbl (of_nat n) / 1024 ^ unit_of n \<le> 2 ^ 25" using pos by (simp add: pos_divide_le_eq)
  have "\<bar>(dbl (of_nat n) - of_nat n) / 1024 ^ unit_of n\<bar> = \<bar>dbl (of_nat n) - of_nat n\<bar> / 1024 ^ unit_of n"
    by (simp add: abs_divide)
  also have "\<dots> \<le> of_nat n / 2 ^ 53 / 1024 ^ unit_of n" using near pos by (intro divide_right_mono) simp_all
  finally show "\<bar>dbl (of_nat n) / 1024 ^ unit_of n - of_nat n / 1024 ^ unit_of n\<bar> \<le> of_nat n / 1024 ^ unit_of n / 2 ^ 53"
    by (simp add: diff_divide_distrib)
qed

lemma units_nth: "u \<le> 4 \<Longrightarrow> mem_get units (of_nat u) = Some (units ! u) \<and> length (units ! u) \<le> 2 \<and> nul_free (units ! u)"
proof -
  assume "u \<le> 4"
  then consider "u = 0" | "u = 1" | "u = 2" | "u = 3" | "u = 4" by linarith
  then show ?thesis by cases (simp_all add: units_def mem_get_def)
qed

lemma bytes_text_fits:
  assumes "n < 2 ^ 64"
  shows "length (bytes_text n) < 22" "nul_free (bytes_text n)"
proof -
  obtain h where "length (fixed2 (dbl (of_nat n) / 1024 ^ unit_of n)) \<le> 11" "nul_free (fixed2 (dbl (of_nat n) / 1024 ^ unit_of n))"
    using fixed2_text [OF bytes_value(1,2) [OF assms]] by metis
  moreover have "length (dec n) \<le> 4" if "n < 1024" using length_show_base [of 10 n 3] that by simp
  ultimately show "length (bytes_text n) < 22" "nul_free (bytes_text n)"
    using units_nth [OF unit_of_bounds(1), of n] by (auto simp: bytes_text_def)
qed

lemma ns_format_bytes_text:
  assumes "unat buf_len = length buf" "22 \<le> length buf"
  obtains q where "ns_format_bytes bytes buf buf_len = Some q" "length q = length buf"
    "c_str q = Some (bytes_text (unat bytes))"
proof -
  let ?n = "unat bytes"
  have "?n < 2 ^ 64" using unsigned_less [of bytes] by simp
  note fits = bytes_text_fits [OF this]
  have "0 < length buf" using assms(2) by linarith
  from snprintf_whole [OF fits(2) assms(1) this]
  obtain q where q: "snprintf buf 0 buf_len (bytes_text ?n) = Some (q, int (length (bytes_text ?n)))"
    "length q = length buf" "c_str q = Some (take (length buf - 1) (bytes_text ?n))" .
  have u: "(of_nat (unit_of ?n) :: size_t) = 0 \<longleftrightarrow> ?n < 1024"
    using unit_of_bounds(1) [of ?n] by (auto simp: unit_of_def)
  have "ns_format_bytes bytes buf buf_len = Some q"
  proof (cases "?n < 1024")
    case True
    then have "unit_of ?n = 0" "units ! 0 = ''B''" by (simp_all add: unit_of_def units_def)
    with True q(1) units_nth [of 0] show ?thesis
      unfolding ns_format_bytes_def Let_def format_bytes_loop_unit prod.case by (simp add: bytes_text_def)
  next
    case False
    with q(1) u units_nth [OF unit_of_bounds(1), of ?n] show ?thesis
      unfolding ns_format_bytes_def Let_def format_bytes_loop_unit prod.case by (simp add: bytes_text_def)
  qed
  moreover have "take (length buf - 1) (bytes_text ?n) = bytes_text ?n" using fits(1) assms(2) by simp
  ultimately show thesis using that q(2,3) by simp
qed

subsection \<open>Properties\<close>

text \<open>C33: a byte count as text. Into any buffer of at least 22 bytes the count is written whole: counts
  below 1024 exactly, larger ones in the largest of the units KB, MB, GB and TB not above the count with two
  decimals, which differ from the exact quotient by at most half a hundredth plus the relative error 2^-53 of
  converting the counter to a double. Counts of 1024^4 and more are given in TB, a unit the comment on the
  function in util.h leaves out.\<close>

theorem format_bytes_exact:
  assumes "unat buf_len = length buf" "22 \<le> length buf" and n: "n = unat bytes" and u: "u = unit_of n"
  shows "\<exists>q h. ns_format_bytes bytes buf buf_len = Some q \<and> length q = length buf \<and>
    c_str q = Some (if u = 0 then dec n @ '' B''
      else dec (h div 100) @ ''.'' @ zero_pad 2 (dec (h mod 100)) @ '' '' @ [''B'', ''KB'', ''MB'', ''GB'', ''TB''] ! u) \<and>
    \<bar>of_nat h / 100 - of_nat n / 1024 ^ u\<bar> \<le> 1 / 200 + (of_nat n / 1024 ^ u / 2 ^ 53 :: rat) \<and>
    u \<le> 4 \<and> (0 < u \<longrightarrow> 1024 ^ u \<le> n) \<and> (u < 4 \<longrightarrow> n < 1024 ^ Suc u)"
proof -
  obtain q where q: "ns_format_bytes bytes buf buf_len = Some q" "length q = length buf"
    "c_str q = Some (bytes_text n)" using ns_format_bytes_text [OF assms(1,2)] n by blast
  have "n < 2 ^ 64" using unsigned_less [of bytes] n by simp
  note v = bytes_value [OF this]
  obtain h where h: "fixed2 (dbl (of_nat n) / 1024 ^ u) = dec (h div 100) @ ''.'' @ zero_pad 2 (dec (h mod 100))"
    "\<bar>of_nat h / 100 - dbl (of_nat n) / 1024 ^ u\<bar> \<le> 1 / 200" using fixed2_text [OF v(1,2)] u by metis
  have "n < 1024 \<longleftrightarrow> u = 0" using u by (auto simp: unit_of_def)
  then have "bytes_text n = (if u = 0 then dec n @ '' B''
      else dec (h div 100) @ ''.'' @ zero_pad 2 (dec (h mod 100)) @ '' '' @ [''B'', ''KB'', ''MB'', ''GB'', ''TB''] ! u)"
    using h(1) u by (simp add: bytes_text_def units_def)
  moreover have "\<bar>of_nat h / 100 - of_nat n / 1024 ^ u\<bar> \<le> 1 / 200 + (of_nat n / 1024 ^ u / 2 ^ 53 :: rat)"
    using near_trans [OF h(2)] v(3) u by simp
  moreover have "0 < u \<longrightarrow> 1024 ^ u \<le> n" using unit_of_bounds(2) [of "u - 1" n] u by (cases u) auto
  ultimately show ?thesis using q unit_of_bounds(1,3) [of n] u by auto
qed

theorem format_bytes_exact_witness:
  "\<exists>q. ns_format_bytes 1536 (stack_buf 32) 32 = Some q \<and> c_str q = Some ''1.50 KB''"
proof -
  have "unat (32 :: size_t) = length (stack_buf 32)" "22 \<le> length (stack_buf 32)" "1536 = unat (1536 :: u64)"
    "1 = unit_of 1536" by (simp_all add: stack_buf_def unit_of_def)
  from format_bytes_exact [OF this] obtain q h where q: "ns_format_bytes 1536 (stack_buf 32) 32 = Some q"
    "c_str q = Some (dec (h div 100) @ ''.'' @ zero_pad 2 (dec (h mod 100)) @ '' KB'')"
    "\<bar>of_nat h / 100 - of_nat 1536 / 1024\<bar> \<le> 1 / 200 + (of_nat 1536 / 1024 / 2 ^ 53 :: rat)" by auto
  from q(3) have "\<bar>of_nat h - 150\<bar> < (1 :: rat)" by (simp add: abs_if field_simps split: if_splits)
  then have "h = 150" by linarith
  moreover have "dec 1 = ''1''" "zero_pad 2 (dec 50) = ''50''" by code_simp+
  ultimately show ?thesis using q by simp
qed

end
