(* ===== verification/NS_Stats_Print.thy ===== *)
theory NS_Stats_Print
  imports NS_Stats NS_Format_Bytes "HOL-Library.Multiset"
begin

section \<open>stats.c: the summary\<close>

text \<open>
  \<open>ns_stats_print\<close> as the text it writes to the stream. \<open>qsort\<close> leaves the order of equal
  elements open, so it is a parameter, with what the C standard promises of it as the laws of a
  locale. The flows are sorted through pointers that are only read, so a list of flows stands for
  the pointer array.
\<close>

abbreviation NL :: string where "NL \<equiv> [CHR 0x0A]"

definition pad_left :: "nat \<Rightarrow> string \<Rightarrow> string" where
  "pad_left w s = replicate (w - length s) CHR '' '' @ s"

definition pad_right :: "nat \<Rightarrow> string \<Rightarrow> string" where
  "pad_right w s = s @ replicate (w - length s) CHR '' ''"

definition compare_flow_ptrs_desc :: "ns_flow_t \<Rightarrow> ns_flow_t \<Rightarrow> int" where
  "compare_flow_ptrs_desc fa fb =
     (if fl_bytes fa > fl_bytes fb then -1 else if fl_bytes fa < fl_bytes fb then 1 else 0)"

definition print_protocol_line :: "string \<Rightarrow> u64 \<Rightarrow> u64 \<Rightarrow> string" where
  "print_protocol_line name n total_packets =
     (if n = 0 then []
      else let pct = (if total_packets > 0
             then dbl (dbl (100 * dbl (of_nat (unat n))) / dbl (of_nat (unat total_packets))) else 0)
           in ''  '' @ pad_right 10 name @ '' '' @ pad_left 8 (dec (unat n)) @ ''   '' @
              pad_left 5 (fixed2 pct) @ ''%'' @ NL)"

definition other_packets :: "ns_stats_t \<Rightarrow> u64" where
  "other_packets stats = st_total_packets stats - st_tcp_packets stats - st_udp_packets stats -
     st_icmp_packets stats - st_icmpv6_packets stats - st_arp_packets stats"

text \<open>The rule is the box-drawing character U+2500, 38 times, in UTF-8.\<close>

definition rule_line :: string where
  "rule_line = concat (replicate 38 [CHR 0xE2, CHR 0x94, CHR 0x80]) @ NL"

definition print_flow :: "size_t \<Rightarrow> ns_flow_t \<Rightarrow> string option" where
  "print_flow i f = do {
     buf \<leftarrow> ns_format_bytes (fl_bytes f) (stack_buf 32) 32;
     bytes_str \<leftarrow> c_str buf;
     a \<leftarrow> c_str (fl_addr_a f);
     b \<leftarrow> c_str (fl_addr_b f);
     Some (dec (unat (i + 1)) @ ''. '' @
       (if fl_port_a f \<noteq> 0 \<or> fl_port_b f \<noteq> 0
        then a @ '':'' @ dec (unat (fl_port_a f)) @ '' <-> '' @ b @ '':'' @ dec (unat (fl_port_b f)) @ NL
        else a @ '' <-> '' @ b @ NL) @
       ''   '' @ ns_proto_name (fl_protocol f) @ NL @
       ''   packets: '' @ dec (unat (fl_packets f)) @ NL @
       ''   traffic: '' @ bytes_str @ NL @ NL) }"

fun print_flows :: "size_t \<Rightarrow> ns_flow_t list \<Rightarrow> string option" where
  "print_flows i [] = Some []"
| "print_flows i (f # fs) = do { s \<leftarrow> print_flow i f; t \<leftarrow> print_flows (i + 1) fs; Some (s @ t) }"

definition ns_stats_print ::
  "((ns_flow_t \<Rightarrow> ns_flow_t \<Rightarrow> int) \<Rightarrow> ns_flow_t list \<Rightarrow> ns_flow_t list) \<Rightarrow> ns_stats_t \<Rightarrow> rat \<Rightarrow> string option" where
  "ns_stats_print qsort stats duration_seconds = do {
     buf \<leftarrow> ns_format_bytes (st_total_captured_bytes stats) (stack_buf 32) 32;
     captured_str \<leftarrow> c_str buf;
     buf \<leftarrow> ns_format_bytes (st_total_wire_bytes stats) (stack_buf 32) 32;
     wire_str \<leftarrow> c_str buf;
     let total = st_total_packets stats;
     let head = rule_line @ ''NetScope Capture Statistics'' @ NL @ rule_line @ NL @
       ''Duration:              '' @ fixed2 duration_seconds @ '' s'' @ NL @ NL @
       ''Packets:               '' @ dec (unat total) @ NL @
       ''Captured traffic:      '' @ captured_str @ NL @
       ''Wire traffic:          '' @ wire_str @ NL @ NL @
       ''Protocols'' @ NL @
       print_protocol_line ''TCP'' (st_tcp_packets stats) total @
       print_protocol_line ''UDP'' (st_udp_packets stats) total @
       print_protocol_line ''ICMP'' (st_icmp_packets stats) total @
       print_protocol_line ''ICMPv6'' (st_icmpv6_packets stats) total @
       print_protocol_line ''ARP'' (st_arp_packets stats) total @
       print_protocol_line ''Other'' (other_packets stats) total @
       NL @ ''Application'' @ NL @ ''  DNS        '' @ pad_left 8 (dec (unat (st_dns_packets stats))) @ NL @
       NL @ ''Malformed              '' @ dec (unat (st_malformed_packets stats)) @ NL @ rule_line;
     if st_flow_count stats = 0 then Some head
     else do {
       let sorted = qsort compare_flow_ptrs_desc (filter fl_in_use (st_flows stats));
       let n = length sorted;
       let shown = (if n < 10 then n else 10);
       tops \<leftarrow> print_flows 0 (take shown sorted);
       Some (head @ NL @ ''Top conversations:'' @ NL @ NL @ tops) } }"

subsection \<open>What \<open>qsort\<close> promises\<close>

text \<open>A comparison function the C standard allows: the signs of both directions agree, and the order is transitive.
  With any other, \<open>qsort\<close> promises nothing.\<close>

definition consistent :: "('a \<Rightarrow> 'a \<Rightarrow> int) \<Rightarrow> bool" where
  "consistent cmp \<longleftrightarrow> (\<forall>x y. cmp x y < 0 \<longleftrightarrow> 0 < cmp y x) \<and>
     (\<forall>x y z. cmp x y \<le> 0 \<longrightarrow> cmp y z \<le> 0 \<longrightarrow> cmp x z \<le> 0)"

lemma consistent_compare: "consistent compare_flow_ptrs_desc"
  by (auto simp: consistent_def compare_flow_ptrs_desc_def)

locale c_qsort =
  fixes qsort :: "(ns_flow_t \<Rightarrow> ns_flow_t \<Rightarrow> int) \<Rightarrow> ns_flow_t list \<Rightarrow> ns_flow_t list"
  assumes permutes: "consistent cmp \<Longrightarrow> mset (qsort cmp xs) = mset xs"
    and orders: "consistent cmp \<Longrightarrow> sorted_wrt (\<lambda>x y. cmp x y \<le> 0) (qsort cmp xs)"
begin

lemma flows_permuted: "mset (qsort compare_flow_ptrs_desc fs) = mset fs"
  by (rule permutes) (rule consistent_compare)

lemma top_by_bytes:
  fixes n :: nat and fs :: "ns_flow_t list"
  defines "s \<equiv> qsort compare_flow_ptrs_desc fs"
  shows "mset (take n s @ drop n s) = mset fs"
    "sorted_wrt (\<lambda>f g. fl_bytes g \<le> fl_bytes f) (take n s)"
    "\<And>f g. f \<in> set (take n s) \<Longrightarrow> g \<in> set (drop n s) \<Longrightarrow> fl_bytes g \<le> fl_bytes f"
proof -
  have "sorted_wrt (\<lambda>f g. fl_bytes g \<le> fl_bytes f) s"
    using orders [OF consistent_compare, of fs]
    by (auto simp: s_def compare_flow_ptrs_desc_def not_less elim!: sorted_wrt_mono_rel [rotated] split: if_splits)
  then have "sorted_wrt (\<lambda>f g. fl_bytes g \<le> fl_bytes f) (take n s @ drop n s)" by simp
  then show "sorted_wrt (\<lambda>f g. fl_bytes g \<le> fl_bytes f) (take n s)"
    "\<And>f g. f \<in> set (take n s) \<Longrightarrow> g \<in> set (drop n s) \<Longrightarrow> fl_bytes g \<le> fl_bytes f"
    unfolding sorted_wrt_append by blast+
  show "mset (take n s @ drop n s) = mset fs" using flows_permuted by (simp add: s_def)
qed

end

text \<open>An insertion sort keeps the promises.\<close>

primrec insert_cmp :: "('a \<Rightarrow> 'a \<Rightarrow> int) \<Rightarrow> 'a \<Rightarrow> 'a list \<Rightarrow> 'a list" where
  "insert_cmp cmp x [] = [x]"
| "insert_cmp cmp x (y # ys) = (if cmp x y \<le> 0 then x # y # ys else y # insert_cmp cmp x ys)"

definition sort_cmp :: "('a \<Rightarrow> 'a \<Rightarrow> int) \<Rightarrow> 'a list \<Rightarrow> 'a list" where
  "sort_cmp cmp xs = foldr (insert_cmp cmp) xs []"

lemma mset_insert_cmp [simp]: "mset (insert_cmp cmp x ys) = add_mset x (mset ys)"
  by (induction ys) auto

lemma set_insert_cmp [simp]: "set (insert_cmp cmp x ys) = insert x (set ys)"
  by (induction ys) auto

lemma mset_sort_cmp [simp]: "mset (sort_cmp cmp xs) = mset xs"
  by (induction xs) (simp_all add: sort_cmp_def)

lemma sorted_insert_cmp:
  assumes "consistent cmp" "sorted_wrt (\<lambda>x y. cmp x y \<le> 0) ys"
  shows "sorted_wrt (\<lambda>x y. cmp x y \<le> 0) (insert_cmp cmp x ys)"
  using assms(2)
proof (induction ys)
  case (Cons y ys)
  then show ?case
  proof (cases "cmp x y \<le> 0")
    case True
    then show ?thesis using Cons.prems assms(1) unfolding consistent_def by fastforce
  next
    case False
    then have "cmp y x \<le> 0" using assms(1) unfolding consistent_def by (metis not_le less_imp_le)
    then show ?thesis using Cons False by auto
  qed
qed simp

interpretation sort_cmp: c_qsort sort_cmp
proof unfold_locales
  fix cmp :: "ns_flow_t \<Rightarrow> ns_flow_t \<Rightarrow> int" and xs
  show "mset (sort_cmp cmp xs) = mset xs" by simp
  assume "consistent cmp"
  then show "sorted_wrt (\<lambda>x y. cmp x y \<le> 0) (sort_cmp cmp xs)"
    by (induction xs) (simp_all add: sort_cmp_def sorted_insert_cmp)
qed

subsection \<open>The top conversations\<close>

text \<open>The line a flow is shown with, \<open>i\<close> places after the first.\<close>

definition flow_text :: "nat \<Rightarrow> ns_flow_t \<Rightarrow> string" where
  "flow_text i f = dec (Suc i) @ ''. '' @
     (let a = the (c_str (fl_addr_a f)); b = the (c_str (fl_addr_b f)) in
      if fl_port_a f \<noteq> 0 \<or> fl_port_b f \<noteq> 0
      then a @ '':'' @ dec (unat (fl_port_a f)) @ '' <-> '' @ b @ '':'' @ dec (unat (fl_port_b f))
      else a @ '' <-> '' @ b) @ NL @
     ''   '' @ ns_proto_name (fl_protocol f) @ NL @
     ''   packets: '' @ dec (unat (fl_packets f)) @ NL @
     ''   traffic: '' @ bytes_text (unat (fl_bytes f)) @ NL @ NL"

lemma bytes_shown:
  obtains q where "ns_format_bytes w (stack_buf 32) 32 = Some q" "c_str q = Some (bytes_text (unat w))"
  using ns_format_bytes_text [of 32 "stack_buf 32" w] by (auto simp: stack_buf_def)

lemma print_flow_text:
  assumes "text_buf 46 (fl_addr_a f)" "text_buf 46 (fl_addr_b f)" "unat i < 10"
  shows "print_flow i f = Some (flow_text (unat i) f)"
proof -
  have "unat (i + 1) = Suc (unat i)" using assms(3) by (simp add: unat_word_ariths)
  moreover obtain q where "ns_format_bytes (fl_bytes f) (stack_buf 32) 32 = Some q"
    "c_str q = Some (bytes_text (unat (fl_bytes f)))" by (rule bytes_shown)
  moreover obtain a b where "c_str (fl_addr_a f) = Some a" "c_str (fl_addr_b f) = Some b"
    using assms(1,2) by (auto simp: text_buf_c_str)
  ultimately show ?thesis by (simp add: print_flow_def flow_text_def)
qed

lemma print_flows_text:
  assumes "\<forall>f \<in> set fs. text_buf 46 (fl_addr_a f) \<and> text_buf 46 (fl_addr_b f)" "unat i + length fs \<le> 10"
  shows "print_flows i fs = Some (concat (map (\<lambda>j. flow_text (unat i + j) (fs ! j)) [0..<length fs]))"
  using assms
proof (induction fs arbitrary: i)
  case (Cons f fs)
  then have "unat i < 10" by simp
  then have i: "unat (i + 1) = Suc (unat i)" by (simp add: unat_word_ariths)
  have split: "map (\<lambda>j. flow_text (unat i + j) ((f # fs) ! j)) [0..<length (f # fs)] =
      flow_text (unat i) f # map (\<lambda>j. flow_text (Suc (unat i) + j) (fs ! j)) [0..<length fs]"
    by (simp add: upt_conv_Cons map_Suc_upt [symmetric] del: upt_Suc)
  have "print_flow i f = Some (flow_text (unat i) f)"
    using print_flow_text [of f i] Cons.prems(1) \<open>unat i < 10\<close> by simp
  moreover have "print_flows (i + 1) fs = Some (concat (map (\<lambda>j. flow_text (Suc (unat i) + j) (fs ! j)) [0..<length fs]))"
    using Cons.IH [of "i + 1"] Cons.prems unfolding i by simp
  ultimately show ?case unfolding split by simp
qed simp

lemma take_texts: "m \<le> length fs \<Longrightarrow>
    map (\<lambda>i. flow_text i (take m fs ! i)) [0..<m] = map (\<lambda>i. flow_text i (fs ! i)) [0..<m]"
  by (rule map_cong) simp_all

text \<open>The summary without the conversations.\<close>

definition summary_head :: "ns_stats_t \<Rightarrow> rat \<Rightarrow> string" where
  "summary_head st duration =
     rule_line @ ''NetScope Capture Statistics'' @ NL @ rule_line @ NL @
     ''Duration:              '' @ fixed2 duration @ '' s'' @ NL @ NL @
     ''Packets:               '' @ dec (unat (st_total_packets st)) @ NL @
     ''Captured traffic:      '' @ bytes_text (unat (st_total_captured_bytes st)) @ NL @
     ''Wire traffic:          '' @ bytes_text (unat (st_total_wire_bytes st)) @ NL @ NL @
     ''Protocols'' @ NL @
     concat (map (\<lambda>(name, n). print_protocol_line name n (st_total_packets st))
       [(''TCP'', st_tcp_packets st), (''UDP'', st_udp_packets st), (''ICMP'', st_icmp_packets st),
        (''ICMPv6'', st_icmpv6_packets st), (''ARP'', st_arp_packets st), (''Other'', other_packets st)]) @
     NL @ ''Application'' @ NL @ ''  DNS        '' @ pad_left 8 (dec (unat (st_dns_packets st))) @ NL @
     NL @ ''Malformed              '' @ dec (unat (st_malformed_packets st)) @ NL @ rule_line"

lemma ns_stats_print_text:
  assumes "c_qsort qsort" and inv: "flows_inv st"
  defines "srt \<equiv> qsort compare_flow_ptrs_desc (filter fl_in_use (st_flows st))"
  shows "ns_stats_print qsort st d = Some (summary_head st d @
    (if st_flow_count st = 0 then []
     else NL @ ''Top conversations:'' @ NL @ NL @
       concat (map (\<lambda>i. flow_text i (srt ! i)) [0..<min 10 (length srt)])))"
proof -
  obtain q1 q2 where q: "ns_format_bytes (st_total_captured_bytes st) (stack_buf 32) 32 = Some q1"
    "c_str q1 = Some (bytes_text (unat (st_total_captured_bytes st)))"
    "ns_format_bytes (st_total_wire_bytes st) (stack_buf 32) 32 = Some q2"
    "c_str q2 = Some (bytes_text (unat (st_total_wire_bytes st)))"
    using bytes_shown by metis
  let ?tops = "take (min 10 (length srt)) srt"
  have "set srt = set (filter fl_in_use (st_flows st))"
    using c_qsort.flows_permuted [OF assms(1)] by (metis srt_def set_mset_mset)
  then have "\<forall>f \<in> set ?tops. text_buf 46 (fl_addr_a f) \<and> text_buf 46 (fl_addr_b f)"
    using inv set_take_subset [of _ srt] by (auto simp: flows_inv_def)
  then have "print_flows 0 ?tops = Some (concat (map (\<lambda>i. flow_text i (srt ! i)) [0..<min 10 (length srt)]))"
    using print_flows_text [of ?tops 0] by (simp add: take_texts)
  moreover have "(if length srt < 10 then length srt else 10) = min 10 (length srt)" by simp
  ultimately show ?thesis
    using q by (simp add: ns_stats_print_def summary_head_def Let_def srt_def [symmetric])
qed

subsection \<open>Properties\<close>

text \<open>C32: the summary of a capture. On every well-formed table the summary is printed, whatever order
  \<open>qsort\<close> gives equal elements, and its conversations are the (at most ten) flows with the most
  bytes, largest first: every flow that is not shown has at most as many bytes as every flow that
  is.\<close>

theorem stats_print_top:
  assumes "c_qsort qsort" "flows_inv st"
  shows "\<exists>tops rest. mset (tops @ rest) = mset (filter fl_in_use (st_flows st)) \<and>
    length tops = min 10 (length (filter fl_in_use (st_flows st))) \<and>
    sorted_wrt (\<lambda>f g. fl_bytes g \<le> fl_bytes f) tops \<and>
    (\<forall>f \<in> set tops. \<forall>g \<in> set rest. fl_bytes g \<le> fl_bytes f) \<and>
    ns_stats_print qsort st duration = Some (summary_head st duration @
      (if st_flow_count st = 0 then []
       else NL @ ''Top conversations:'' @ NL @ NL @
         concat (map (\<lambda>i. flow_text i (tops ! i)) [0..<length tops])))"
proof -
  let ?fs = "filter fl_in_use (st_flows st)"
  let ?s = "qsort compare_flow_ptrs_desc ?fs"
  have len: "length ?s = length ?fs" using c_qsort.flows_permuted [OF assms(1)] by (metis size_mset)
  show ?thesis
    using c_qsort.top_by_bytes [OF assms(1), where n = "min 10 (length ?s)" and fs = ?fs] ns_stats_print_text [OF assms, of duration] len
    by (intro exI [of _ "take (min 10 (length ?s)) ?s"] exI [of _ "drop (min 10 (length ?s)) ?s"])
      (simp add: take_texts)
qed

theorem stats_print_top_witness:
  "\<exists>p st tops. ns_packet_parse query_frame 64 64 frame_time 1 NS_LINK_ETHERNET = Some p \<and>
     stats_run ns_stats_init [p] = Some st \<and> set tops \<subseteq> set (filter fl_in_use (st_flows st)) \<and>
     ns_stats_print sort_cmp st (3 / 2) = Some (summary_head st (3 / 2) @ NL @ ''Top conversations:'' @ NL @ NL @
       concat (map (\<lambda>i. flow_text i (tops ! i)) [0..<length tops]))"
proof -
  obtain p st where p: "ns_packet_parse query_frame 64 64 frame_time 1 NS_LINK_ETHERNET = Some p"
    "stats_run ns_stats_init [p] = Some st" "flows_inv st" "st_flow_count st \<noteq> 0" using query_frame_counted .
  obtain tops rest where t: "mset (tops @ rest) = mset (filter fl_in_use (st_flows st))"
    "ns_stats_print sort_cmp st (3 / 2) = Some (summary_head st (3 / 2) @
      (if st_flow_count st = 0 then []
       else NL @ ''Top conversations:'' @ NL @ NL @ concat (map (\<lambda>i. flow_text i (tops ! i)) [0..<length tops])))"
    using stats_print_top [OF sort_cmp.c_qsort_axioms p(3), of "3 / 2"] by blast
  have "set (tops @ rest) = set (filter fl_in_use (st_flows st))" using t(1) by (metis set_mset_mset)
  then have "set tops \<subseteq> set (filter fl_in_use (st_flows st))" by auto
  with p t(2) show ?thesis by (intro exI [of _ p] exI [of _ st] exI [of _ tops]) simp
qed

text \<open>The remainder shown as "Other" never wraps: after any sequence of decoded packets the
  difference of the counters is the number of packets that are neither TCP, UDP, ICMP, ICMPv6 nor
  ARP.\<close>

lemma stats_other_exact:
  assumes "\<forall>p \<in> set ps. decoded p" "stats_run ns_stats_init ps = Some st"
  shows "other_packets st = how_many (\<lambda>p. pkt_transport_proto p = NS_PROTO_UNKNOWN \<and> pkt_network_proto p \<noteq> NS_PROTO_ARP) ps"
proof -
  have t: "tallied ns_stats_init ps st" using stats_run_counts [OF assms(1) ns_stats_init_inv(1)] assms(2) by auto
  have "of_nat (length ps) = how_many (\<lambda>p. pkt_transport_proto p = NS_PROTO_TCP) ps +
      how_many (\<lambda>p. pkt_transport_proto p = NS_PROTO_UDP) ps + how_many (\<lambda>p. pkt_transport_proto p = NS_PROTO_ICMP) ps +
      how_many (\<lambda>p. pkt_transport_proto p = NS_PROTO_ICMPV6) ps + how_many (\<lambda>p. pkt_network_proto p = NS_PROTO_ARP) ps +
      how_many (\<lambda>p. pkt_transport_proto p = NS_PROTO_UNKNOWN \<and> pkt_network_proto p \<noteq> NS_PROTO_ARP) ps"
    using assms(1)
  proof (induction ps)
    case (Cons p ps)
    then have "transport_inv p" "network_inv p" by (auto simp: decoded_def packet_inv_def)
    then have one: "(1 :: u64) = of_bool (pkt_transport_proto p = NS_PROTO_TCP) + of_bool (pkt_transport_proto p = NS_PROTO_UDP) +
      of_bool (pkt_transport_proto p = NS_PROTO_ICMP) + of_bool (pkt_transport_proto p = NS_PROTO_ICMPV6) +
      of_bool (pkt_network_proto p = NS_PROTO_ARP) +
      of_bool (pkt_transport_proto p = NS_PROTO_UNKNOWN \<and> pkt_network_proto p \<noteq> NS_PROTO_ARP)"
      by (cases "pkt_transport_proto p"; cases "pkt_network_proto p")
        (simp_all add: transport_inv_def network_inv_def no_transport_def)
    have "of_nat (length ps) = how_many (\<lambda>p. pkt_transport_proto p = NS_PROTO_TCP) ps +
      how_many (\<lambda>p. pkt_transport_proto p = NS_PROTO_UDP) ps + how_many (\<lambda>p. pkt_transport_proto p = NS_PROTO_ICMP) ps +
      how_many (\<lambda>p. pkt_transport_proto p = NS_PROTO_ICMPV6) ps + how_many (\<lambda>p. pkt_network_proto p = NS_PROTO_ARP) ps +
      how_many (\<lambda>p. pkt_transport_proto p = NS_PROTO_UNKNOWN \<and> pkt_network_proto p \<noteq> NS_PROTO_ARP) ps"
      using Cons by simp
    then show ?case unfolding length_Cons of_nat_Suc how_many_simps by (subst one) (simp only: ac_simps)
  qed simp
  then show ?thesis using t by (simp add: other_packets_def tallied_def ns_stats_init_def)
qed

lemma stats_other_exact_example:
  "\<exists>p st. ns_packet_parse fragment_frame 38 38 frame_time 1 NS_LINK_ETHERNET = Some p \<and>
     stats_run ns_stats_init [p] = Some st \<and> other_packets st = 1"
proof -
  have len: "unat (38 :: size_t) \<le> length fragment_frame" by (simp add: fragment_frame_def)
  obtain p i where p: "ns_packet_parse fragment_frame 38 38 frame_time 1 NS_LINK_ETHERNET = Some p"
    "pkt_network_proto p = NS_PROTO_IPV4" "pkt_net p = Net_ipv4 i" "ip4_fragment_offset i \<noteq> 0"
    using fragment_frame_parsed .
  then have d: "\<forall>p' \<in> set [p]. decoded p'" using ns_packet_parse_decoded [OF len] by simp
  then have "pkt_transport_proto p = NS_PROTO_UNKNOWN"
    using p by (auto simp: decoded_def packet_inv_def network_inv_def no_transport_def)
  moreover obtain st where st: "stats_run ns_stats_init [p] = Some st"
    using stats_run_counts [OF d ns_stats_init_inv(1)] by blast
  ultimately show ?thesis using stats_other_exact [OF d st] p by auto
qed

end
