(* ===== verification/NS_Filter.thy ===== *)
theory NS_Filter
  imports NS_CString
begin

section \<open>filter.c: the capture filter\<close>

text \<open>
  \<open>ns_filter_build_bpf\<close> writes a BPF expression into the caller's buffer: the raw expression if
  there is one, otherwise the terms of the options joined by \<^verbatim>\<open> and \<close>. A string pointer is
  \<open>None\<close> for \<open>NULL\<close> or the array it points to; the local \<open>piece\<close> has 128 bytes.
\<close>

record ns_filter_spec_t =
  fs_tcp :: bool
  fs_udp :: bool
  fs_icmp :: bool
  fs_port :: int
  fs_host :: "cbuf option"
  fs_src :: "cbuf option"
  fs_dst :: "cbuf option"
  fs_raw :: "cbuf option"

text \<open>The result is the returned \<open>bool\<close>, the buffer and \<open>*pos\<close>.\<close>

definition filter_append :: "cbuf \<Rightarrow> size_t \<Rightarrow> size_t \<Rightarrow> cbuf \<Rightarrow> (bool \<times> cbuf \<times> size_t) option" where
  "filter_append out out_len pos piece = do {
     s \<leftarrow> c_str piece;
     let piece_len = of_nat (length s);
     if pos \<noteq> 0 \<and> pos + 4 \<ge> out_len then Some (False, out, pos)
     else do {
       (out, pos) \<leftarrow> (if pos \<noteq> 0 then do {
            out \<leftarrow> mem_write out pos '' and '';
            Some (out, pos + 5) }
          else Some (out, pos));
       if pos + piece_len \<ge> out_len then Some (False, out, pos)
       else do {
         bytes \<leftarrow> mem_read piece 0 piece_len;
         out \<leftarrow> mem_write out pos bytes;
         let pos = pos + piece_len;
         out \<leftarrow> mem_set out pos NUL;
         Some (True, out, pos) } } }"

text \<open>\<open>p != NULL && p[0] != 0\<close>.\<close>

definition non_empty :: "cbuf option \<Rightarrow> bool option" where
  "non_empty p = (case p of None \<Rightarrow> Some False | Some q \<Rightarrow> do { c \<leftarrow> mem_get q 0; Some (c \<noteq> NUL) })"

text \<open>One conditional \<open>append\<close>; a failed one returns \<open>false\<close> from the whole function, so the
  later ones do nothing. \<open>fill\<close> gives the argument of \<open>append\<close> and the local \<open>piece\<close> it may
  have printed it into.\<close>

definition filter_term ::
  "bool option \<Rightarrow> (cbuf \<Rightarrow> (cbuf \<times> cbuf) option) \<Rightarrow> size_t \<Rightarrow> bool \<times> cbuf \<times> size_t \<times> cbuf \<Rightarrow> (bool \<times> cbuf \<times> size_t \<times> cbuf) option" where
  "filter_term cond fill out_len = (\<lambda>(ok, out, pos, piece).
     if \<not> ok then Some (False, out, pos, piece)
     else do {
       c \<leftarrow> cond;
       if \<not> c then Some (True, out, pos, piece)
       else do {
         (arg, piece) \<leftarrow> fill piece;
         (ok, out, pos) \<leftarrow> filter_append out out_len pos arg;
         Some (ok, out, pos, piece) } })"

text \<open>\<open>snprintf(piece, sizeof(piece), "<prefix>%s", p)\<close>.\<close>

definition fill_str :: "string \<Rightarrow> cbuf option \<Rightarrow> cbuf \<Rightarrow> (cbuf \<times> cbuf) option" where
  "fill_str prefix p piece = do {
     q \<leftarrow> p;
     s \<leftarrow> c_str q;
     (piece, _) \<leftarrow> snprintf piece 0 128 (prefix @ s);
     Some (piece, piece) }"

definition fill_port :: "int \<Rightarrow> cbuf \<Rightarrow> (cbuf \<times> cbuf) option" where
  "fill_port port piece = do {
     (piece, _) \<leftarrow> snprintf piece 0 128 (''port '' @ show_int port);
     Some (piece, piece) }"

definition fill_literal :: "string \<Rightarrow> cbuf \<Rightarrow> (cbuf \<times> cbuf) option" where
  "fill_literal s piece = Some (s @ [NUL], piece)"

definition ns_filter_build_bpf :: "ns_filter_spec_t \<Rightarrow> cbuf \<Rightarrow> size_t \<Rightarrow> (bool \<times> cbuf) option" where
  "ns_filter_build_bpf spec out out_len =
     (if out_len = 0 then Some (False, out)
      else do {
        out \<leftarrow> mem_set out 0 NUL;
        has_raw \<leftarrow> non_empty (fs_raw spec);
        if has_raw then do {
          raw \<leftarrow> fs_raw spec;
          s \<leftarrow> c_str raw;
          if of_nat (length s) \<ge> out_len then Some (False, out)
          else do { out \<leftarrow> mem_write out 0 (s @ [NUL]); Some (True, out) } }
        else do {
          let s = (True, out, 0, stack_buf 128);
          s \<leftarrow> filter_term (Some (fs_tcp spec)) (fill_literal ''tcp'') out_len s;
          s \<leftarrow> filter_term (Some (fs_udp spec)) (fill_literal ''udp'') out_len s;
          s \<leftarrow> filter_term (Some (fs_icmp spec)) (fill_literal ''icmp'') out_len s;
          s \<leftarrow> filter_term (Some (fs_port spec \<ge> 0)) (fill_port (fs_port spec)) out_len s;
          s \<leftarrow> filter_term (non_empty (fs_host spec)) (fill_str ''host '' (fs_host spec)) out_len s;
          s \<leftarrow> filter_term (non_empty (fs_src spec)) (fill_str ''src host '' (fs_src spec)) out_len s;
          (ok, out, pos, piece) \<leftarrow> filter_term (non_empty (fs_dst spec)) (fill_str ''dst host '' (fs_dst spec)) out_len s;
          Some (ok, out) } })"

subsection \<open>The text of a filter\<close>

text \<open>The string behind a pointer; the empty string for \<open>NULL\<close>.\<close>

definition str_of :: "cbuf option \<Rightarrow> string" where
  "str_of p = (case p of None \<Rightarrow> [] | Some q \<Rightarrow> the (c_str q))"

text \<open>A null pointer or a terminated string in an object of a size C allows.\<close>

definition str_ok :: "cbuf option \<Rightarrow> bool" where
  "str_ok p \<longleftrightarrow> (case p of None \<Rightarrow> True | Some q \<Rightarrow> NUL \<in> set q \<and> length q < 2 ^ 63)"

text \<open>The terms the options ask for, in the order of the code.\<close>

definition filter_terms :: "ns_filter_spec_t \<Rightarrow> string list" where
  "filter_terms spec =
     (if fs_tcp spec then [''tcp''] else []) @ (if fs_udp spec then [''udp''] else []) @
     (if fs_icmp spec then [''icmp''] else []) @
     (if fs_port spec \<ge> 0 then [''port '' @ show_int (fs_port spec)] else []) @
     (if str_of (fs_host spec) \<noteq> [] then [''host '' @ str_of (fs_host spec)] else []) @
     (if str_of (fs_src spec) \<noteq> [] then [''src host '' @ str_of (fs_src spec)] else []) @
     (if str_of (fs_dst spec) \<noteq> [] then [''dst host '' @ str_of (fs_dst spec)] else [])"

text \<open>What the code appends: a term passes through the local \<open>char piece[128]\<close> and is cut to 127 characters there.\<close>

definition filter_pieces :: "ns_filter_spec_t \<Rightarrow> string list" where
  "filter_pieces spec = map (take 127) (filter_terms spec)"

lemma filter_pieces_list:
  "filter_pieces spec =
     (if fs_tcp spec then [''tcp''] else []) @ (if fs_udp spec then [''udp''] else []) @
     (if fs_icmp spec then [''icmp''] else []) @
     (if fs_port spec \<ge> 0 then [take 127 (''port '' @ show_int (fs_port spec))] else []) @
     (if str_of (fs_host spec) \<noteq> [] then [take 127 (''host '' @ str_of (fs_host spec))] else []) @
     (if str_of (fs_src spec) \<noteq> [] then [take 127 (''src host '' @ str_of (fs_src spec))] else []) @
     (if str_of (fs_dst spec) \<noteq> [] then [take 127 (''dst host '' @ str_of (fs_dst spec))] else [])"
  by (simp add: filter_pieces_def filter_terms_def)

lemma filter_pieces_whole: "\<forall>t \<in> set (filter_terms spec). length t \<le> 127 \<Longrightarrow> filter_pieces spec = filter_terms spec"
  by (simp add: filter_pieces_def map_idI)

definition filter_text :: "ns_filter_spec_t \<Rightarrow> string" where
  "filter_text spec = (if str_of (fs_raw spec) \<noteq> [] then str_of (fs_raw spec)
     else join '' and '' (filter_pieces spec))"

lemma c_str_head: "c_str q = Some s \<Longrightarrow> mem_get q 0 = Some (case s of [] \<Rightarrow> NUL | c # _ \<Rightarrow> c)"
  by (cases q) (auto simp: c_str_def mem_get_def split: if_splits)

lemma non_empty_str:
  assumes "str_ok p"
  shows "non_empty p = Some (str_of p \<noteq> [])"
proof (cases p)
  case (Some q)
  with assms obtain s where s: "c_str q = Some s" by (auto simp: str_ok_def c_str_def)
  then have "nul_free s" by (rule c_str_nul_free)
  then show ?thesis using Some s c_str_head [OF s] by (cases s) (simp_all add: non_empty_def str_of_def)
qed (simp add: non_empty_def str_of_def)

lemma str_of_nul_free: "str_ok p \<Longrightarrow> nul_free (str_of p)"
  by (auto simp: str_ok_def str_of_def c_str_def nul_free_def split: option.splits dest: set_takeWhileD)

lemma filter_text_nul_free:
  assumes "str_ok (fs_host spec)" "str_ok (fs_src spec)" "str_ok (fs_dst spec)" "str_ok (fs_raw spec)"
  shows "nul_free (filter_text spec)"
proof -
  have "nul_free s" if "s \<in> set (filter_pieces spec)" for s
    using that assms [THEN str_of_nul_free] by (auto simp: filter_pieces_list show_int_def split: if_splits)
  then show ?thesis using assms(4) [THEN str_of_nul_free] by (simp add: filter_text_def join_nul_free)
qed

lemma mem_write_append:
  assumes "holds p acc" "unat pos = length acc" "length acc + length s \<le> length p"
  obtains q where "mem_write p pos s = Some q" "length q = length p" "holds q (acc @ s)"
proof -
  have "take (length acc) p = acc" using assms(1) by (simp add: holds_def)
  then show thesis
    using that [of "acc @ s @ drop (length acc + length s) p"] assms(2,3) by (simp add: mem_write_def holds_def)
qed

text \<open>The buffer after some terms have been appended.\<close>

definition built :: "cbuf \<Rightarrow> size_t \<Rightarrow> string list \<Rightarrow> bool" where
  "built out pos ps \<longleftrightarrow> (let t = join '' and '' ps in
     holds out t \<and> unat pos = length t \<and> length t < length out \<and> out ! length t = NUL \<and> [] \<notin> set ps)"

lemma join_nonempty: "[] \<notin> set ps \<Longrightarrow> join sep ps = [] \<longleftrightarrow> ps = []"
  by (cases ps) (auto simp: join_Cons)

lemma filter_append_step:
  assumes b: "built out pos ps" and s: "c_str piece = Some s" "s \<noteq> []" "length s < 128"
    and len: "unat out_len = length out" "length out < 2 ^ 63"
  shows "\<exists>ok out' pos'. filter_append out out_len pos piece = Some (ok, out', pos') \<and> length out' = length out \<and>
    (ok \<longleftrightarrow> length (join '' and '' (ps @ [s])) < length out) \<and> (ok \<longrightarrow> built out' pos' (ps @ [s]))"
proof -
  define t where "t = join '' and '' ps"
  have t: "holds out t" "unat pos = length t" "length t < length out" "[] \<notin> set ps"
    using b by (simp_all add: built_def Let_def t_def)
  then have pos: "pos = 0 \<longleftrightarrow> ps = []" using join_nonempty [of ps "'' and ''"] by (metis t_def length_0_conv unat_eq_zero)
  have sl: "unat (of_nat (length s) :: size_t) = length s" using s(3) by (simp add: unat_of_nat)
  have "s = takeWhile (\<lambda>c. c \<noteq> NUL) piece" using s(1) by (simp add: c_str_def split: if_splits)
  then have "take (length s) piece = s" by (metis takeWhile_eq_take)
  then have rd: "mem_read piece 0 (of_nat (length s)) = Some s"
    using c_str_length [OF s(1)] sl by (simp add: mem_read_def)
  define sep where "sep = (if ps = [] then [] else '' and '')"
  have j: "join '' and '' (ps @ [s]) = t @ sep @ s" by (simp add: join_snoc t_def sep_def)
  show ?thesis
  proof (cases "pos \<noteq> 0 \<and> pos + 4 \<ge> out_len")
    case True
    have "unat (pos + 4) = length t + 4" using t len by (simp add: unat_word_ariths)
    then have "length out \<le> length t + 4" using True len(1) by (simp add: word_le_nat_alt)
    then have "\<not> length (t @ sep @ s) < length out" using True pos by (simp add: sep_def)
    then have "filter_append out out_len pos piece = Some (False, out, pos)"
      using True s(1) by (simp add: filter_append_def)
    with \<open>\<not> length (t @ sep @ s) < length out\<close> show ?thesis unfolding j by blast
  next
    case False
    have "length t + length sep \<le> length out"
    proof (cases "ps = []")
      case pne: False
      have "unat (pos + 4) = length t + 4" using t len by (simp add: unat_word_ariths)
      then show ?thesis using False pne pos len(1) by (simp add: word_le_nat_alt sep_def)
    qed (use t in \<open>simp add: sep_def\<close>)
    then obtain o1 where o1: "mem_write out pos sep = Some o1" "length o1 = length out" "holds o1 (t @ sep)"
      using mem_write_append [OF t(1,2), of sep] by blast
    define p1 where "p1 = (if pos \<noteq> 0 then pos + 5 else pos)"
    have p1: "unat p1 = length (t @ sep)" using t len pos by (simp add: p1_def sep_def unat_word_ariths)
    have m: "(if pos \<noteq> 0 then do { out \<leftarrow> mem_write out pos '' and ''; Some (out, pos + 5) } else Some (out, pos)) = Some (o1, p1)"
      using o1(1) pos t by (auto simp: p1_def sep_def mem_write_def)
    have p2: "unat (p1 + of_nat (length s)) = length (t @ sep @ s)"
      using p1 sl t len s(3) by (simp add: unat_word_ariths sep_def)
    show ?thesis
    proof (cases "length (t @ sep @ s) < length out")
      case over: False
      then have "p1 + of_nat (length s) \<ge> out_len" using p2 len(1) by (simp add: word_le_nat_alt)
      then have "filter_append out out_len pos piece = Some (False, o1, p1)"
        unfolding filter_append_def s(1) m using False by (auto simp: Let_def)
      with over o1(2) show ?thesis unfolding j by blast
    next
      case True
      then have fits: "\<not> p1 + of_nat (length s) \<ge> out_len" using p2 len(1) by (simp add: word_le_nat_alt)
      obtain o2 where o2: "mem_write o1 p1 s = Some o2" "length o2 = length o1" "holds o2 ((t @ sep) @ s)"
        using mem_write_append [OF o1(3) p1, of s] True o1(2) by auto
      define o3 where "o3 = o2[length (t @ sep @ s) := NUL]"
      have set: "mem_set o2 (p1 + of_nat (length s)) NUL = Some o3"
        using p2 True o1(2) o2(2) by (simp add: mem_set_def o3_def)
      have "built o3 (p1 + of_nat (length s)) (ps @ [s])"
        using o2 o1(2) True p2 t(4) s(2) by (simp add: built_def j o3_def holds_def)
      moreover have "length o3 = length out" using o1(2) o2(2) by (simp add: o3_def)
      moreover have "filter_append out out_len pos piece = Some (True, o3, p1 + of_nat (length s))"
        unfolding filter_append_def s(1) m using False fits rd o2(1) set by (simp add: Let_def)
      ultimately show ?thesis using True unfolding j by blast
    qed
  qed
qed

subsection \<open>The whole function\<close>

definition filter_state :: "nat \<Rightarrow> string list \<Rightarrow> bool \<times> cbuf \<times> size_t \<times> cbuf \<Rightarrow> bool" where
  "filter_state n ps = (\<lambda>(ok, out, pos, piece). length out = n \<and> length piece = 128 \<and>
     (ok \<longleftrightarrow> length (join '' and '' ps) < n) \<and> (ok \<longrightarrow> built out pos ps))"

lemma filter_term_step:
  assumes st: "filter_state n ps st" and n: "unat out_len = n" "n < 2 ^ 63" and cond: "cond = Some c"
    and fill: "\<And>piece. c \<Longrightarrow> length piece = 128 \<Longrightarrow>
      \<exists>arg piece'. fill piece = Some (arg, piece') \<and> length piece' = 128 \<and> c_str arg = Some s \<and> s \<noteq> [] \<and> length s < 128"
  obtains st' where "filter_term cond fill out_len st = Some st'" "filter_state n (ps @ (if c then [s] else [])) st'"
proof -
  obtain ok out pos piece where st': "st = (ok, out, pos, piece)" by (cases st)
  note f = st [unfolded st' filter_state_def, simplified]
  show thesis
  proof (cases "ok \<and> c")
    case True
    obtain arg piece' where a: "fill piece = Some (arg, piece')" "length piece' = 128" "c_str arg = Some s" "s \<noteq> []"
      "length s < 128" using fill True f by blast
    obtain ok' out' pos' where "filter_append out out_len pos arg = Some (ok', out', pos')" "length out' = length out"
      "ok' \<longleftrightarrow> length (join '' and '' (ps @ [s])) < length out" "ok' \<longrightarrow> built out' pos' (ps @ [s])"
      using filter_append_step [of out pos ps arg s out_len] a f n True by auto
    with a f True that [of "(ok', out', pos', piece')"] show thesis
      by (simp add: filter_term_def st' cond filter_state_def)
  next
    case False
    have "length (join '' and '' ps) \<le> length (join '' and '' (ps @ [s]))" by (simp add: join_snoc)
    with f False that [of st] show thesis
      by (cases c) (auto simp: filter_term_def st' cond filter_state_def)
  qed
qed

lemma fill_str_ok:
  assumes "str_ok p" "str_of p \<noteq> []" "length piece = 128" "nul_free prefix"
  shows "\<exists>arg piece'. fill_str prefix p piece = Some (arg, piece') \<and> length piece' = 128 \<and>
    c_str arg = Some (take 127 (prefix @ str_of p)) \<and> take 127 (prefix @ str_of p) \<noteq> [] \<and>
    length (take 127 (prefix @ str_of p)) < 128"
proof -
  obtain q where q: "p = Some q" using assms(2) by (cases p) (auto simp: str_of_def)
  with assms(1) obtain s where s: "c_str q = Some s" by (auto simp: str_ok_def c_str_def)
  have "unat (128 :: size_t) = length piece" "0 < length piece" "nul_free (prefix @ s)"
    using assms(3,4) c_str_nul_free [OF s] by simp_all
  from snprintf_whole [OF this(3,1,2)] obtain r where "snprintf piece 0 128 (prefix @ s) = Some (r, int (length (prefix @ s)))"
    "length r = length piece" "c_str r = Some (take (length piece - 1) (prefix @ s))" .
  with assms(2,3) q s show ?thesis by (simp add: fill_str_def str_of_def)
qed

lemma fill_literal_ok:
  assumes "length piece = 128" "nul_free s" "s \<noteq> []" "length s < 128"
  shows "\<exists>arg piece'. fill_literal s piece = Some (arg, piece') \<and> length piece' = 128 \<and> c_str arg = Some s \<and>
    s \<noteq> [] \<and> length s < 128"
  using assms c_str_terminated [of s "[]"] by (simp add: fill_literal_def)

lemma fill_port_ok:
  assumes "0 \<le> port" "length piece = 128"
  shows "\<exists>arg piece'. fill_port port piece = Some (arg, piece') \<and> length piece' = 128 \<and>
    c_str arg = Some (take 127 (''port '' @ show_int port)) \<and> take 127 (''port '' @ show_int port) \<noteq> [] \<and>
    length (take 127 (''port '' @ show_int port)) < 128"
proof -
  have "unat (128 :: size_t) = length piece" "0 < length piece" "nul_free (''port '' @ show_int port)"
    using assms by (simp_all add: show_int_def)
  from snprintf_whole [OF this(3,1,2)] obtain r where
    "snprintf piece 0 128 (''port '' @ show_int port) = Some (r, int (length (''port '' @ show_int port)))"
    "length r = length piece" "c_str r = Some (take (length piece - 1) (''port '' @ show_int port))" .
  with assms show ?thesis by (simp add: fill_port_def)
qed

lemma filter_literal_step:
  assumes "filter_state n ps st" "unat out_len = n" "n < 2 ^ 63" "nul_free s" "s \<noteq> []" "length s < 128"
  obtains st' where "filter_term (Some c) (fill_literal s) out_len st = Some st'"
    "filter_state n (ps @ (if c then [s] else [])) st'"
  using filter_term_step [OF assms(1-3) refl, where fill = "fill_literal s" and s = s and c = c]
    fill_literal_ok [OF _ assms(4-6)] that by blast

lemma filter_str_step:
  assumes "filter_state n ps st" "unat out_len = n" "n < 2 ^ 63" "str_ok p" "nul_free prefix"
  obtains st' where "filter_term (non_empty p) (fill_str prefix p) out_len st = Some st'"
    "filter_state n (ps @ (if str_of p \<noteq> [] then [take 127 (prefix @ str_of p)] else [])) st'"
  using filter_term_step [OF assms(1-3) non_empty_str [OF assms(4)], where fill = "fill_str prefix p" and
      s = "take 127 (prefix @ str_of p)"] fill_str_ok [OF assms(4) _ _ assms(5)] that by blast

lemma ns_filter_build_bpf_text:
  assumes "unat out_len = length out" "length out < 2 ^ 63"
    and "str_ok (fs_host spec)" "str_ok (fs_src spec)" "str_ok (fs_dst spec)" "str_ok (fs_raw spec)"
  shows "\<exists>ok out'. ns_filter_build_bpf spec out out_len = Some (ok, out') \<and> length out' = length out \<and>
    (ok \<longleftrightarrow> length (filter_text spec) < length out) \<and> (ok \<longrightarrow> c_str out' = Some (filter_text spec))"
proof (cases "length out = 0")
  case True
  then have "out_len = 0" using assms(1) by (simp add: unat_eq_zero)
  then show ?thesis using True by (auto simp: ns_filter_build_bpf_def)
next
  case False
  then have len: "out_len \<noteq> 0" "0 < length out" using assms(1) by auto
  define out0 where "out0 = out[0 := NUL]"
  have o0: "mem_set out 0 NUL = Some out0" "length out0 = length out" using len by (simp_all add: mem_set_def out0_def)
  show ?thesis
  proof (cases "str_of (fs_raw spec) \<noteq> []")
    case True
    then obtain raw s where raw: "fs_raw spec = Some raw" "c_str raw = Some s" "str_of (fs_raw spec) = s"
      using assms(6) by (cases "fs_raw spec") (auto simp: str_of_def str_ok_def c_str_def)
    have "length s < length raw" "length raw < 2 ^ 63"
      using c_str_length [OF raw(2)] assms(6) raw(1) by (simp_all add: str_ok_def)
    then have sl: "unat (of_nat (length s) :: size_t) = length s" by (simp add: unat_of_nat)
    have ftext: "filter_text spec = s" using True raw(3) by (simp add: filter_text_def)
    have "non_empty (Some raw) = Some True" using non_empty_str [OF assms(6)] True raw(1) by simp
    note eval = ns_filter_build_bpf_def len o0 raw this
    show ?thesis
    proof (cases "length s < length out")
      case fits: True
      then have "\<not> of_nat (length s) \<ge> out_len" using sl assms(1) by (simp add: word_le_nat_alt)
      moreover have "mem_write out0 0 (s @ [NUL]) = Some (s @ NUL # drop (Suc (length s)) out0)"
        using fits o0(2) by (simp add: mem_write_def)
      ultimately have "ns_filter_build_bpf spec out out_len = Some (True, s @ NUL # drop (Suc (length s)) out0)"
        by (simp add: eval)
      moreover have "c_str (s @ NUL # drop (Suc (length s)) out0) = Some s"
        by (rule c_str_terminated [OF c_str_nul_free [OF raw(2)]])
      moreover have "length (s @ NUL # drop (Suc (length s)) out0) = length out" using fits o0(2) by simp
      ultimately show ?thesis using fits ftext by blast
    next
      case over: False
      then have "of_nat (length s) \<ge> out_len" using sl assms(1) by (simp add: word_le_nat_alt)
      then have "ns_filter_build_bpf spec out out_len = Some (False, out0)" by (simp add: eval)
      then show ?thesis using over o0(2) ftext by auto
    qed
  next
    case False
    have n: "unat out_len = length out" "length out < 2 ^ 63" using assms by simp_all
    let ?P1 = "[] @ (if fs_tcp spec then [''tcp''] else [])"
    let ?P2 = "?P1 @ (if fs_udp spec then [''udp''] else [])"
    let ?P3 = "?P2 @ (if fs_icmp spec then [''icmp''] else [])"
    let ?P4 = "?P3 @ (if fs_port spec \<ge> 0 then [take 127 (''port '' @ show_int (fs_port spec))] else [])"
    let ?P5 = "?P4 @ (if str_of (fs_host spec) \<noteq> [] then [take 127 (''host '' @ str_of (fs_host spec))] else [])"
    let ?P6 = "?P5 @ (if str_of (fs_src spec) \<noteq> [] then [take 127 (''src host '' @ str_of (fs_src spec))] else [])"
    let ?P7 = "?P6 @ (if str_of (fs_dst spec) \<noteq> [] then [take 127 (''dst host '' @ str_of (fs_dst spec))] else [])"
    have lit_tcp: "nul_free ''tcp''" "''tcp'' \<noteq> []" "length ''tcp'' < 128" by simp_all
    have lit_udp: "nul_free ''udp''" "''udp'' \<noteq> []" "length ''udp'' < 128" by simp_all
    have lit_icmp: "nul_free ''icmp''" "''icmp'' \<noteq> []" "length ''icmp'' < 128" by simp_all
    have pre: "nul_free ''host ''" "nul_free ''src host ''" "nul_free ''dst host ''" by simp_all
    have 0: "filter_state (length out) [] (True, out0, 0, stack_buf 128)"
      using len o0(2) by (simp add: filter_state_def built_def out0_def stack_buf_def)
    obtain s1 where 1: "filter_term (Some (fs_tcp spec)) (fill_literal ''tcp'') out_len (True, out0, 0, stack_buf 128) = Some s1"
      "filter_state (length out) ?P1 s1"
      by (rule filter_literal_step [OF 0 n lit_tcp])
    obtain s2 where 2: "filter_term (Some (fs_udp spec)) (fill_literal ''udp'') out_len s1 = Some s2"
      "filter_state (length out) ?P2 s2"
      by (rule filter_literal_step [OF 1(2) n lit_udp])
    obtain s3 where 3: "filter_term (Some (fs_icmp spec)) (fill_literal ''icmp'') out_len s2 = Some s3"
      "filter_state (length out) ?P3 s3"
      by (rule filter_literal_step [OF 2(2) n lit_icmp])
    obtain s4 where 4: "filter_term (Some (fs_port spec \<ge> 0)) (fill_port (fs_port spec)) out_len s3 = Some s4"
      "filter_state (length out) ?P4 s4"
      using filter_term_step [OF 3(2) n refl, where fill = "fill_port (fs_port spec)" and c = "fs_port spec \<ge> 0" and
        s = "take 127 (''port '' @ show_int (fs_port spec))"] fill_port_ok by blast
    obtain s5 where 5: "filter_term (non_empty (fs_host spec)) (fill_str ''host '' (fs_host spec)) out_len s4 = Some s5"
      "filter_state (length out) ?P5 s5"
      by (rule filter_str_step [OF 4(2) n assms(3) pre(1)])
    obtain s6 where 6: "filter_term (non_empty (fs_src spec)) (fill_str ''src host '' (fs_src spec)) out_len s5 = Some s6"
      "filter_state (length out) ?P6 s6"
      by (rule filter_str_step [OF 5(2) n assms(4) pre(2)])
    obtain s7 where 7: "filter_term (non_empty (fs_dst spec)) (fill_str ''dst host '' (fs_dst spec)) out_len s6 = Some s7"
      "filter_state (length out) ?P7 s7"
      by (rule filter_str_step [OF 6(2) n assms(5) pre(3)])
    obtain ok out' pos' piece' where s7: "s7 = (ok, out', pos', piece')" by (cases s7)
    have ftext: "filter_text spec = join '' and '' ?P7" using False by (simp add: filter_text_def filter_pieces_list)
    have r: "ns_filter_build_bpf spec out out_len = Some (ok, out')"
      using len(1) o0(1) non_empty_str [OF assms(6)] False 1(1) 2(1) 3(1) 4(1) 5(1) 6(1) 7(1)
      by (simp add: ns_filter_build_bpf_def s7)
    have "length out' = length out" "ok \<longleftrightarrow> length (filter_text spec) < length out" "ok \<Longrightarrow> built out' pos' ?P7"
      using 7(2) unfolding s7 filter_state_def ftext by simp_all
    moreover have "c_str out' = Some (filter_text spec)" if "built out' pos' ?P7"
      using that holds_c_str [of out' "filter_text spec"] filter_text_nul_free [of spec] assms(3-6)
      unfolding built_def Let_def ftext by blast
    ultimately show ?thesis using r by blast
  qed
qed

subsection \<open>Properties\<close>

lemma length_show_port:
  "0 \<le> port \<Longrightarrow> port < 2 ^ 31 \<Longrightarrow> length (show_int port) \<le> 10"
  using length_show_base [of 10 "nat port" 9] by (simp add: show_int_def nat_less_iff)

lemma length_join_sum: "length (join sep ss) \<le> sum_list (map (\<lambda>s. length s + length sep) ss)"
  by (induction ss) (auto simp: join_Cons)

lemma filter_text_short:
  assumes "fs_port spec < 2 ^ 31"
  shows "length (join '' and '' (filter_pieces spec)) < 512"
proof -
  let ?w = "\<lambda>ss. sum_list (map (\<lambda>s :: string. length s + length '' and '') ss)"
  have bound: "?w (if c then [s] else []) \<le> k + 5" if "c \<Longrightarrow> length s \<le> k" for c s k using that by simp
  have cut: "length (take 127 s) \<le> 127" for s :: string by simp
  have "length (take 127 (''port '' @ show_int (fs_port spec))) \<le> 15" if "0 \<le> fs_port spec"
    using length_show_port [OF that assms] by simp
  note port = bound [OF this]
  have lits: "?w (if fs_tcp spec then [''tcp''] else []) \<le> 8" "?w (if fs_udp spec then [''udp''] else []) \<le> 8"
    "?w (if fs_icmp spec then [''icmp''] else []) \<le> 9" by simp_all
  have strs: "?w (if str_of (fs_host spec) \<noteq> [] then [take 127 (''host '' @ str_of (fs_host spec))] else []) \<le> 127 + 5"
    "?w (if str_of (fs_src spec) \<noteq> [] then [take 127 (''src host '' @ str_of (fs_src spec))] else []) \<le> 127 + 5"
    "?w (if str_of (fs_dst spec) \<noteq> [] then [take 127 (''dst host '' @ str_of (fs_dst spec))] else []) \<le> 127 + 5"
    by (rule bound, rule cut)+
  have total: "a + (b + (c + (d + (e + (f + g))))) \<le> 441"
    if "a \<le> 8" "b \<le> 8" "c \<le> 9" "d \<le> 15 + 5" "e \<le> 127 + 5" "f \<le> 127 + 5" "g \<le> 127 + 5" for a b c d e f g :: nat
    using that by simp
  have "?w (filter_pieces spec) \<le> 441"
    using total [OF lits port strs] unfolding filter_pieces_list map_append sum_list_append .
  with length_join_sum [of "'' and ''" "filter_pieces spec"] show ?thesis by linarith
qed

text \<open>C34: the capture filter. For every specification the function is defined on any buffer and succeeds exactly when
  the expression fits with its terminator. The expression is the raw one if there is one, otherwise the terms of the
  options joined by " and ", each cut to its first 127 characters: the local buffer of 128 bytes cuts a longer --host,
  --src or --dst argument silently, and only when no term is longer does the buffer hold the terms the options ask
  for. Into the 512 bytes the program passes the terms always fit (a raw expression has to be shorter than that).
  The term of --icmp is icmp alone, which does not match the ICMPv6 packets its help text promises.\<close>

theorem filter_build_exact:
  assumes "unat out_len = length out" "length out < 2 ^ 63"
    and "str_ok (fs_host spec)" "str_ok (fs_src spec)" "str_ok (fs_dst spec)" "str_ok (fs_raw spec)"
  shows "\<exists>ok out' expr. ns_filter_build_bpf spec out out_len = Some (ok, out') \<and> length out' = length out \<and>
    expr = (if str_of (fs_raw spec) \<noteq> [] then str_of (fs_raw spec) else join '' and '' (map (take 127) (filter_terms spec))) \<and>
    (ok \<longleftrightarrow> length expr < length out) \<and> (ok \<longrightarrow> c_str out' = Some expr) \<and>
    (str_of (fs_raw spec) = [] \<and> (\<forall>t \<in> set (filter_terms spec). length t \<le> 127) \<longrightarrow> expr = join '' and '' (filter_terms spec)) \<and>
    (length out = 512 \<and> str_of (fs_raw spec) = [] \<and> fs_port spec < 2 ^ 31 \<longrightarrow> ok)"
proof -
  obtain ok out' where r: "ns_filter_build_bpf spec out out_len = Some (ok, out')" "length out' = length out"
    "ok \<longleftrightarrow> length (filter_text spec) < length out" "ok \<longrightarrow> c_str out' = Some (filter_text spec)"
    using ns_filter_build_bpf_text [OF assms] by blast
  have shown: "filter_text spec = (if str_of (fs_raw spec) \<noteq> [] then str_of (fs_raw spec)
      else join '' and '' (map (take 127) (filter_terms spec)))" by (simp add: filter_text_def filter_pieces_def)
  have whole: "str_of (fs_raw spec) = [] \<and> (\<forall>t \<in> set (filter_terms spec). length t \<le> 127) \<longrightarrow>
      filter_text spec = join '' and '' (filter_terms spec)"
    using filter_pieces_whole [of spec] by (simp add: filter_text_def)
  have "length out = 512 \<and> str_of (fs_raw spec) = [] \<and> fs_port spec < 2 ^ 31 \<longrightarrow> ok"
    using r(3) filter_text_short [of spec] by (simp add: filter_text_def)
  with r shown whole show ?thesis by blast
qed

definition sample_filter :: ns_filter_spec_t where
  "sample_filter = \<lparr> fs_tcp = True, fs_udp = False, fs_icmp = False, fs_port = 443, fs_host = Some (''10.0.0.1'' @ [NUL]),
     fs_src = None, fs_dst = Some [NUL], fs_raw = None \<rparr>"

theorem filter_build_exact_witness:
  "\<exists>out'. ns_filter_build_bpf sample_filter (stack_buf 512) 512 = Some (True, out') \<and>
     c_str out' = Some ''tcp and port 443 and host 10.0.0.1''"
proof -
  have "join '' and '' (map (take 127) (filter_terms sample_filter)) = ''tcp and port 443 and host 10.0.0.1''"
    "str_of (fs_raw sample_filter) = []" by code_simp+
  moreover have "unat (512 :: size_t) = length (stack_buf 512)" "length (stack_buf 512) < 2 ^ 63"
    "str_ok (fs_host sample_filter)" "str_ok (fs_src sample_filter)" "str_ok (fs_dst sample_filter)"
    "str_ok (fs_raw sample_filter)" by (simp_all add: stack_buf_def sample_filter_def str_ok_def)
  ultimately show ?thesis using filter_build_exact [of 512 "stack_buf 512" sample_filter] by (auto simp: stack_buf_def)
qed

end
