(* ===== verification/NS_Time.thy ===== *)
theory NS_Time
  imports NS_Packet "HOL-Library.Signed_Division"
begin

section \<open>Calendar time\<close>

text \<open>
  What the sources use of \<^verbatim>\<open><time.h>\<close>: \<open>gmtime_r\<close>, \<open>localtime_r\<close> and the two
  \<open>strftime\<close> formats, with \<open>%03d\<close> and \<open>%06d\<close> of \<^verbatim>\<open><stdio.h>\<close>. Times are POSIX
  times (no leap seconds); the local time zone is a parameter, the offset from UTC in seconds at a
  given time. A time whose year does not fit an \<open>int\<close> has no broken-down time: the C functions
  then leave their target unspecified, and the callers would read it. A reference definition, the
  number of seconds from the epoch to a date, says what the broken-down time means.
\<close>

record tm =
  tm_sec :: int
  tm_min :: int
  tm_hour :: int
  tm_mday :: int
  tm_mon :: int
  tm_year :: int

definition leap :: "int \<Rightarrow> bool" where
  "leap y \<longleftrightarrow> y mod 4 = 0 \<and> (y mod 100 \<noteq> 0 \<or> y mod 400 = 0)"

definition year_len :: "int \<Rightarrow> nat" where
  "year_len y = (if leap y then 366 else 365)"

definition month_len :: "int \<Rightarrow> nat \<Rightarrow> nat" where
  "month_len y m = (if m = 1 then (if leap y then 29 else 28) else if m \<in> {3, 5, 8, 10} then 30 else 31)"

function year_of :: "int \<Rightarrow> nat \<Rightarrow> int \<times> nat" where
  "year_of y d = (if d < year_len y then (y, d) else year_of (y + 1) (d - year_len y))"
  by auto
termination by (relation "measure snd") (auto simp: year_len_def)

declare year_of.simps [simp del]

function month_of :: "int \<Rightarrow> nat \<Rightarrow> nat \<Rightarrow> nat \<times> nat" where
  "month_of y m d = (if d < month_len y m \<or> 11 \<le> m then (m, d) else month_of y (Suc m) (d - month_len y m))"
  by auto
termination by (relation "measure (\<lambda>(y, m, d). 11 - m)") auto

declare month_of.simps [simp del]

definition gmtime_r :: "int \<Rightarrow> tm option" where
  "gmtime_r t =
     (let days = t div 86400; s = t mod 86400;
          (y, yd) = year_of (1970 + 400 * (days div 146097)) (nat (days mod 146097));
          (m, md) = month_of y 0 yd
      in if - (2 ^ 31) \<le> y - 1900 \<and> y - 1900 < 2 ^ 31
         then Some \<lparr> tm_sec = s mod 60, tm_min = s div 60 mod 60, tm_hour = s div 3600,
                tm_mday = int md + 1, tm_mon = int m, tm_year = y - 1900 \<rparr>
         else None)"

definition localtime_r :: "(int \<Rightarrow> int) \<Rightarrow> int \<Rightarrow> tm option" where
  "localtime_r zone t = gmtime_r (t + zone t)"

definition zero_pad_int :: "nat \<Rightarrow> int \<Rightarrow> string" where
  "zero_pad_int w i = (if i < 0 then CHR ''-'' # zero_pad (w - 1) (dec (nat (- i))) else zero_pad w (dec (nat i)))"

text \<open>\<^verbatim>\<open>%H:%M:%S\<close> and \<^verbatim>\<open>%Y-%m-%dT%H:%M:%S\<close>. \<open>strftime\<close> returns 0 when the text does not fit.\<close>

definition hms_text :: "tm \<Rightarrow> string" where
  "hms_text tm = zero_pad_int 2 (tm_hour tm) @ '':'' @ zero_pad_int 2 (tm_min tm) @ '':'' @ zero_pad_int 2 (tm_sec tm)"

definition iso_text :: "tm \<Rightarrow> string" where
  "iso_text tm = show_int (tm_year tm + 1900) @ ''-'' @ zero_pad_int 2 (tm_mon tm + 1) @ ''-'' @
     zero_pad_int 2 (tm_mday tm) @ ''T'' @ hms_text tm"

definition strftime :: "cbuf \<Rightarrow> size_t \<Rightarrow> string \<Rightarrow> (cbuf \<times> size_t) option" where
  "strftime p n s =
     (if length s < unat n then do { p \<leftarrow> mem_write p 0 (s @ [NUL]); Some (p, of_nat (length s)) }
      else Some (p, 0))"

subsection \<open>The date of a day\<close>

text \<open>Days from the epoch to the first of January, and seconds from the epoch to a broken-down time.\<close>

definition year_start :: "int \<Rightarrow> int" where
  "year_start y = 365 * (y - 1970) + ((y - 1) div 4 - (y - 1) div 100 + (y - 1) div 400 - 477)"

definition day_number :: "int \<Rightarrow> nat \<Rightarrow> int \<Rightarrow> int" where
  "day_number y m d = year_start y + int (\<Sum>k<m. month_len y k) + d - 1"

definition epoch_seconds :: "tm \<Rightarrow> int" where
  "epoch_seconds tm = 86400 * day_number (tm_year tm + 1900) (nat (tm_mon tm)) (tm_mday tm) +
     3600 * tm_hour tm + 60 * tm_min tm + tm_sec tm"

definition valid_tm :: "tm \<Rightarrow> bool" where
  "valid_tm tm \<longleftrightarrow> 0 \<le> tm_sec tm \<and> tm_sec tm < 60 \<and> 0 \<le> tm_min tm \<and> tm_min tm < 60 \<and>
     0 \<le> tm_hour tm \<and> tm_hour tm < 24 \<and> 0 \<le> tm_mon tm \<and> tm_mon tm < 12 \<and>
     1 \<le> tm_mday tm \<and> tm_mday tm \<le> int (month_len (tm_year tm + 1900) (nat (tm_mon tm))) \<and>
     - (2 ^ 31) \<le> tm_year tm \<and> tm_year tm < 2 ^ 31"

lemma div_step:
  assumes "0 < (k :: int)"
  shows "y div k = (y - 1) div k + of_bool (y mod k = 0)"
proof -
  let ?q = "(y - 1) div k" and ?r = "(y - 1) mod k"
  have r: "0 \<le> ?r" "?r < k" using assms by simp_all
  have y: "y = ?q * k + (?r + 1)" using div_mult_mod_eq [of "y - 1" k] by linarith
  show ?thesis
  proof (cases "?r + 1 < k")
    case True
    have y': "y = k * ?q + (?r + 1)" "0 \<le> ?r + 1" using y r by (simp_all add: mult.commute)
    then have "y div k = ?q" "y mod k = ?r + 1"
      using True int_div_pos_eq [OF y'(1,2)] int_mod_pos_eq [OF y'(1,2)] by blast+
    with r show ?thesis by simp
  next
    case False
    with r have "?r + 1 = k" by linarith
    then have "y = (?q + 1) * k" using y by (simp add: distrib_right)
    then have "y div k = ?q + 1" "y mod k = 0"
      using assms by (metis nonzero_mult_div_cancel_right less_irrefl, metis mod_mult_self2_is_0)
    then show ?thesis by simp
  qed
qed

lemma mod_mod_multiple: "(y :: int) mod (k * n) = 0 \<Longrightarrow> y mod k = 0"
  by auto

lemma leap_days_step: "p = a + x \<Longrightarrow> q = b + y \<Longrightarrow> r = c + z \<Longrightarrow>
    365 * (n + 1 - 1970) + (p - q + r - 477) = 365 * (n - 1970) + (a - b + c - 477) + (365 + (x - y + z :: int))"
  by simp

lemma year_start_Suc: "year_start (y + 1) = year_start y + int (year_len y)"
proof -
  let ?A = "y mod 4 = 0" and ?B = "y mod 100 = 0" and ?C = "y mod 400 = 0"
  have "?C \<Longrightarrow> ?B" "?B \<Longrightarrow> ?A"
    using mod_mod_multiple [of y 100 4] mod_mod_multiple [of y 4 25] by simp_all
  then have len: "int (year_len y) = 365 + (of_bool ?A - of_bool ?B + of_bool ?C)"
    unfolding year_len_def leap_def by (cases ?A; cases ?B; cases ?C) simp_all
  have "y div 4 = (y - 1) div 4 + of_bool ?A" "y div 100 = (y - 1) div 100 + of_bool ?B"
    "y div 400 = (y - 1) div 400 + of_bool ?C" by (rule div_step; simp)+
  then show ?thesis unfolding len year_start_def add_diff_cancel_right' by (rule leap_days_step)
qed

lemma cycle_div: "k * n = 400 \<Longrightarrow> 0 < k \<Longrightarrow> (1970 + 400 * e - 1) div k = 1969 div k + n * (e :: int)"
proof -
  assume a: "k * n = 400" "0 < k"
  then have "1970 + 400 * e - 1 = 1969 + n * e * k" by (simp flip: a(1))
  moreover have "(1969 + n * e * k) div k = n * e + 1969 div k" using a(2) by (intro div_mult_self1) simp
  ultimately show ?thesis by (simp only: add.commute)
qed

lemma year_start_cycle: "year_start (1970 + 400 * e) = 146097 * e"
  using cycle_div [of 4 100 e] cycle_div [of 100 4 e] cycle_div [of 400 1 e]
  by (simp add: year_start_def del: add_diff_eq)

lemma year_of_start:
  "year_of y d = (y', d') \<Longrightarrow> year_start y' + int d' = year_start y + int d \<and> d' < year_len y' \<and> y \<le> y' \<and> y' \<le> y + int d"
proof (induction y d rule: year_of.induct)
  case (1 y d)
  show ?case
  proof (cases "d < year_len y")
    case True
    with 1 show ?thesis by (simp add: year_of.simps [of y d])
  next
    case False
    moreover have "0 < year_len y" by (simp add: year_len_def)
    ultimately show ?thesis using 1 by (auto simp: year_of.simps [of y d] year_start_Suc)
  qed
qed

lemma month_of_start:
  assumes "month_of y m d = (m', d')" "m \<le> 11" "int d < int (\<Sum>k<12. month_len y k) - int (\<Sum>k<m. month_len y k)"
  shows "int (\<Sum>k<m'. month_len y k) + int d' = int (\<Sum>k<m. month_len y k) + int d \<and> d' < month_len y m' \<and> m' \<le> 11"
  using assms
proof (induction y m d rule: month_of.induct)
  case (1 y m d)
  show ?case
  proof (cases "d < month_len y m \<or> 11 \<le> m")
    case True
    then show ?thesis
    proof
      assume "11 \<le> m"
      with 1 have "m = 11" by simp
      moreover have "(\<Sum>k<12. month_len y k) = (\<Sum>k<11. month_len y k) + month_len y 11"
        using sum.lessThan_Suc [of "month_len y" 11] by simp
      ultimately show ?thesis using 1 by (auto simp: month_of.simps [of y 11 d])
    qed (use 1 in \<open>simp add: month_of.simps [of y m d]\<close>)
  next
    case False
    with 1 show ?thesis by (simp add: month_of.simps [of y m d])
  qed
qed

lemma months_of_year: "(\<Sum>k<12. month_len y k) = year_len y"
  by (simp add: numeral_eq_Suc month_len_def year_len_def)

lemma zdiv_less_bound: "s < a * k \<Longrightarrow> 0 < k \<Longrightarrow> s div k < (a :: int)"
proof (rule ccontr)
  assume a: "s < a * k" "0 < k" "\<not> s div k < a"
  then have "a * k \<le> s div k * k" by (simp add: mult_right_mono)
  moreover have "s div k * k \<le> s" using a(2) div_mult_mod_eq [of s k] pos_mod_sign [of k s] by linarith
  ultimately show False using a(1) by linarith
qed

lemma zdiv_ge_bound: "a * k \<le> s \<Longrightarrow> 0 < k \<Longrightarrow> (a :: int) \<le> s div k"
  by (metis nonzero_mult_div_cancel_right zdiv_mono1 less_irrefl)

lemma hms_split: "3600 * (s div 3600) + 60 * (s div 60 mod 60) + s mod 60 = (s :: int)"
proof -
  have "s div 3600 = s div 60 div 60" using zdiv_zmult2_eq [of 60 s 60] by simp
  moreover have "60 * (s div 60 div 60) + s div 60 mod 60 = s div 60" "60 * (s div 60) + s mod 60 = s" by simp_all
  ultimately show ?thesis by linarith
qed

lemma gmtime_r_date:
  assumes "gmtime_r t = Some tm"
  shows "epoch_seconds tm = t \<and> valid_tm tm"
proof -
  define days s where "days = t div 86400" and "s = t mod 86400"
  have t: "86400 * days + s = t" "0 \<le> s" "s < 86400" by (simp_all add: days_def s_def)
  obtain y yd m md where y: "year_of (1970 + 400 * (days div 146097)) (nat (days mod 146097)) = (y, yd)"
    and m: "month_of y 0 yd = (m, md)" by (meson surj_pair)
  have r: "- (2 ^ 31) \<le> y - 1900 \<and> y - 1900 < 2 ^ 31" and
    tm: "tm = \<lparr> tm_sec = s mod 60, tm_min = s div 60 mod 60, tm_hour = s div 3600,
                tm_mday = int md + 1, tm_mon = int m, tm_year = y - 1900 \<rparr>"
    using assms by (auto simp: gmtime_r_def y m Let_def simp flip: days_def s_def split: if_splits)
  have "year_start y + int yd = days" "yd < year_len y"
    using year_of_start [OF y] by (simp_all add: year_start_cycle)
  moreover from this(2) have "int (\<Sum>k<m. month_len y k) + int md = int yd" "md < month_len y m" "m \<le> 11"
    using month_of_start [OF m] by (simp_all add: months_of_year)
  ultimately have d: "day_number y m (int md + 1) = days" "md < month_len y m" "m \<le> 11"
    by (simp_all add: day_number_def)
  have "s div 3600 < 24" "0 \<le> s div 3600"
    using t by (simp_all add: pos_imp_zdiv_nonneg_iff zdiv_less_bound)
  then have "valid_tm tm" using r d(2,3) by (simp add: valid_tm_def tm)
  moreover have "epoch_seconds tm = 86400 * days + (3600 * (s div 3600) + 60 * (s div 60 mod 60) + s mod 60)"
    by (simp add: epoch_seconds_def tm d(1))
  ultimately show ?thesis unfolding hms_split t(1) by simp
qed

lemma gmtime_r_defined:
  assumes "- (2 ^ 55) \<le> t" "t \<le> 2 ^ 55"
  shows "\<exists>tm. gmtime_r t = Some tm"
proof -
  define days e where "days = t div 86400" and "e = days div 146097"
  have d: "- 500000000000 \<le> days" "days < 500000000000"
    using assms zdiv_less_bound [of t 500000000000 86400] by (simp_all add: days_def zdiv_ge_bound)
  then have e: "- 4000000 \<le> e" "e < 4000000"
    using zdiv_less_bound [of days 4000000 146097] by (simp_all add: e_def zdiv_ge_bound)
  obtain y yd m md where y: "year_of (1970 + 400 * e) (nat (days mod 146097)) = (y, yd)"
    and m: "month_of y 0 yd = (m, md)" by (meson surj_pair)
  have "1970 + 400 * e \<le> y" "y \<le> 1970 + 400 * e + days mod 146097"
    using year_of_start [OF y] by simp_all
  moreover have "days mod 146097 < 146097" by simp
  ultimately have "- 2147483648 \<le> y - 1900 \<and> y - 1900 < 2147483648" using e by linarith
  then show ?thesis using y m by (simp add: gmtime_r_def Let_def flip: days_def e_def)
qed

subsection \<open>Times as text\<close>

lemma zero_pad_int_nul_free [simp]: "nul_free (zero_pad_int w i)"
  by (simp add: zero_pad_int_def)

lemma show_int_nul_free [simp]: "nul_free (show_int i)"
  by (simp add: show_int_def)

lemma stamp_nul_free [simp]: "nul_free (hms_text tm)" "nul_free (iso_text tm)"
  by (simp_all add: hms_text_def iso_text_def)

lemma length_two_digits: "0 \<le> i \<Longrightarrow> i < 100 \<Longrightarrow> length (zero_pad_int 2 i) = 2"
  using length_show_base [of 10 "nat i" 1] nat_less_iff [of i 100] by (simp add: zero_pad_int_def zero_pad_def)

lemma length_show_int: "- (10 ^ Suc k) < i \<Longrightarrow> i < 10 ^ Suc k \<Longrightarrow> length (show_int i) \<le> Suc (Suc k)"
  using length_show_base [of 10 "nat i" k] length_show_base [of 10 "nat (- i)" k]
  by (auto simp: show_int_def nat_less_iff)

lemma length_hms: "valid_tm tm \<Longrightarrow> length (hms_text tm) = 8"
  by (simp add: valid_tm_def hms_text_def length_two_digits)

lemma length_iso:
  assumes "valid_tm tm"
  shows "length (iso_text tm) \<le> 26"
proof -
  have "length (show_int (tm_year tm + 1900)) \<le> Suc (Suc 9)"
    using assms by (intro length_show_int) (simp_all add: valid_tm_def)
  moreover have "tm_mday tm \<le> 31" "1 \<le> tm_mday tm" "0 \<le> tm_mon tm" "tm_mon tm < 12"
    using assms by (auto simp: valid_tm_def month_len_def split: if_splits)
  then have "length (zero_pad_int 2 (tm_mon tm + 1)) = 2" "length (zero_pad_int 2 (tm_mday tm)) = 2"
    by (simp_all add: length_two_digits)
  ultimately show ?thesis using length_hms [OF assms] by (simp add: iso_text_def)
qed

lemma snprintf_append_cut:
  assumes "holds p acc" "unat pos = length acc" "unat len = length p" "length acc < length p"
    and "nul_free acc" "nul_free s"
  obtains q where "snprintf p pos (len - pos) s = Some (q, int (length s))" "length q = length p"
    "c_str q = Some (take (length p - 1) (acc @ s))"
proof -
  let ?t = "take (length p - length acc - 1) s"
  let ?q = "acc @ ?t @ NUL # drop (length acc + length ?t + 1) p"
  have n: "unat (len - pos) = length p - length acc" "len - pos \<noteq> 0"
    using assms by (auto simp: unat_sub_le)
  have "length acc + Suc (length ?t) \<le> length p" using assms(4) by simp
  then have "snprintf p pos (len - pos) s = Some (?q, int (length s))" "length ?q = length p"
    using n assms(1,2) by (simp_all add: snprintf_def mem_write_def holds_def)
  moreover have "c_str ?q = Some (take (length p - 1) (acc @ s))"
    using c_str_terminated [of "acc @ ?t"] assms by simp
  ultimately show thesis using that by blast
qed

lemma stamp_shown:
  assumes "unat n = length p" "length s < length p" "nul_free s" "nul_free t"
  shows "\<exists>p1 pos q r. strftime p n s = Some (p1, pos) \<and> snprintf p1 pos (n - pos) t = Some (q, r) \<and>
    length q = length p \<and> c_str q = Some (take (length p - 1) (s @ t))"
proof -
  let ?p = "s @ NUL # drop (Suc (length s)) p" and ?pos = "of_nat (length s) :: size_t"
  have p: "strftime p n s = Some (?p, ?pos)" "length ?p = length p" "holds ?p s"
    using assms by (simp_all add: strftime_def mem_write_def holds_def)
  have "length s < 2 ^ 64" using assms(1,2) unat_lt_2p64 [of n] by simp
  then have "unat ?pos = length s" by (simp add: unat_of_nat)
  moreover have "unat n = length ?p" "length s < length ?p" using assms(1,2) p(2) by argo+
  ultimately obtain q where "snprintf ?p ?pos (n - ?pos) t = Some (q, int (length t))" "length q = length ?p"
    "c_str q = Some (take (length ?p - 1) (s @ t))"
    using snprintf_append_cut [OF p(3) _ _ _ assms(3,4)] by blast
  then show ?thesis unfolding p(1,2) by blast
qed

end
