(* ===== verification/NS_Output_Text.thy ===== *)
theory NS_Output_Text
  imports NS_Time NS_Stats_Print NS_Hexdump
begin

section \<open>output.c: packets as text\<close>

text \<open>
  The text side of output.c. A function that prints to a stream returns the characters it writes; the
  stream accepts them all, since the code ignores the results of \<open>fprintf\<close>. Local buffers keep
  their sizes: a text longer than its buffer would be cut by \<open>snprintf\<close>, and reading a buffer
  that holds no terminated string is undefined. The second half shows that none of this happens, by
  comparing with texts written without any buffer.
\<close>

datatype ns_output_format_t = NS_FORMAT_TEXT | NS_FORMAT_JSON

record ns_output_options_t =
  opt_color :: bool
  opt_verbose :: bool
  opt_quiet :: bool
  opt_hex :: bool
  opt_format :: ns_output_format_t

abbreviation ESC :: char where "ESC \<equiv> CHR 0x1B"
abbreviation NS_COLOR_TCP :: string where "NS_COLOR_TCP \<equiv> ESC # ''[36m''"
abbreviation NS_COLOR_UDP :: string where "NS_COLOR_UDP \<equiv> ESC # ''[32m''"
abbreviation NS_COLOR_ICMP :: string where "NS_COLOR_ICMP \<equiv> ESC # ''[33m''"
abbreviation NS_COLOR_DNS :: string where "NS_COLOR_DNS \<equiv> ESC # ''[35m''"
abbreviation NS_COLOR_ARP :: string where "NS_COLOR_ARP \<equiv> ESC # ''[36m''"
abbreviation NS_COLOR_ERROR :: string where "NS_COLOR_ERROR \<equiv> ESC # ''[31m''"
abbreviation NS_COLOR_RESET :: string where "NS_COLOR_RESET \<equiv> ESC # ''[0m''"

text \<open>\<open>isatty\<close> is the operating system's answer for a stream.\<close>

definition ns_output_should_use_color :: "('f \<Rightarrow> int) \<Rightarrow> bool \<Rightarrow> 'f \<Rightarrow> bool" where
  "ns_output_should_use_color isatty no_color_flag stream = (if no_color_flag then False else isatty stream \<noteq> 0)"

definition top_protocol :: "ns_packet_t \<Rightarrow> ns_proto_t" where
  "top_protocol pkt = (if pkt_has_dns pkt then NS_PROTO_DNS
     else if pkt_transport_proto pkt \<noteq> NS_PROTO_UNKNOWN then pkt_transport_proto pkt
     else pkt_network_proto pkt)"

definition protocol_color :: "ns_proto_t \<Rightarrow> string" where
  "protocol_color proto = (case proto of
     NS_PROTO_TCP \<Rightarrow> NS_COLOR_TCP | NS_PROTO_UDP \<Rightarrow> NS_COLOR_UDP
   | NS_PROTO_ICMP \<Rightarrow> NS_COLOR_ICMP | NS_PROTO_ICMPV6 \<Rightarrow> NS_COLOR_ICMP
   | NS_PROTO_DNS \<Rightarrow> NS_COLOR_DNS | NS_PROTO_ARP \<Rightarrow> NS_COLOR_ARP | _ \<Rightarrow> [])"

definition format_timestamp :: "(int \<Rightarrow> int) \<Rightarrow> ns_timestamp_t \<Rightarrow> cbuf \<Rightarrow> size_t \<Rightarrow> cbuf option" where
  "format_timestamp zone ts buf buf_len = do {
     let t = sint (ts_seconds ts);
     tm_buf \<leftarrow> localtime_r zone t;
     let ms = sint (ts_microseconds ts) sdiv 1000;
     (buf, pos) \<leftarrow> strftime buf buf_len (hms_text tm_buf);
     (buf, _) \<leftarrow> snprintf buf pos (buf_len - pos) (''.'' @ zero_pad_int 3 ms);
     Some buf }"

definition format_network_addrs :: "ns_packet_t \<Rightarrow> cbuf \<Rightarrow> size_t \<Rightarrow> cbuf \<Rightarrow> size_t \<Rightarrow> (cbuf \<times> cbuf) option" where
  "format_network_addrs pkt src src_len dst dst_len =
     (if pkt_network_proto pkt = NS_PROTO_IPV4 then do {
        i \<leftarrow> net_ipv4 (pkt_net pkt);
        src \<leftarrow> ns_format_ipv4 (ip4_source i) src src_len;
        dst \<leftarrow> ns_format_ipv4 (ip4_destination i) dst dst_len;
        Some (src, dst) }
      else if pkt_network_proto pkt = NS_PROTO_IPV6 then do {
        i \<leftarrow> net_ipv6 (pkt_net pkt);
        src \<leftarrow> ns_format_ipv6 (ip6_source i) src src_len;
        dst \<leftarrow> ns_format_ipv6 (ip6_destination i) dst dst_len;
        Some (src, dst) }
      else do {
        (src, _) \<leftarrow> snprintf src 0 src_len ''?'';
        (dst, _) \<leftarrow> snprintf dst 0 dst_len ''?'';
        Some (src, dst) })"

definition print_arp_line :: "ns_packet_t \<Rightarrow> string \<Rightarrow> string \<Rightarrow> string option" where
  "print_arp_line pkt color reset = do {
     i \<leftarrow> net_arp (pkt_net pkt);
     sender \<leftarrow> ns_format_ipv4 (arp_sender_ip i) (stack_buf 16) 16;
     target \<leftarrow> ns_format_ipv4 (arp_target_ip i) (stack_buf 16) 16;
     sender_mac \<leftarrow> ns_format_mac (arp_sender_mac i) (stack_buf 18) 18;
     sender \<leftarrow> c_str sender;
     target \<leftarrow> c_str target;
     sender_mac \<leftarrow> c_str sender_mac;
     Some (color @ ''ARP'' @ reset @ ''   '' @ sender @
       (if arp_operation i = NS_ARP_OP_REQUEST then '' -> '' @ target @ ''   Who has '' @ target @ ''?''
        else if arp_operation i = NS_ARP_OP_REPLY then '' is at '' @ sender_mac
        else '' -> '' @ target @ ''   operation='' @ dec (unat (arp_operation i))) @ NL) }"

text \<open>The switch on the transport: the protocol's name, the two endpoints and the extra text.\<close>

definition text_endpoint :: "cbuf \<Rightarrow> string \<Rightarrow> cbuf option" where
  "text_endpoint addr port = do {
     addr \<leftarrow> c_str addr;
     (ep, _) \<leftarrow> snprintf (stack_buf 64) 0 64 (addr @ port);
     Some ep }"

definition text_transport :: "ns_packet_t \<Rightarrow> cbuf \<Rightarrow> cbuf \<Rightarrow> (string \<times> cbuf \<times> cbuf \<times> cbuf) option" where
  "text_transport pkt src dst = (
     let extra = replicate 128 NUL in
     case pkt_transport_proto pkt of
       NS_PROTO_TCP \<Rightarrow> do {
         i \<leftarrow> tr_tcp (pkt_transport pkt);
         src_ep \<leftarrow> text_endpoint src ('':'' @ dec (unat (tcp_source_port i)));
         dst_ep \<leftarrow> text_endpoint dst ('':'' @ dec (unat (tcp_destination_port i)));
         flags \<leftarrow> ns_tcp_flags_to_string (tcp_flags i) (stack_buf 32) 32;
         flags \<leftarrow> c_str flags;
         (extra, _) \<leftarrow> snprintf extra 0 128 (''['' @ flags @ '']'');
         Some (''TCP'', src_ep, dst_ep, extra) }
     | NS_PROTO_UDP \<Rightarrow> do {
         i \<leftarrow> tr_udp (pkt_transport pkt);
         src_ep \<leftarrow> text_endpoint src ('':'' @ dec (unat (udp_source_port i)));
         dst_ep \<leftarrow> text_endpoint dst ('':'' @ dec (unat (udp_destination_port i)));
         extra \<leftarrow> (if pkt_has_dns pkt then do { (extra, _) \<leftarrow> snprintf extra 0 128 ''DNS''; Some extra }
                   else Some extra);
         Some (''UDP'', src_ep, dst_ep, extra) }
     | NS_PROTO_ICMP \<Rightarrow> do {
         i \<leftarrow> tr_icmp (pkt_transport pkt);
         src_ep \<leftarrow> text_endpoint src [];
         dst_ep \<leftarrow> text_endpoint dst [];
         (extra, _) \<leftarrow> (if icmp_type i = NS_ICMP_TYPE_ECHO_REQUEST \<or> icmp_type i = NS_ICMP_TYPE_ECHO_REPLY
           then snprintf extra 0 128 (ns_icmp_type_name (icmp_type i) @ '' id='' @ dec (unat (icmp_identifier i)) @
                  '' seq='' @ dec (unat (icmp_sequence i)))
           else snprintf extra 0 128 (ns_icmp_type_name (icmp_type i)));
         Some (''ICMP'', src_ep, dst_ep, extra) }
     | NS_PROTO_ICMPV6 \<Rightarrow> do {
         i \<leftarrow> tr_icmpv6 (pkt_transport pkt);
         src_ep \<leftarrow> text_endpoint src [];
         dst_ep \<leftarrow> text_endpoint dst [];
         (extra, _) \<leftarrow> snprintf extra 0 128 (ns_icmpv6_type_name (icmp6_type i));
         Some (''ICMPv6'', src_ep, dst_ep, extra) }
     | _ \<Rightarrow> do {
         src_ep \<leftarrow> text_endpoint src [];
         dst_ep \<leftarrow> text_endpoint dst [];
         Some (ns_proto_name (pkt_network_proto pkt), src_ep, dst_ep, extra) })"

definition print_dns_line :: "ns_packet_t \<Rightarrow> string option" where
  "print_dns_line pkt =
     (if dns_is_response (pkt_dns pkt) \<and> dns_decoded_answer_count (pkt_dns pkt) > 0 then do {
        a \<leftarrow> mem_get (dns_answers (pkt_dns pkt)) 0;
        name \<leftarrow> c_str (rr_name a);
        (type_name, _) \<leftarrow> ns_dns_type_name (rr_type a) (stack_buf 16) 16;
        rdata \<leftarrow> c_str (rr_rdata_text a);
        Some (''    Response: '' @ name @ '' '' @ type_name @ '' '' @ rdata @ NL) }
      else if \<not> dns_is_response (pkt_dns pkt) \<and> dns_decoded_question_count (pkt_dns pkt) > 0 then do {
        q \<leftarrow> mem_get (dns_questions (pkt_dns pkt)) 0;
        name \<leftarrow> c_str (q_name q);
        (type_name, _) \<leftarrow> ns_dns_type_name (q_type q) (stack_buf 16) 16;
        Some (''    Query: '' @ name @ '' '' @ type_name @ NL) }
      else Some [])"

definition print_text_line :: "(int \<Rightarrow> int) \<Rightarrow> ns_packet_t \<Rightarrow> ns_output_options_t \<Rightarrow> string option" where
  "print_text_line zone pkt opts = do {
     let color = (if opt_color opts then protocol_color (top_protocol pkt) else []);
     let reset = (if opt_color opts then NS_COLOR_RESET else []);
     if pkt_malformed pkt then do {
       let err_color = (if opt_color opts then NS_COLOR_ERROR else []);
       ts \<leftarrow> format_timestamp zone (pkt_timestamp pkt) (stack_buf 16) 16;
       ts \<leftarrow> c_str ts;
       Some (''['' @ ts @ ''] '' @ err_color @ ''MALFORMED'' @ reset @ '' '' @
         (case pkt_malformed_reason pkt of Some r \<Rightarrow> r | None \<Rightarrow> ''unknown reason'') @
         '' ('' @ dec (unat (pkt_captured_length pkt)) @ '' bytes captured)'' @ NL) }
     else if pkt_network_proto pkt = NS_PROTO_ARP then do {
       ts \<leftarrow> format_timestamp zone (pkt_timestamp pkt) (stack_buf 16) 16;
       ts \<leftarrow> c_str ts;
       line \<leftarrow> print_arp_line pkt color reset;
       Some (''['' @ ts @ ''] '' @ line) }
     else do {
       ts \<leftarrow> format_timestamp zone (pkt_timestamp pkt) (stack_buf 16) 16;
       (src, dst) \<leftarrow> format_network_addrs pkt (stack_buf 46) 46 (stack_buf 46) 46;
       (proto_name, src_ep, dst_ep, extra) \<leftarrow> text_transport pkt src dst;
       ts \<leftarrow> c_str ts;
       src_ep \<leftarrow> c_str src_ep;
       dst_ep \<leftarrow> c_str dst_ep;
       extra \<leftarrow> c_str extra;
       dns \<leftarrow> (if pkt_has_dns pkt then print_dns_line pkt else Some []);
       Some (''['' @ ts @ ''] '' @ color @ pad_right 6 proto_name @ reset @ '' '' @ src_ep @ '' -> '' @ dst_ep @
         ''   '' @ extra @ '' '' @ dec (unat (pkt_captured_length pkt)) @ '' B'' @ NL @ dns) } }"

definition verbose_eth :: "ns_packet_t \<Rightarrow> string option" where
  "verbose_eth pkt =
     (if pkt_has_eth pkt then do {
        dst_mac \<leftarrow> ns_format_mac (eth_destination (pkt_eth pkt)) (stack_buf 18) 18;
        src_mac \<leftarrow> ns_format_mac (eth_source (pkt_eth pkt)) (stack_buf 18) 18;
        src_mac \<leftarrow> c_str src_mac;
        dst_mac \<leftarrow> c_str dst_mac;
        Some (''Ethernet'' @ NL @ ''  Source:      '' @ src_mac @ NL @ ''  Destination: '' @ dst_mac @ NL @
          ''  Type:        0x'' @ zero_pad 4 (hex (unat (eth_ethertype (pkt_eth pkt)))) @ NL @
          (if eth_has_vlan (pkt_eth pkt)
           then ''  VLAN:        '' @ dec (unat (eth_vlan_id (pkt_eth pkt))) @ NL else []) @ NL) }
      else Some [])"

definition verbose_net :: "ns_packet_t \<Rightarrow> string option" where
  "verbose_net pkt =
     (if pkt_network_proto pkt = NS_PROTO_IPV4 then do {
        i \<leftarrow> net_ipv4 (pkt_net pkt);
        src \<leftarrow> ns_format_ipv4 (ip4_source i) (stack_buf 16) 16;
        dst \<leftarrow> ns_format_ipv4 (ip4_destination i) (stack_buf 16) 16;
        src \<leftarrow> c_str src;
        dst \<leftarrow> c_str dst;
        Some (''IPv4'' @ NL @ ''  Source:      '' @ src @ NL @ ''  Destination: '' @ dst @ NL @
          ''  TTL:         '' @ dec (unat (ip4_ttl i)) @ NL @ ''  Protocol:    '' @ dec (unat (ip4_protocol i)) @ NL @ NL) }
      else if pkt_network_proto pkt = NS_PROTO_IPV6 then do {
        i \<leftarrow> net_ipv6 (pkt_net pkt);
        src \<leftarrow> ns_format_ipv6 (ip6_source i) (stack_buf 46) 46;
        dst \<leftarrow> ns_format_ipv6 (ip6_destination i) (stack_buf 46) 46;
        src \<leftarrow> c_str src;
        dst \<leftarrow> c_str dst;
        Some (''IPv6'' @ NL @ ''  Source:      '' @ src @ NL @ ''  Destination: '' @ dst @ NL @
          ''  Hop limit:   '' @ dec (unat (ip6_hop_limit i)) @ NL @
          ''  Next header: '' @ dec (unat (ip6_next_header i)) @ NL @ NL) }
      else Some [])"

definition verbose_transport :: "ns_packet_t \<Rightarrow> string option" where
  "verbose_transport pkt =
     (if pkt_transport_proto pkt = NS_PROTO_TCP then do {
        i \<leftarrow> tr_tcp (pkt_transport pkt);
        flags \<leftarrow> ns_tcp_flags_to_string (tcp_flags i) (stack_buf 32) 32;
        flags \<leftarrow> c_str flags;
        Some (''TCP'' @ NL @ ''  Source port:      '' @ dec (unat (tcp_source_port i)) @ NL @
          ''  Destination port: '' @ dec (unat (tcp_destination_port i)) @ NL @
          ''  Sequence:         '' @ dec (unat (tcp_sequence_number i)) @ NL @
          ''  Ack:              '' @ dec (unat (tcp_ack_number i)) @ NL @
          ''  Flags:            '' @ flags @ NL @
          ''  Window:           '' @ dec (unat (tcp_window_size i)) @ NL @ NL) }
      else if pkt_transport_proto pkt = NS_PROTO_UDP then do {
        i \<leftarrow> tr_udp (pkt_transport pkt);
        Some (''UDP'' @ NL @ ''  Source port:      '' @ dec (unat (udp_source_port i)) @ NL @
          ''  Destination port: '' @ dec (unat (udp_destination_port i)) @ NL @
          ''  Length:           '' @ dec (unat (udp_length i)) @ NL @ NL) }
      else Some [])"

definition print_verbose_block :: "(int \<Rightarrow> int) \<Rightarrow> ns_packet_t \<Rightarrow> string option" where
  "print_verbose_block zone pkt = do {
     ts \<leftarrow> format_timestamp zone (pkt_timestamp pkt) (stack_buf 16) 16;
     ts \<leftarrow> c_str ts;
     eth \<leftarrow> verbose_eth pkt;
     net \<leftarrow> verbose_net pkt;
     transport \<leftarrow> verbose_transport pkt;
     Some (NL @ ''Packet #'' @ dec (unat (pkt_number pkt)) @ NL @
       ''Timestamp: '' @ ts @ ''.'' @ zero_pad_int 6 (sint (ts_microseconds (pkt_timestamp pkt)) smod 1000000) @ NL @
       ''Captured length: '' @ dec (unat (pkt_captured_length pkt)) @ '' bytes'' @ NL @ NL @
       eth @ net @ transport @ ''Payload: '' @ dec (unat (pkt_payload_length pkt)) @ '' bytes'' @ NL) }"

subsection \<open>Texts without buffers\<close>

definition stamp_text :: "tm \<Rightarrow> ns_timestamp_t \<Rightarrow> string" where
  "stamp_text tm ts = take 15 (hms_text tm @ ''.'' @ zero_pad_int 3 (sint (ts_microseconds ts) sdiv 1000))"

definition addr_texts :: "ns_packet_t \<Rightarrow> string \<times> string" where
  "addr_texts p = (case address_pair p of Some ab \<Rightarrow> ab | None \<Rightarrow> (''?'', ''?''))"

definition flags_text :: "u8 \<Rightarrow> string" where
  "flags_text flags = (if flags = 0 then ''-'' else join '','' (flag_list flags))"

definition type_text :: "u16 \<Rightarrow> string" where
  "type_text t = (case map_of [(NS_DNS_TYPE_A, ''A''), (NS_DNS_TYPE_NS, ''NS''), (NS_DNS_TYPE_CNAME, ''CNAME''),
       (NS_DNS_TYPE_PTR, ''PTR''), (NS_DNS_TYPE_MX, ''MX''), (NS_DNS_TYPE_TXT, ''TXT''), (NS_DNS_TYPE_AAAA, ''AAAA'')] t of
     Some s \<Rightarrow> s | None \<Rightarrow> ''TYPE'' @ dec (unat t))"

text \<open>Protocol, source and destination suffix, extra.\<close>

definition transport_texts :: "ns_packet_t \<Rightarrow> string \<times> string \<times> string \<times> string" where
  "transport_texts p = (case (pkt_transport_proto p, pkt_transport p) of
     (NS_PROTO_TCP, Tr_tcp i) \<Rightarrow> (''TCP'', '':'' @ dec (unat (tcp_source_port i)), '':'' @ dec (unat (tcp_destination_port i)),
       ''['' @ flags_text (tcp_flags i) @ '']'')
   | (NS_PROTO_UDP, Tr_udp i) \<Rightarrow> (''UDP'', '':'' @ dec (unat (udp_source_port i)), '':'' @ dec (unat (udp_destination_port i)),
       if pkt_has_dns p then ''DNS'' else [])
   | (NS_PROTO_ICMP, Tr_icmp i) \<Rightarrow> (''ICMP'', [], [], ns_icmp_type_name (icmp_type i) @
       (if icmp_type i = NS_ICMP_TYPE_ECHO_REQUEST \<or> icmp_type i = NS_ICMP_TYPE_ECHO_REPLY
        then '' id='' @ dec (unat (icmp_identifier i)) @ '' seq='' @ dec (unat (icmp_sequence i)) else []))
   | (NS_PROTO_ICMPV6, Tr_icmpv6 i) \<Rightarrow> (''ICMPv6'', [], [], ns_icmpv6_type_name (icmp6_type i))
   | _ \<Rightarrow> (ns_proto_name (pkt_network_proto p), [], [], []))"

text \<open>What the DNS line shows of a message: the first answer of a response, the first question of a
  query, otherwise nothing.\<close>

definition dns_line :: "bytes \<Rightarrow> question list \<Rightarrow> rr list \<Rightarrow> string \<Rightarrow> bool" where
  "dns_line m qs rs line \<longleftrightarrow>
     (if be16 m 2 AND 0x8000 \<noteq> 0 \<and> rs \<noteq> [] then
        case hd rs of (ls, ty, cl, ttl, rdl, ro) \<Rightarrow> \<exists>t. rdata_shows m ty ro rdl t \<and>
          line = ''    Response: '' @ cut_nul (dns_text ls) @ '' '' @ type_text ty @ '' '' @ t @ NL
      else if be16 m 2 AND 0x8000 = 0 \<and> qs \<noteq> [] then
        case hd qs of (ls, ty, cl) \<Rightarrow> line = ''    Query: '' @ cut_nul (dns_text ls) @ '' '' @ type_text ty @ NL
      else line = [])"

definition text_line :: "ns_output_options_t \<Rightarrow> tm \<Rightarrow> ns_packet_t \<Rightarrow> string" where
  "text_line opts tm p =
     (let paint = (\<lambda>c s. if opt_color opts then c @ s @ NS_COLOR_RESET else s);
          color = protocol_color (top_protocol p); size = dec (unat (pkt_captured_length p)) in
      ''['' @ stamp_text tm (pkt_timestamp p) @ ''] '' @
      (case pkt_malformed_reason p of
         Some reason \<Rightarrow> paint NS_COLOR_ERROR ''MALFORMED'' @ '' '' @ reason @ '' ('' @ size @ '' bytes captured)''
       | None \<Rightarrow>
         (case (pkt_network_proto p, pkt_net p) of
            (NS_PROTO_ARP, Net_arp i) \<Rightarrow>
              paint color ''ARP'' @ ''   '' @ ipv4_text (arp_sender_ip i) @
              (if arp_operation i = 1
               then '' -> '' @ ipv4_text (arp_target_ip i) @ ''   Who has '' @ ipv4_text (arp_target_ip i) @ ''?''
               else if arp_operation i = 2 then '' is at '' @ mac_text (arp_sender_mac i)
               else '' -> '' @ ipv4_text (arp_target_ip i) @ ''   operation='' @ dec (unat (arp_operation i)))
          | _ \<Rightarrow>
              (case (addr_texts p, transport_texts p) of ((src, dst), (name, sport, dport, extra)) \<Rightarrow>
                 paint color (pad_right 6 name) @ '' '' @ src @ sport @ '' -> '' @ dst @ dport @ ''   '' @ extra @
                 '' '' @ size @ '' B''))) @ NL)"

subsection \<open>The buffers hold the texts\<close>

lemma stack_bufs: "length (stack_buf m) = m"
  by (simp add: stack_buf_def)

lemma format_timestamp_text:
  assumes "localtime_r zone (sint (ts_seconds ts)) = Some tm"
  shows "\<exists>q. format_timestamp zone ts (stack_buf 16) 16 = Some q \<and> c_str q = Some (stamp_text tm ts)"
proof -
  have "valid_tm tm" using assms gmtime_r_date by (auto simp: localtime_r_def)
  then have "length (hms_text tm) < length (stack_buf 16)" by (simp add: length_hms stack_bufs)
  then obtain p1 pos q r where "strftime (stack_buf 16) 16 (hms_text tm) = Some (p1, pos)"
    "snprintf p1 pos (16 - pos) (''.'' @ zero_pad_int 3 (sint (ts_microseconds ts) sdiv 1000)) = Some (q, r)"
    "c_str q = Some (stamp_text tm ts)"
    using stamp_shown [of 16 "stack_buf 16" "hms_text tm" "''.'' @ zero_pad_int 3 (sint (ts_microseconds ts) sdiv 1000)"]
    by (auto simp: stack_bufs stamp_text_def)
  then show ?thesis using assms by (simp add: format_timestamp_def)
qed

text \<open>A timestamp whose microseconds are below one second is shown whole.\<close>

lemma stamp_text_whole:
  assumes "valid_tm tm" "0 \<le> sint (ts_microseconds ts)" "sint (ts_microseconds ts) < 1000000"
  shows "stamp_text tm ts = hms_text tm @ ''.'' @ zero_pad_int 3 (sint (ts_microseconds ts) div 1000)"
proof -
  define ms where "ms = sint (ts_microseconds ts) div 1000"
  have ms: "0 \<le> ms" "ms < 1000" "sint (ts_microseconds ts) sdiv 1000 = ms"
    using assms(2,3) by (simp_all add: ms_def signed_divide_int_def sgn_if)
  then have "length (dec (nat ms)) \<le> 3" using length_show_base [of 10 "nat ms" 2] by (simp add: nat_less_iff)
  then have "length (zero_pad_int 3 ms) = 3" using ms(1) by (simp add: zero_pad_int_def zero_pad_def)
  then show ?thesis using length_hms [OF assms(1)] unfolding stamp_text_def ms(3) ms_def [symmetric] by simp
qed

lemma shown_mac: "length m = 6 \<Longrightarrow> \<exists>q. ns_format_mac m (stack_buf 18) 18 = Some q \<and> c_str q = Some (mac_text m)"
  using ns_format_mac_text [of 18 "stack_buf 18" m] by (auto simp: stack_buf_def)

lemma shown_ipv4_16: "\<exists>q. ns_format_ipv4 a (stack_buf 16) 16 = Some q \<and> c_str q = Some (ipv4_text a)"
  using ns_format_ipv4_text [of 16 "stack_buf 16" a] by (auto simp: stack_buf_def)

lemma shown_flags:
  "\<exists>q. ns_tcp_flags_to_string flags (stack_buf 32) 32 = Some q \<and> length q = 32 \<and> c_str q = Some (flags_text flags)"
  by (rule ns_tcp_flags_to_string_text [of "stack_buf 32" 32 flags]) (simp_all add: stack_bufs flags_text_def flag_names_kFlags)

lemma snprintf_uncut:
  assumes "unat n = length p" "nul_free s" "length s < length p"
  shows "\<exists>q r. snprintf p 0 n s = Some (q, r) \<and> c_str q = Some s"
proof -
  have "0 < length p" "take (length p - 1) s = s" using assms(3) by auto
  with snprintf_whole [OF assms(2,1)] show ?thesis by metis
qed

lemma shown_type: "\<exists>q. ns_dns_type_name t (stack_buf 16) 16 = Some (type_text t, q)"
proof -
  have "length (dec (unat t)) \<le> 5" using length_show_base [of 10 _ 4] unat_lt_65536 [of t] by simp
  then obtain q r where "snprintf (stack_buf 16) 0 16 (''TYPE'' @ dec (unat t)) = Some (q, r)"
    "c_str q = Some (''TYPE'' @ dec (unat t))"
    using snprintf_uncut [of 16 "stack_buf 16" "''TYPE'' @ dec (unat t)"]
      show_base_nul_free [of 10 "unat t"] by (simp add: stack_bufs) blast
  then show ?thesis by (simp add: ns_dns_type_name_def type_text_def)
qed

lemma format_network_addrs_text:
  assumes "network_inv p" "pkt_network_proto p \<noteq> NS_PROTO_ARP"
  shows "\<exists>a b. format_network_addrs p (stack_buf 46) 46 (stack_buf 46) 46 = Some (a, b) \<and>
    shows_addr a (fst (addr_texts p)) \<and> shows_addr b (snd (addr_texts p))"
proof -
  consider i where "pkt_network_proto p = NS_PROTO_IPV4" "pkt_net p = Net_ipv4 i"
    | i where "pkt_network_proto p = NS_PROTO_IPV6" "pkt_net p = Net_ipv6 i" "ip6_sized i"
    | "pkt_network_proto p = NS_PROTO_UNKNOWN"
    using assms by (cases "pkt_network_proto p") (auto simp: network_inv_def)
  then show ?thesis
  proof cases
    case (1 i)
    with shown_ipv4 [of "ip4_source i"] shown_ipv4 [of "ip4_destination i"] show ?thesis
      by (auto simp: format_network_addrs_def addr_texts_def address_pair_def net_ipv4_def)
  next
    case (2 i)
    with shown_ipv6 [of "ip6_source i"] shown_ipv6 [of "ip6_destination i"] show ?thesis
      by (auto simp: format_network_addrs_def addr_texts_def address_pair_def net_ipv6_def ip6_sized_def)
  next
    case 3
    have "\<exists>q r. snprintf (stack_buf 46) 0 46 ''?'' = Some (q, r) \<and> c_str q = Some ''?''"
      by (rule snprintf_uncut) (simp_all add: stack_bufs)
    with 3 show ?thesis
      by (auto simp: format_network_addrs_def addr_texts_def address_pair_def shows_addr_def)
  qed
qed

lemma text_endpoint_text:
  assumes "shows_addr a s" "nul_free t" "length t \<le> 6"
  shows "\<exists>q. text_endpoint a t = Some q \<and> c_str q = Some (s @ t)"
proof -
  have s: "c_str a = Some s" "length s < 46" using assms(1) by (simp_all add: shows_addr_def)
  then have "\<exists>q r. snprintf (stack_buf 64) 0 64 (s @ t) = Some (q, r) \<and> c_str q = Some (s @ t)"
    using assms(2,3) c_str_nul_free [OF s(1)] by (intro snprintf_uncut) (simp_all add: stack_bufs)
  with s show ?thesis by (auto simp: text_endpoint_def)
qed

lemma port_text: "nul_free ('':'' @ dec (unat (w :: u16)))" "length ('':'' @ dec (unat (w :: u16))) \<le> 6"
  using length_show_base [of 10 "unat w" 4] unat_lt_65536 [of w] by simp_all

lemma icmp_names: "nul_free (ns_icmp_type_name t)" "length (ns_icmp_type_name t) \<le> 40"
  "nul_free (ns_icmpv6_type_name t)" "length (ns_icmpv6_type_name t) \<le> 40"
  by (simp_all add: ns_icmp_type_name_def ns_icmpv6_type_name_def)

lemma length_flags_text: "nul_free (flags_text flags)" "length (flags_text flags) < 32"
  using shown_flags [of flags] by (auto dest: c_str_nul_free c_str_length)

lemma extra_shown:
  assumes "nul_free s" "length s < 128"
  shows "\<exists>q r. snprintf (replicate 128 NUL) 0 128 s = Some (q, r) \<and> c_str q = Some s"
  using assms by (intro snprintf_uncut) simp_all

lemma echo_extra_length:
  "length (ns_icmp_type_name t @ '' id='' @ dec (unat (a :: u16)) @ '' seq='' @ dec (unat (b :: u16))) < 128"
  using icmp_names(2) [of t] length_show_base [of 10 "unat a" 4] length_show_base [of 10 "unat b" 4]
    unat_lt_65536 [of a] unat_lt_65536 [of b] by simp

lemma text_transport_text:
  assumes "transport_inv p" "shows_addr a s" "shows_addr b t" "transport_texts p = (name, sport, dport, extra)"
  shows "\<exists>qa qb qe. text_transport p a b = Some (name, qa, qb, qe) \<and> c_str qa = Some (s @ sport) \<and>
    c_str qb = Some (t @ dport) \<and> c_str qe = Some extra"
proof -
  have ep: "\<exists>q. text_endpoint a ('':'' @ dec (unat w)) = Some q \<and> c_str q = Some (s @ '':'' @ dec (unat w))"
    "\<exists>q. text_endpoint b ('':'' @ dec (unat w)) = Some q \<and> c_str q = Some (t @ '':'' @ dec (unat w))" for w :: u16
    using text_endpoint_text [OF assms(2) port_text] text_endpoint_text [OF assms(3) port_text] by blast+
  have e0: "\<exists>q. text_endpoint a [] = Some q \<and> c_str q = Some s" "\<exists>q. text_endpoint b [] = Some q \<and> c_str q = Some t"
    using text_endpoint_text [OF assms(2), of "[]"] text_endpoint_text [OF assms(3), of "[]"] by simp_all
  have z: "c_str (replicate 128 NUL) = Some []" by (simp add: c_str_def)
  consider i where "pkt_transport_proto p = NS_PROTO_TCP" "pkt_transport p = Tr_tcp i"
    | i where "pkt_transport_proto p = NS_PROTO_UDP" "pkt_transport p = Tr_udp i"
    | i where "pkt_transport_proto p = NS_PROTO_ICMP" "pkt_transport p = Tr_icmp i"
    | i where "pkt_transport_proto p = NS_PROTO_ICMPV6" "pkt_transport p = Tr_icmpv6 i"
    | "pkt_transport_proto p = NS_PROTO_UNKNOWN"
    using assms(1) by (cases "pkt_transport_proto p") (auto simp: transport_inv_def)
  then show ?thesis
  proof cases
    case (1 i)
    have "\<exists>q r. snprintf (replicate 128 NUL) 0 128 (''['' @ flags_text (tcp_flags i) @ '']'') = Some (q, r) \<and>
        c_str q = Some (''['' @ flags_text (tcp_flags i) @ '']'')"
      using length_flags_text [of "tcp_flags i"] by (intro extra_shown) simp_all
    with 1 assms(4) ep(1) [of "tcp_source_port i"] ep(2) [of "tcp_destination_port i"] shown_flags [of "tcp_flags i"]
    show ?thesis by (auto simp: text_transport_def transport_texts_def tr_tcp_def)
  next
    case (2 i)
    have "\<exists>q r. snprintf (replicate 128 NUL) 0 128 ''DNS'' = Some (q, r) \<and> c_str q = Some ''DNS''"
      by (intro extra_shown) simp_all
    with 2 assms(4) ep(1) [of "udp_source_port i"] ep(2) [of "udp_destination_port i"] z
    show ?thesis by (auto simp: text_transport_def transport_texts_def tr_udp_def split: if_splits)
  next
    case (3 i)
    let ?echo = "ns_icmp_type_name (icmp_type i) @ '' id='' @ dec (unat (icmp_identifier i)) @ '' seq='' @
      dec (unat (icmp_sequence i))"
    have "\<exists>q r. snprintf (replicate 128 NUL) 0 128 (ns_icmp_type_name (icmp_type i)) = Some (q, r) \<and>
        c_str q = Some (ns_icmp_type_name (icmp_type i))"
      using icmp_names(1,2) [of "icmp_type i"] by (intro extra_shown) simp_all
    moreover have "\<exists>q r. snprintf (replicate 128 NUL) 0 128 ?echo = Some (q, r) \<and> c_str q = Some ?echo"
      using icmp_names(1) [of "icmp_type i"] echo_extra_length by (intro extra_shown) (simp_all del: length_append)
    ultimately show ?thesis
      using 3 assms(4) e0 by (auto simp: text_transport_def transport_texts_def tr_icmp_def split: if_splits)
  next
    case (4 i)
    have "\<exists>q r. snprintf (replicate 128 NUL) 0 128 (ns_icmpv6_type_name (icmp6_type i)) = Some (q, r) \<and>
        c_str q = Some (ns_icmpv6_type_name (icmp6_type i))"
      using icmp_names(3,4) [of "icmp6_type i"] by (intro extra_shown) simp_all
    with 4 assms(4) e0 show ?thesis by (auto simp: text_transport_def transport_texts_def tr_icmpv6_def)
  next
    case 5
    with assms(4) e0 z show ?thesis by (auto simp: text_transport_def transport_texts_def)
  qed
qed

lemma dns_line_shown:
  assumes "dns_message m qs rs" "message_shown m (pkt_dns p) qs rs" "dns_wf (pkt_dns p)"
  shows "\<exists>line. print_dns_line p = Some line \<and> dns_line m qs rs line"
proof -
  let ?d = "pkt_dns p"
  have d: "dns_is_response ?d = (be16 m 2 AND 0x8000 \<noteq> 0)"
    by (subst conjunct1 [OF assms(2) [unfolded message_shown_def]]) (simp add: dns_header_def)
  have n: "dns_decoded_answer_count ?d > 0 \<longleftrightarrow> rs \<noteq> []" "dns_decoded_question_count ?d > 0 \<longleftrightarrow> qs \<noteq> []"
    using assms(2) by (auto simp: message_shown_def word_gt_0 unat_eq_0 simp flip: unat_eq_zero)
  have get: "mem_get (dns_answers ?d) 0 = Some (dns_answers ?d ! 0)" "mem_get (dns_questions ?d) 0 = Some (dns_questions ?d ! 0)"
    using assms(3) by (auto simp: dns_wf_def mem_get_def)
  have name: "c_str b = Some (cut_nul (dns_text ls))" if "name_shown b ls" for b ls
    using that holds_cut [of b "dns_text ls"] by (simp add: name_shown_def)
  consider "be16 m 2 AND 0x8000 \<noteq> 0" "rs \<noteq> []" | "be16 m 2 AND 0x8000 = 0" "qs \<noteq> []"
    | "be16 m 2 AND 0x8000 \<noteq> 0" "rs = []" | "be16 m 2 AND 0x8000 = 0" "qs = []" by blast
  then show ?thesis
  proof cases
    case 1
    then have "record_shown m (dns_answers ?d ! 0) (hd rs)"
      using assms(2) by (auto simp: message_shown_def hd_conv_nth)
    with 1 d n get name shown_type [of "rr_type (dns_answers ?d ! 0)"] show ?thesis
      by (cases "hd rs") (auto simp: print_dns_line_def dns_line_def record_shown_def)
  next
    case 2
    then have "question_shown (dns_questions ?d ! 0) (hd qs)"
      using assms(2) by (auto simp: message_shown_def hd_conv_nth)
    with 2 d n get name shown_type [of "q_type (dns_questions ?d ! 0)"] show ?thesis
      by (cases "hd qs") (auto simp: print_dns_line_def dns_line_def question_shown_def)
  qed (use d n in \<open>auto simp: print_dns_line_def dns_line_def\<close>)
qed

lemma print_arp_line_text:
  assumes "pkt_net p = Net_arp i" "arp_sized i"
  shows "print_arp_line p color reset = Some (color @ ''ARP'' @ reset @ ''   '' @ ipv4_text (arp_sender_ip i) @
    (if arp_operation i = 1 then '' -> '' @ ipv4_text (arp_target_ip i) @ ''   Who has '' @ ipv4_text (arp_target_ip i) @ ''?''
     else if arp_operation i = 2 then '' is at '' @ mac_text (arp_sender_mac i)
     else '' -> '' @ ipv4_text (arp_target_ip i) @ ''   operation='' @ dec (unat (arp_operation i))) @ NL)"
proof -
  have "length (arp_sender_mac i) = 6" using assms(2) by (simp add: arp_sized_def)
  with shown_mac [OF this] shown_ipv4_16 [of "arp_sender_ip i"] shown_ipv4_16 [of "arp_target_ip i"] assms(1)
  show ?thesis by (auto simp: print_arp_line_def net_arp_def)
qed

text \<open>The line and what follows it for DNS.\<close>

lemma print_text_line_text:
  assumes "decoded p" "localtime_r zone (sint (ts_seconds (pkt_timestamp p))) = Some tm"
  shows "\<exists>dns. print_text_line zone p opts = Some (text_line opts tm p @ dns) \<and>
    (if pkt_has_dns p then \<exists>qs rs. dns_message (captured_payload p) qs rs \<and> dns_line (captured_payload p) qs rs dns
     else dns = [])"
proof -
  have inv: "transport_inv p" "network_inv p" using assms(1) by (auto simp: decoded_def packet_inv_def)
  obtain ts where ts: "format_timestamp zone (pkt_timestamp p) (stack_buf 16) 16 = Some ts"
    "c_str ts = Some (stamp_text tm (pkt_timestamp p))" using format_timestamp_text [OF assms(2)] by blast
  consider reason where "pkt_malformed p" "pkt_malformed_reason p = Some reason" "\<not> pkt_has_dns p"
    | i where "\<not> pkt_malformed p" "pkt_malformed_reason p = None" "pkt_network_proto p = NS_PROTO_ARP" "pkt_net p = Net_arp i" "arp_sized i" "\<not> pkt_has_dns p"
    | "\<not> pkt_malformed p" "pkt_malformed_reason p = None" "pkt_network_proto p \<noteq> NS_PROTO_ARP"
    using inv by (cases "pkt_network_proto p") (auto simp: transport_inv_def network_inv_def no_transport_def port_53_def split: transport_union.splits)
  then show ?thesis
  proof cases
    case (1 reason)
    with ts show ?thesis by (simp add: print_text_line_def text_line_def)
  next
    case (2 i)
    with ts print_arp_line_text [OF 2(4,5)] show ?thesis by (simp add: print_text_line_def text_line_def Let_def)
  next
    case 3
    obtain name sport dport extra where t: "transport_texts p = (name, sport, dport, extra)" by (metis prod_cases4)
    obtain a b where ab: "format_network_addrs p (stack_buf 46) 46 (stack_buf 46) 46 = Some (a, b)"
      "shows_addr a (fst (addr_texts p))" "shows_addr b (snd (addr_texts p))"
      using format_network_addrs_text [OF inv(2) 3(3)] by blast
    obtain qa qb qe where q: "text_transport p a b = Some (name, qa, qb, qe)" "c_str qa = Some (fst (addr_texts p) @ sport)"
      "c_str qb = Some (snd (addr_texts p) @ dport)" "c_str qe = Some extra"
      using text_transport_text [OF inv(1) ab(2,3) t] by blast
    have "\<exists>dns. (if pkt_has_dns p then print_dns_line p else Some []) = Some dns \<and>
      (if pkt_has_dns p then \<exists>qs rs. dns_message (captured_payload p) qs rs \<and> dns_line (captured_payload p) qs rs dns
       else dns = [])"
      using inv(1) dns_line_shown by (fastforce simp: transport_inv_def dns_decoded_def)
    then obtain dns where dns: "(if pkt_has_dns p then print_dns_line p else Some []) = Some dns"
      "if pkt_has_dns p then \<exists>qs rs. dns_message (captured_payload p) qs rs \<and> dns_line (captured_payload p) qs rs dns
       else dns = []" by blast
    have "print_text_line zone p opts = Some (text_line opts tm p @ dns)"
      using 3 ts ab(1) q dns(1) t
      by (simp add: print_text_line_def text_line_def Let_def split: ns_proto_t.splits net_union.splits prod.splits)
    with dns(2) show ?thesis by blast
  qed
qed

subsection \<open>The detailed block\<close>

text \<open>The time the code prints there is the time of the line, with its milliseconds, followed by the microseconds: the
  fraction of the second appears twice, as in 12:00:00.123.123456.\<close>

definition doubled_stamp :: "tm \<Rightarrow> ns_timestamp_t \<Rightarrow> string" where
  "doubled_stamp tm ts = stamp_text tm ts @ ''.'' @ zero_pad_int 6 (sint (ts_microseconds ts) smod 1000000)"

definition rows :: "(string \<times> string) list \<Rightarrow> string" where
  "rows kvs = concat (map (\<lambda>(k, v). ''  '' @ k @ v @ NL) kvs)"

definition eth_block :: "ns_packet_t \<Rightarrow> string" where
  "eth_block p =
     (if pkt_has_eth p
      then ''Ethernet'' @ NL @ rows ([(''Source:      '', mac_text (eth_source (pkt_eth p))),
             (''Destination: '', mac_text (eth_destination (pkt_eth p))),
             (''Type:        0x'', zero_pad 4 (hex (unat (eth_ethertype (pkt_eth p)))))] @
             (if eth_has_vlan (pkt_eth p) then [(''VLAN:        '', dec (unat (eth_vlan_id (pkt_eth p))))] else [])) @ NL
      else [])"

definition net_block :: "ns_packet_t \<Rightarrow> string" where
  "net_block p = (case (pkt_network_proto p, pkt_net p) of
     (NS_PROTO_IPV4, Net_ipv4 i) \<Rightarrow> ''IPv4'' @ NL @ rows [(''Source:      '', ipv4_text (ip4_source i)),
       (''Destination: '', ipv4_text (ip4_destination i)), (''TTL:         '', dec (unat (ip4_ttl i))),
       (''Protocol:    '', dec (unat (ip4_protocol i)))] @ NL
   | (NS_PROTO_IPV6, Net_ipv6 i) \<Rightarrow> ''IPv6'' @ NL @ rows [(''Source:      '', ipv6_text (groups_of (ip6_source i))),
       (''Destination: '', ipv6_text (groups_of (ip6_destination i))), (''Hop limit:   '', dec (unat (ip6_hop_limit i))),
       (''Next header: '', dec (unat (ip6_next_header i)))] @ NL
   | _ \<Rightarrow> [])"

definition transport_block :: "ns_packet_t \<Rightarrow> string" where
  "transport_block p = (case (pkt_transport_proto p, pkt_transport p) of
     (NS_PROTO_TCP, Tr_tcp i) \<Rightarrow> ''TCP'' @ NL @ rows [(''Source port:      '', dec (unat (tcp_source_port i))),
       (''Destination port: '', dec (unat (tcp_destination_port i))), (''Sequence:         '', dec (unat (tcp_sequence_number i))),
       (''Ack:              '', dec (unat (tcp_ack_number i))), (''Flags:            '', flags_text (tcp_flags i)),
       (''Window:           '', dec (unat (tcp_window_size i)))] @ NL
   | (NS_PROTO_UDP, Tr_udp i) \<Rightarrow> ''UDP'' @ NL @ rows [(''Source port:      '', dec (unat (udp_source_port i))),
       (''Destination port: '', dec (unat (udp_destination_port i))), (''Length:           '', dec (unat (udp_length i)))] @ NL
   | _ \<Rightarrow> [])"

text \<open>The block around a given text for the time.\<close>

definition verbose_text :: "string \<Rightarrow> ns_packet_t \<Rightarrow> string" where
  "verbose_text stamp p =
     NL @ ''Packet #'' @ dec (unat (pkt_number p)) @ NL @
     ''Timestamp: '' @ stamp @ NL @
     ''Captured length: '' @ dec (unat (pkt_captured_length p)) @ '' bytes'' @ NL @ NL @
     eth_block p @ net_block p @ transport_block p @
     ''Payload: '' @ dec (unat (pkt_payload_length p)) @ '' bytes'' @ NL"

lemma verbose_eth_text: "pkt_has_eth p \<longrightarrow> eth_sized (pkt_eth p) \<Longrightarrow> verbose_eth p = Some (eth_block p)"
proof (cases "pkt_has_eth p")
  case True
  moreover assume "pkt_has_eth p \<longrightarrow> eth_sized (pkt_eth p)"
  ultimately have "length (eth_source (pkt_eth p)) = 6" "length (eth_destination (pkt_eth p)) = 6"
    by (simp_all add: eth_sized_def)
  from shown_mac [OF this(1)] shown_mac [OF this(2)] True show ?thesis
    by (auto simp: verbose_eth_def eth_block_def rows_def)
qed (simp add: verbose_eth_def eth_block_def)

lemma verbose_net_text: "network_inv p \<Longrightarrow> verbose_net p = Some (net_block p)"
proof (cases "pkt_network_proto p")
  case NS_PROTO_IPV4
  moreover assume "network_inv p"
  ultimately obtain i where "pkt_net p = Net_ipv4 i" by (auto simp: network_inv_def)
  with NS_PROTO_IPV4 shown_ipv4_16 [of "ip4_source i"] shown_ipv4_16 [of "ip4_destination i"]
  show ?thesis by (auto simp: verbose_net_def net_block_def net_ipv4_def rows_def)
next
  case NS_PROTO_IPV6
  moreover assume "network_inv p"
  ultimately obtain i where "pkt_net p = Net_ipv6 i" "ip6_sized i" by (auto simp: network_inv_def)
  with NS_PROTO_IPV6 shown_ipv6 [of "ip6_source i"] shown_ipv6 [of "ip6_destination i"]
  show ?thesis by (auto simp: verbose_net_def net_block_def net_ipv6_def rows_def ip6_sized_def shows_addr_def)
qed (simp_all add: verbose_net_def net_block_def)

lemma verbose_transport_text: "transport_inv p \<Longrightarrow> verbose_transport p = Some (transport_block p)"
proof (cases "pkt_transport_proto p")
  case NS_PROTO_TCP
  moreover assume "transport_inv p"
  ultimately obtain i where "pkt_transport p = Tr_tcp i" by (auto simp: transport_inv_def)
  with NS_PROTO_TCP shown_flags [of "tcp_flags i"]
  show ?thesis by (auto simp: verbose_transport_def transport_block_def tr_tcp_def rows_def)
next
  case NS_PROTO_UDP
  moreover assume "transport_inv p"
  ultimately obtain i where "pkt_transport p = Tr_udp i" by (auto simp: transport_inv_def)
  with NS_PROTO_UDP show ?thesis by (simp add: verbose_transport_def transport_block_def tr_udp_def rows_def)
qed (simp_all add: verbose_transport_def transport_block_def)

lemma print_verbose_block_text:
  assumes "decoded p" "localtime_r zone (sint (ts_seconds (pkt_timestamp p))) = Some tm"
  shows "print_verbose_block zone p = Some (verbose_text (doubled_stamp tm (pkt_timestamp p)) p)"
proof -
  have inv: "transport_inv p" "network_inv p" and eth: "pkt_has_eth p \<longrightarrow> eth_sized (pkt_eth p)"
    using assms(1) by (auto simp: decoded_def packet_inv_def)
  obtain ts where "format_timestamp zone (pkt_timestamp p) (stack_buf 16) 16 = Some ts"
    "c_str ts = Some (stamp_text tm (pkt_timestamp p))" using format_timestamp_text [OF assms(2)] by blast
  then show ?thesis
    using verbose_eth_text [OF eth] verbose_net_text [OF inv(2)] verbose_transport_text [OF inv(1)]
    by (simp add: print_verbose_block_def verbose_text_def doubled_stamp_def)
qed

end
