(* ===== verification/NS_Json.thy ===== *)
theory NS_Json
  imports NS_CString
begin

section \<open>JSON values and their text\<close>

text \<open>
  A reference for the JSON output: values, the text of a value (with every byte outside printable
  ASCII escaped, and no white space), and a reader. The reader gives every text of a value back,
  whatever follows it; its fuel bounds the nesting and the number of elements, and the length of the
  text is always enough.
\<close>

datatype json = JString string | JNumber nat | JBool bool | JArray "json list" | JObject "(string \<times> json) list"

abbreviation DQ :: char where "DQ \<equiv> CHR 0x22"
abbreviation BSLASH :: char where "BSLASH \<equiv> CHR 0x5C"

text \<open>One character of a string.\<close>

definition json_char :: "char \<Rightarrow> string" where
  "json_char c =
     (if c = DQ then [BSLASH, DQ] else if c = BSLASH then [BSLASH, BSLASH]
      else if c = CHR 0x0A then BSLASH # ''n'' else if c = CHR 0x0D then BSLASH # ''r''
      else if c = CHR 0x09 then BSLASH # ''t''
      else if (of_char c :: nat) < 0x20 \<or> (of_char c :: nat) \<ge> 0x7F
      then BSLASH # ''u'' @ zero_pad 4 (hex (of_char c))
      else [c])"

definition json_string :: "string \<Rightarrow> string" where
  "json_string s = DQ # concat (map json_char s) @ [DQ]"

fun json_text :: "json \<Rightarrow> string" where
  "json_text (JString s) = json_string s"
| "json_text (JNumber n) = dec n"
| "json_text (JBool b) = (if b then ''true'' else ''false'')"
| "json_text (JArray vs) = ''['' @ join '','' (map json_text vs) @ '']''"
| "json_text (JObject ms) = ''{'' @ join '','' (map (\<lambda>(k, v). json_string k @ '':'' @ json_text v) ms) @ ''}''"

subsection \<open>A reader\<close>

fun read_string :: "string \<Rightarrow> (string \<times> string) option" where
  "read_string [] = None"
| "read_string (c # cs) =
     (if c = DQ then Some ([], cs)
      else if c = BSLASH then
        (case cs of [] \<Rightarrow> None
         | e # cs' \<Rightarrow>
           if e = CHR ''u'' then
             (if length cs' < 4 then None
              else do { (s, rest) \<leftarrow> read_string (drop 4 cs'); Some (char_of (read_base 16 (take 4 cs')) # s, rest) })
           else do {
             x \<leftarrow> map_of [(DQ, DQ), (BSLASH, BSLASH), (CHR ''n'', CHR 0x0A), (CHR ''r'', CHR 0x0D), (CHR ''t'', CHR 0x09)] e;
             (s, rest) \<leftarrow> read_string cs';
             Some (x # s, rest) })
      else do { (s, rest) \<leftarrow> read_string cs; Some (c # s, rest) })"

definition is_digit :: "char \<Rightarrow> bool" where
  "is_digit c \<longleftrightarrow> (of_char c :: nat) \<in> {48..57}"

fun read_json :: "nat \<Rightarrow> string \<Rightarrow> (json \<times> string) option"
  and read_items :: "nat \<Rightarrow> string \<Rightarrow> (json list \<times> string) option"
  and read_members :: "nat \<Rightarrow> string \<Rightarrow> ((string \<times> json) list \<times> string) option" where
  "read_json 0 cs = None"
| "read_json (Suc n) cs = (case cs of
     [] \<Rightarrow> None
   | c # r \<Rightarrow>
     if c = DQ then do { (s, r) \<leftarrow> read_string r; Some (JString s, r) }
     else if is_digit c then
       Some (JNumber (read_base 10 (takeWhile is_digit cs)), dropWhile is_digit cs)
     else if take 4 cs = ''true'' then Some (JBool True, drop 4 cs)
     else if take 5 cs = ''false'' then Some (JBool False, drop 5 cs)
     else if c = CHR ''['' then
       (if take 1 r = '']'' then Some (JArray [], drop 1 r)
        else do { (vs, r) \<leftarrow> read_items n r; Some (JArray vs, r) })
     else if c = CHR ''{'' then
       (if take 1 r = ''}'' then Some (JObject [], drop 1 r)
        else do { (ms, r) \<leftarrow> read_members n r; Some (JObject ms, r) })
     else None)"
| "read_items 0 cs = None"
| "read_items (Suc n) cs = do {
     (v, r) \<leftarrow> read_json n cs;
     if take 1 r = '','' then do { (vs, r) \<leftarrow> read_items n (drop 1 r); Some (v # vs, r) }
     else if take 1 r = '']'' then Some ([v], drop 1 r)
     else None }"
| "read_members 0 cs = None"
| "read_members (Suc n) cs = (case cs of
     [] \<Rightarrow> None
   | c # r \<Rightarrow>
     if c \<noteq> DQ then None
     else do {
       (k, r) \<leftarrow> read_string r;
       if take 1 r \<noteq> '':'' then None
       else do {
         (v, r) \<leftarrow> read_json n (drop 1 r);
         if take 1 r = '','' then do { (ms, r) \<leftarrow> read_members n (drop 1 r); Some ((k, v) # ms, r) }
         else if take 1 r = ''}'' then Some ([(k, v)], drop 1 r)
         else None } })"

subsection \<open>Reading back\<close>

lemma hex_byte_pad:
  assumes "n < 256"
  shows "length (zero_pad 4 (hex n)) = 4" "read_base 16 (zero_pad 4 (hex n)) = n"
proof -
  show "length (zero_pad 4 (hex n)) = 4"
    using length_show_base [of 16 n 1] assms by (simp add: zero_pad_def)
  have z: "read_base 16 (replicate k CHR ''0'' @ s) = read_base 16 s" for k s
    by (induction k) (simp_all add: read_base_def digit_val_def)
  show "read_base 16 (zero_pad 4 (hex n)) = n" unfolding zero_pad_def z by (rule read_show_base) simp_all
qed

lemma read_json_char: "read_string (json_char c @ cs) = do { (s, rest) \<leftarrow> read_string cs; Some (c # s, rest) }"
proof -
  let ?n = "of_char c :: nat"
  have n: "?n < 256" "char_of ?n = c" using of_char_mod_256 [where ?'a = nat, of c] by simp_all
  consider "c \<in> {DQ, BSLASH, CHR 0x0A, CHR 0x0D, CHR 0x09}" | "c \<notin> {DQ, BSLASH, CHR 0x0A, CHR 0x0D, CHR 0x09}" "?n < 0x20 \<or> ?n \<ge> 0x7F"
    | "c \<notin> {DQ, BSLASH, CHR 0x0A, CHR 0x0D, CHR 0x09}" "\<not> (?n < 0x20 \<or> ?n \<ge> 0x7F)" by blast
  then show ?thesis
  proof cases
    case 1
    then show ?thesis by (elim insertE emptyE) (simp_all add: json_char_def)
  next
    case 2
    then have "json_char c = BSLASH # ''u'' @ zero_pad 4 (hex ?n)" by (simp add: json_char_def)
    then show ?thesis using hex_byte_pad [OF n(1)] n(2) by simp
  next
    case 3
    then show ?thesis by (simp add: json_char_def)
  qed
qed

lemma read_json_string: "read_string (concat (map json_char s) @ DQ # rest) = Some (s, rest)"
  by (induction s) (simp_all add: read_json_char)

fun json_fuel :: "json \<Rightarrow> nat" where
  "json_fuel (JArray vs) = Suc (sum_list (map (\<lambda>v. Suc (json_fuel v)) vs))"
| "json_fuel (JObject ms) = Suc (sum_list (map (\<lambda>(k, v). Suc (json_fuel v)) ms))"
| "json_fuel _ = 1"

definition no_digit :: "string \<Rightarrow> bool" where
  "no_digit rest \<longleftrightarrow> (case rest of [] \<Rightarrow> True | c # _ \<Rightarrow> \<not> is_digit c)"

lemma dec_digits: "c \<in> set (dec n) \<Longrightarrow> is_digit c"
  using set_show_base [of 10 n] by (auto simp: is_digit_def of_digit_char)

lemma no_digit_rest:
  "no_digit rest \<Longrightarrow> takeWhile is_digit (dec n @ rest) = dec n"
  "no_digit rest \<Longrightarrow> dropWhile is_digit (dec n @ rest) = rest"
proof -
  assume "no_digit rest"
  then have "takeWhile is_digit rest = []" "dropWhile is_digit rest = rest"
    by (auto simp: no_digit_def split: list.splits)
  moreover have "\<forall>c \<in> set (dec n). is_digit c" using dec_digits by blast
  ultimately show "takeWhile is_digit (dec n @ rest) = dec n" "dropWhile is_digit (dec n @ rest) = rest"
    by (simp_all add: takeWhile_append dropWhile_append takeWhile_eq_all_conv [THEN iffD2])
qed

definition reads_back :: "json \<Rightarrow> bool" where
  "reads_back v \<longleftrightarrow> (\<forall>n rest. json_fuel v \<le> n \<longrightarrow> no_digit rest \<longrightarrow> read_json n (json_text v @ rest) = Some (v, rest))"

lemma json_text_head: "\<exists>c cs. json_text v = c # cs \<and> c \<noteq> CHR '']''"
proof (cases v)
  case (JNumber n)
  obtain c cs where c: "dec n = c # cs" by (cases "dec n") auto
  then have "is_digit c" using dec_digits [of c n] by simp
  then have "c \<noteq> CHR '']''" by (auto simp: is_digit_def)
  with c JNumber show ?thesis by simp
qed (auto simp: json_string_def)

lemma join_head: "vs \<noteq> [] \<Longrightarrow> take 1 (join '','' (map json_text vs) @ r) \<noteq> '']''"
  using json_text_head [of "hd vs"] by (cases vs) (auto simp: join_Cons)

lemma read_items_back:
  assumes "\<forall>v \<in> set vs. reads_back v" "vs \<noteq> []" "sum_list (map (\<lambda>v. Suc (json_fuel v)) vs) \<le> n"
  shows "read_items n (join '','' (map json_text vs) @ '']'' @ rest) = Some (vs, rest)"
  using assms
proof (induction vs arbitrary: n)
  case (Cons v vs)
  then obtain m where n: "n = Suc m" "json_fuel v \<le> m" "sum_list (map (\<lambda>v. Suc (json_fuel v)) vs) \<le> m"
    by (cases n) auto
  have rb: "read_json m (json_text v @ r) = Some (v, r)" if "no_digit r" for r
    using Cons.prems(1) n(2) that by (simp add: reads_back_def)
  show ?case
  proof (cases "vs = []")
    case True
    with n(1) rb [of "'']'' @ rest"] show ?thesis by (simp add: no_digit_def is_digit_def)
  next
    case False
    with Cons n(3) have "read_items m (join '','' (map json_text vs) @ '']'' @ rest) = Some (vs, rest)" by simp
    with n(1) False rb [of "'','' @ join '','' (map json_text vs) @ '']'' @ rest"] show ?thesis
      by (simp add: join_Cons no_digit_def is_digit_def)
  qed
qed simp

abbreviation member_text :: "string \<times> json \<Rightarrow> string" where
  "member_text \<equiv> \<lambda>(k, v). json_string k @ '':'' @ json_text v"

lemma read_members_back:
  assumes "\<forall>(k, v) \<in> set ms. reads_back v" "ms \<noteq> []" "sum_list (map (\<lambda>(k, v). Suc (json_fuel v)) ms) \<le> n"
  shows "read_members n (join '','' (map member_text ms) @ ''}'' @ rest) = Some (ms, rest)"
  using assms
proof (induction ms arbitrary: n)
  case (Cons kv ms)
  obtain k v where kv: "kv = (k, v)" by force
  with Cons.prems(3) obtain m where n: "n = Suc m" "json_fuel v \<le> m" "sum_list (map (\<lambda>(k, v). Suc (json_fuel v)) ms) \<le> m"
    by (cases n) auto
  have rb: "read_json m (json_text v @ r) = Some (v, r)" if "no_digit r" for r
    using Cons.prems(1) n(2) that kv by (simp add: reads_back_def)
  show ?case
  proof (cases "ms = []")
    case True
    with n(1) kv rb [of "''}'' @ rest"] show ?thesis
      by (simp add: no_digit_def is_digit_def json_string_def read_json_string)
  next
    case False
    with Cons n(3) have "read_members m (join '','' (map member_text ms) @ ''}'' @ rest) = Some (ms, rest)" by simp
    with n(1) kv False rb [of "'','' @ join '','' (map member_text ms) @ ''}'' @ rest"] show ?thesis
      by (simp add: join_Cons no_digit_def is_digit_def json_string_def read_json_string)
  qed
qed simp

lemma json_reads_back: "reads_back v"
proof (induction v rule: json_text.induct)
  case (1 s)
  have "read_json n (json_string s @ rest) = Some (JString s, rest)" if "1 \<le> n" for n rest
    using that by (cases n) (simp_all add: json_string_def read_json_string)
  then show ?case by (simp add: reads_back_def)
next
  case (2 k)
  obtain c cs where c: "dec k = c # cs" by (cases "dec k") auto
  have "is_digit c" using dec_digits [of c k] c by simp
  moreover from this have "c \<noteq> DQ" by (auto simp: is_digit_def)
  ultimately have "read_json n (dec k @ rest) = Some (JNumber k, rest)" if "1 \<le> n" "no_digit rest" for n rest
    using that no_digit_rest [OF that(2), of k] c read_show_base [of 10 k] by (cases n) simp_all
  then show ?case by (simp add: reads_back_def)
next
  case (3 b)
  have "read_json n (json_text (JBool b) @ rest) = Some (JBool b, rest)" if "1 \<le> n" for n rest
    using that by (cases n) (simp_all add: is_digit_def)
  then show ?case by (simp add: reads_back_def)
next
  case (4 vs)
  have "read_json n (json_text (JArray vs) @ rest) = Some (JArray vs, rest)" if "json_fuel (JArray vs) \<le> n" for n rest
  proof -
    from that obtain m where "n = Suc m" "sum_list (map (\<lambda>v. Suc (json_fuel v)) vs) \<le> m" by (cases n) auto
    with 4 read_items_back [of vs m rest] join_head [of vs "'']'' @ rest"] show ?thesis
      by (cases "vs = []") (auto simp: is_digit_def)
  qed
  then show ?case by (simp add: reads_back_def)
next
  case (5 ms)
  have "read_json n (json_text (JObject ms) @ rest) = Some (JObject ms, rest)" if "json_fuel (JObject ms) \<le> n" for n rest
  proof -
    from that obtain m where "n = Suc m" "sum_list (map (\<lambda>(k, v). Suc (json_fuel v)) ms) \<le> m" by (cases n) auto
    moreover have "take 1 (join '','' (map member_text ms) @ ''}'' @ rest) \<noteq> ''}''" if "ms \<noteq> []"
      using that by (cases ms) (auto simp: join_Cons json_string_def)
    moreover have "\<forall>(k, v) \<in> set ms. reads_back v" using 5 by auto
    ultimately show ?thesis using read_members_back [of ms m rest]
      by (cases "ms = []") (auto simp: is_digit_def)
  qed
  then show ?case by (simp add: reads_back_def)
qed

lemma length_join_ge: "ss \<noteq> [] \<Longrightarrow> sum_list (map (\<lambda>s. Suc (length s)) ss) \<le> Suc (length (join '','' ss))"
proof (induction ss)
  case (Cons s ss)
  then show ?case by (cases "ss = []") (simp_all add: join_Cons)
qed simp

lemma json_fuel_length: "json_fuel v \<le> length (json_text v)"
proof (induction v rule: json_text.induct)
  case (2 n)
  show ?case by (cases "dec n") auto
next
  case (4 vs)
  have "sum_list (map (\<lambda>v. Suc (json_fuel v)) vs) \<le> sum_list (map (\<lambda>v. Suc (length (json_text v))) vs)"
    using 4 by (intro sum_list_mono) simp
  also have "\<dots> = sum_list (map (\<lambda>s. Suc (length s)) (map json_text vs))" by (simp add: comp_def)
  finally show ?case using length_join_ge [of "map json_text vs"] by (cases "vs = []") auto
next
  case (5 ms)
  have "sum_list (map (\<lambda>(k, v). Suc (json_fuel v)) ms) \<le> sum_list (map (\<lambda>kv. Suc (length (member_text kv))) ms)"
    using 5 by (intro sum_list_mono) (auto simp: le_SucI trans_le_add2)
  also have "\<dots> = sum_list (map (\<lambda>s. Suc (length s)) (map member_text ms))" by (simp add: comp_def)
  finally show ?case using length_join_ge [of "map member_text ms"] by (cases "ms = []") auto
qed (auto simp: json_string_def)

lemma json_read_text:
  assumes "no_digit rest" "length (json_text v) \<le> n"
  shows "read_json n (json_text v @ rest) = Some (v, rest)"
  using json_reads_back [of v] json_fuel_length [of v] assms by (simp add: reads_back_def)

subsection \<open>Printable characters only\<close>

definition ascii_printable :: "char \<Rightarrow> bool" where
  "ascii_printable c \<longleftrightarrow> (of_char c :: nat) \<in> {0x20..0x7E}"

lemma join_all: "(\<forall>c \<in> set sep. P c) \<Longrightarrow> (\<forall>s \<in> set ss. \<forall>c \<in> set s. P c) \<Longrightarrow> \<forall>c \<in> set (join sep ss). P c"
  by (induction ss) (auto simp: join_Cons)

lemma show_base_printable: "2 \<le> b \<Longrightarrow> b \<le> 16 \<Longrightarrow> c \<in> set (show_base b n) \<Longrightarrow> ascii_printable c"
  using show_base_code [of b c n] by (auto simp: ascii_printable_def)

lemma json_char_printable: "\<forall>x \<in> set (json_char c). ascii_printable x"
proof -
  have "\<forall>x \<in> set (zero_pad 4 (hex n)). ascii_printable x" for n
    using show_base_printable [of 16 _ n] by (auto simp: zero_pad_def ascii_printable_def [of "CHR ''0''"])
  moreover have "\<forall>x \<in> {DQ, BSLASH, CHR ''n'', CHR ''r'', CHR ''t'', CHR ''u''}. ascii_printable x"
    by (simp add: ascii_printable_def)
  moreover have "ascii_printable c" if "\<not> (of_char c < (0x20 :: nat) \<or> of_char c \<ge> (0x7F :: nat))"
    using that by (auto simp: ascii_printable_def)
  ultimately show ?thesis by (simp add: json_char_def)
qed

lemma json_string_printable: "c \<in> set (json_string s) \<Longrightarrow> ascii_printable c"
  using json_char_printable by (auto simp: json_string_def ascii_printable_def [of DQ])

lemma json_text_printable: "c \<in> set (json_text v) \<Longrightarrow> ascii_printable c"
proof (induction v arbitrary: c rule: json_text.induct)
  case (4 vs)
  have "\<forall>c \<in> set (join '','' (map json_text vs)). ascii_printable c"
    using 4(1) by (intro join_all) (auto simp: ascii_printable_def)
  with 4(2) show ?case by (auto simp: ascii_printable_def)
next
  case (5 ms)
  have "\<forall>c \<in> set (join '','' (map member_text ms)). ascii_printable c"
    using 5(1) json_string_printable by (intro join_all) (auto simp: ascii_printable_def)
  with 5(2) show ?case by (auto simp: ascii_printable_def)
next
  case (3 b)
  then show ?case by (auto simp: ascii_printable_def split: if_splits)
qed (simp_all add: json_string_printable show_base_printable [of 10])

end
