(* ===== verification/NS_Output.thy ===== *)
theory NS_Output
  imports NS_Output_Text NS_Json
begin

section \<open>output.c: JSON lines and the choice of format\<close>

text \<open>
  \<open>print_json_line\<close> writes the object of a packet piece by piece; \<open>ns_output_packet\<close>
  chooses between the formats. The theorems compare the written characters with the text of a JSON
  value, and the text output with the buffer-free texts of the previous theory.
\<close>

text \<open>The loop over the bytes of a C string: it ends at the terminator, and reading past the end of the
  array is undefined.\<close>

fun json_escape_loop :: "cbuf \<Rightarrow> string option" where
  "json_escape_loop [] = None"
| "json_escape_loop (c # p) =
     (if c = NUL then Some []
      else do {
        let s = (if c = DQ then [BSLASH, DQ]
                 else if c = BSLASH then [BSLASH, BSLASH]
                 else if c = CHR 0x0A then BSLASH # ''n''
                 else if c = CHR 0x0D then BSLASH # ''r''
                 else if c = CHR 0x09 then BSLASH # ''t''
                 else if (of_char c :: nat) < 0x20 \<or> (of_char c :: nat) \<ge> 0x7F
                 then BSLASH # ''u'' @ zero_pad 4 (hex (of_char c))
                 else [c]);
        rest \<leftarrow> json_escape_loop p;
        Some (s @ rest) })"

definition json_write_escaped :: "cbuf \<Rightarrow> string option" where
  "json_write_escaped s = do { body \<leftarrow> json_escape_loop s; Some ([DQ] @ body @ [DQ]) }"

text \<open>A member name as the format strings spell it, and a string literal as an array.\<close>

abbreviation member :: "string \<Rightarrow> string" where "member k \<equiv> [DQ] @ k @ [DQ] @ '':''"
abbreviation literal :: "string \<Rightarrow> cbuf" where "literal s \<equiv> s @ [NUL]"

definition json_kFlags :: "(u8 \<times> string) list" where
  "json_kFlags =
     [(NS_TCP_FLAG_SYN, ''SYN''), (NS_TCP_FLAG_ACK, ''ACK''), (NS_TCP_FLAG_FIN, ''FIN''),
      (NS_TCP_FLAG_RST, ''RST''), (NS_TCP_FLAG_PSH, ''PSH''), (NS_TCP_FLAG_URG, ''URG''),
      (NS_TCP_FLAG_ECE, ''ECE''), (NS_TCP_FLAG_CWR, ''CWR'')]"

fun json_flags_loop :: "(u8 \<times> string) list \<Rightarrow> u8 \<Rightarrow> bool \<Rightarrow> string option" where
  "json_flags_loop [] flags first = Some []"
| "json_flags_loop ((b, name) # ks) flags first =
     (if flags AND b \<noteq> 0 then do {
        s \<leftarrow> json_write_escaped (literal name);
        rest \<leftarrow> json_flags_loop ks flags False;
        Some ((if \<not> first then '','' else []) @ s @ rest) }
      else json_flags_loop ks flags first)"

definition json_timestamp :: "ns_timestamp_t \<Rightarrow> cbuf option" where
  "json_timestamp ts = do {
     let ts_iso = stack_buf 32;
     tm_buf \<leftarrow> gmtime_r (sint (ts_seconds ts));
     (ts_iso, pos) \<leftarrow> strftime ts_iso 32 (iso_text tm_buf);
     (ts_iso, _) \<leftarrow> snprintf ts_iso pos (32 - pos)
        (''.'' @ zero_pad_int 3 (sint (ts_microseconds ts) sdiv 1000) @ ''Z'');
     Some ts_iso }"

text \<open>\<open>transport.tcp\<close> or \<open>transport.udp\<close>, by the transport protocol.\<close>

definition json_port :: "ns_packet_t \<Rightarrow> (ns_tcp_info_t \<Rightarrow> u16) \<Rightarrow> (ns_udp_info_t \<Rightarrow> u16) \<Rightarrow> string option" where
  "json_port pkt tcp_port udp_port =
     (if pkt_transport_proto pkt = NS_PROTO_TCP \<or> pkt_transport_proto pkt = NS_PROTO_UDP then do {
        port \<leftarrow> (if pkt_transport_proto pkt = NS_PROTO_TCP
                 then do { i \<leftarrow> tr_tcp (pkt_transport pkt); Some (tcp_port i) }
                 else do { i \<leftarrow> tr_udp (pkt_transport pkt); Some (udp_port i) });
        Some ('','' @ member ''port'' @ dec (unat port)) }
      else Some [])"

definition json_addresses :: "ns_packet_t \<Rightarrow> string option" where
  "json_addresses pkt =
     (if pkt_network_proto pkt = NS_PROTO_IPV4 \<or> pkt_network_proto pkt = NS_PROTO_IPV6 then do {
        (src, dst) \<leftarrow> format_network_addrs pkt (stack_buf 46) 46 (stack_buf 46) 46;
        src \<leftarrow> json_write_escaped src;
        src_port \<leftarrow> json_port pkt tcp_source_port udp_source_port;
        dst \<leftarrow> json_write_escaped dst;
        dst_port \<leftarrow> json_port pkt tcp_destination_port udp_destination_port;
        Some ('','' @ member ''source'' @ ''{'' @ member ''ip'' @ src @ src_port @ ''}'' @
          '','' @ member ''destination'' @ ''{'' @ member ''ip'' @ dst @ dst_port @ ''}'') }
      else Some [])"

definition json_tcp :: "ns_packet_t \<Rightarrow> string option" where
  "json_tcp pkt =
     (if pkt_transport_proto pkt = NS_PROTO_TCP then do {
        i \<leftarrow> tr_tcp (pkt_transport pkt);
        flags \<leftarrow> json_flags_loop json_kFlags (tcp_flags i) True;
        Some ('','' @ member ''tcp'' @ ''{'' @ member ''flags'' @ ''['' @ flags @ '']}'') }
      else Some [])"

definition json_dns :: "ns_packet_t \<Rightarrow> string option" where
  "json_dns pkt =
     (if pkt_has_dns pkt \<and> dns_decoded_question_count (pkt_dns pkt) > 0 then do {
        q \<leftarrow> mem_get (dns_questions (pkt_dns pkt)) 0;
        name \<leftarrow> json_write_escaped (q_name q);
        (type_name, _) \<leftarrow> ns_dns_type_name (q_type q) (stack_buf 16) 16;
        type_str \<leftarrow> json_write_escaped (literal type_name);
        Some ('','' @ member ''dns'' @ ''{'' @ member ''question'' @ name @ '','' @ member ''type'' @ type_str @ ''}'') }
      else Some [])"

definition print_json_line :: "ns_packet_t \<Rightarrow> string option" where
  "print_json_line pkt = do {
     ts_iso \<leftarrow> json_timestamp (pkt_timestamp pkt);
     ts \<leftarrow> json_write_escaped ts_iso;
     proto \<leftarrow> json_write_escaped (literal (ns_proto_name (top_protocol pkt)));
     addresses \<leftarrow> json_addresses pkt;
     tcp \<leftarrow> json_tcp pkt;
     dns \<leftarrow> json_dns pkt;
     Some (''{'' @ member ''timestamp'' @ ts @
       '','' @ member ''captured_length'' @ dec (unat (pkt_captured_length pkt)) @
       '','' @ member ''malformed'' @ (if pkt_malformed pkt then ''true'' else ''false'') @
       '','' @ member ''protocol'' @ proto @ addresses @ tcp @ dns @ ''}'' @ NL) }"

text \<open>The stream's \<open>fputs\<close> appends and reports success.\<close>

definition ns_output_packet :: "(int \<Rightarrow> int) \<Rightarrow> ns_packet_t \<Rightarrow> ns_output_options_t \<Rightarrow> string option" where
  "ns_output_packet zone pkt opts =
     (if opt_format opts = NS_FORMAT_JSON then print_json_line pkt
      else if \<not> opt_quiet opts then do {
        line \<leftarrow> print_text_line zone pkt opts;
        verbose \<leftarrow> (if opt_verbose opts then print_verbose_block zone pkt else Some []);
        hexdump \<leftarrow> (if opt_hex opts
          then do { raw \<leftarrow> pkt_raw_data pkt;
                    ns_hex_dump_file (\<lambda>out s. (0, out @ s)) raw (pkt_captured_length pkt) [] }
          else Some []);
        Some (line @ verbose @ hexdump) }
      else Some [])"

subsection \<open>The object of a packet\<close>

definition iso_stamp :: "tm \<Rightarrow> ns_timestamp_t \<Rightarrow> string" where
  "iso_stamp tm ts = take 31 (iso_text tm @ ''.'' @ zero_pad_int 3 (sint (ts_microseconds ts) sdiv 1000) @ ''Z'')"

definition tcp_udp_ports :: "ns_packet_t \<Rightarrow> (u16 \<times> u16) option" where
  "tcp_udp_ports p = (case (pkt_transport_proto p, pkt_transport p) of
     (NS_PROTO_TCP, Tr_tcp i) \<Rightarrow> Some (tcp_source_port i, tcp_destination_port i)
   | (NS_PROTO_UDP, Tr_udp i) \<Rightarrow> Some (udp_source_port i, udp_destination_port i)
   | _ \<Rightarrow> None)"

definition json_endpoint :: "string \<Rightarrow> u16 option \<Rightarrow> json" where
  "json_endpoint a port =
     JObject ((''ip'', JString a) # (case port of None \<Rightarrow> [] | Some w \<Rightarrow> [(''port'', JNumber (unat w))]))"

definition json_address_members :: "ns_packet_t \<Rightarrow> (string \<times> json) list" where
  "json_address_members p =
     (if pkt_network_proto p = NS_PROTO_IPV4 \<or> pkt_network_proto p = NS_PROTO_IPV6
      then [(''source'', json_endpoint (fst (addr_texts p)) (map_option fst (tcp_udp_ports p))),
            (''destination'', json_endpoint (snd (addr_texts p)) (map_option snd (tcp_udp_ports p)))]
      else [])"

definition json_tcp_members :: "ns_packet_t \<Rightarrow> (string \<times> json) list" where
  "json_tcp_members p = (case (pkt_transport_proto p, pkt_transport p) of
     (NS_PROTO_TCP, Tr_tcp i) \<Rightarrow>
       [(''tcp'', JObject [(''flags'', JArray (map JString (flag_list (tcp_flags i))))])]
   | _ \<Rightarrow> [])"

definition json_dns_members :: "question list \<Rightarrow> (string \<times> json) list" where
  "json_dns_members qs = (case qs of [] \<Rightarrow> []
   | (ls, ty, cl) # _ \<Rightarrow>
       [(''dns'', JObject [(''question'', JString (cut_nul (dns_text ls))), (''type'', JString (type_text ty))])])"

definition packet_json :: "tm \<Rightarrow> ns_packet_t \<Rightarrow> question list \<Rightarrow> json" where
  "packet_json tm p qs = JObject (
     [(''timestamp'', JString (iso_stamp tm (pkt_timestamp p))),
      (''captured_length'', JNumber (unat (pkt_captured_length p))),
      (''malformed'', JBool (pkt_malformed p)),
      (''protocol'', JString (ns_proto_name (top_protocol p)))] @
     json_address_members p @ json_tcp_members p @ json_dns_members qs)"

subsection \<open>The written characters\<close>

lemma json_escape_loop_text: "c_str p = Some s \<Longrightarrow> json_escape_loop p = Some (concat (map json_char s))"
proof (induction p arbitrary: s)
  case (Cons c p)
  show ?case
  proof (cases "c = NUL")
    case False
    with Cons.prems obtain t where t: "c_str p = Some t" "s = c # t" by (auto simp: c_str_def split: if_splits)
    with Cons.IH [OF t(1)] False show ?thesis by (simp add: json_char_def)
  qed (use Cons.prems in \<open>simp add: c_str_def\<close>)
qed (simp add: c_str_def)

lemma json_write_escaped_text: "c_str p = Some s \<Longrightarrow> json_write_escaped p = Some (json_string s)"
  by (simp add: json_write_escaped_def json_escape_loop_text json_string_def)

lemma json_write_literal: "nul_free s \<Longrightarrow> json_write_escaped (literal s) = Some (json_string s)"
  using c_str_terminated [of s "[]"] by (simp add: json_write_escaped_text)

lemma json_plain: "\<forall>c \<in> set s. json_char c = [c] \<Longrightarrow> json_string s = [DQ] @ s @ [DQ]"
  by (induction s) (simp_all add: json_string_def)

lemma join_append_concat: "xs \<noteq> [] \<Longrightarrow> join sep (xs @ ys) = join sep xs @ concat (map (\<lambda>s. sep @ s) ys)"
proof (induction ys rule: rev_induct)
  case (snoc y ys)
  then show ?case using join_snoc [of sep "xs @ ys" y] by simp
qed simp

lemma json_flags_loop_text:
  assumes "\<forall>(b, name) \<in> set ks. nul_free name"
  shows "json_flags_loop ks flags first = Some ((if first \<or> flag_names ks flags = [] then [] else '','') @
    join '','' (map json_string (flag_names ks flags)))"
  using assms
proof (induction ks arbitrary: first)
  case (Cons bn ks)
  obtain b name where bn: "bn = (b, name)" by force
  with Cons.prems have "json_write_escaped (literal name) = Some (json_string name)" by (simp add: json_write_literal)
  with Cons.IH [of False] Cons.IH [of first] Cons.prems bn show ?case by (simp add: join_Cons)
qed simp

lemma json_timestamp_text:
  assumes "gmtime_r (sint (ts_seconds ts)) = Some tm"
  shows "\<exists>q. json_timestamp ts = Some q \<and> c_str q = Some (iso_stamp tm ts)"
proof -
  let ?t = "''.'' @ zero_pad_int 3 (sint (ts_microseconds ts) sdiv 1000) @ ''Z''"
  have "length (iso_text tm) < length (stack_buf 32)"
    using length_iso [of tm] gmtime_r_date [OF assms] by (simp add: stack_bufs)
  then obtain p1 pos q r where "strftime (stack_buf 32) 32 (iso_text tm) = Some (p1, pos)"
    "snprintf p1 pos (32 - pos) ?t = Some (q, r)" "c_str q = Some (iso_stamp tm ts)"
    using stamp_shown [of 32 "stack_buf 32" "iso_text tm" ?t] by (auto simp: stack_bufs iso_stamp_def)
  then show ?thesis using assms by (simp add: json_timestamp_def)
qed

text \<open>The members of an object after the first.\<close>

definition more_members :: "(string \<times> json) list \<Rightarrow> string" where
  "more_members ms = concat (map (\<lambda>m. '','' @ member_text m) ms)"

lemma more_members_simps [simp]:
  "more_members [] = []" "more_members ((k, v) # ms) = '','' @ json_string k @ '':'' @ json_text v @ more_members ms"
  "more_members (ms @ ms') = more_members ms @ more_members ms'"
  by (simp_all add: more_members_def)

lemma json_object_text: "json_text (JObject ((k, v) # ms)) = ''{'' @ json_string k @ '':'' @ json_text v @ more_members ms @ ''}''"
  using join_append_concat [of "[member_text (k, v)]" "'',''" "map member_text ms"]
  by (simp add: more_members_def comp_def)

lemma json_port_text:
  assumes "transport_inv p"
  shows "json_port p tcp_source_port udp_source_port =
      Some (case map_option fst (tcp_udp_ports p) of None \<Rightarrow> [] | Some w \<Rightarrow> '','' @ member ''port'' @ dec (unat w))"
    "json_port p tcp_destination_port udp_destination_port =
      Some (case map_option snd (tcp_udp_ports p) of None \<Rightarrow> [] | Some w \<Rightarrow> '','' @ member ''port'' @ dec (unat w))"
  using assms by (cases "pkt_transport_proto p";
      auto simp: transport_inv_def json_port_def tcp_udp_ports_def tr_tcp_def tr_udp_def)+

lemma json_endpoint_text:
  "json_text (json_endpoint a w) = ''{'' @ member ''ip'' @ json_string a @
     (case w of None \<Rightarrow> [] | Some w \<Rightarrow> '','' @ member ''port'' @ dec (unat w)) @ ''}''"
proof -
  have "json_string ''ip'' = [DQ] @ ''ip'' @ [DQ]" "json_string ''port'' = [DQ] @ ''port'' @ [DQ]"
    by (rule json_plain, simp add: json_char_def)+
  then show ?thesis by (simp add: json_endpoint_def json_object_text del: json_text.simps(5) split: option.splits)
qed

lemma json_keys:
  "json_string ''timestamp'' = [DQ] @ ''timestamp'' @ [DQ]" "json_string ''captured_length'' = [DQ] @ ''captured_length'' @ [DQ]"
  "json_string ''malformed'' = [DQ] @ ''malformed'' @ [DQ]" "json_string ''protocol'' = [DQ] @ ''protocol'' @ [DQ]"
  "json_string ''source'' = [DQ] @ ''source'' @ [DQ]" "json_string ''destination'' = [DQ] @ ''destination'' @ [DQ]"
  "json_string ''tcp'' = [DQ] @ ''tcp'' @ [DQ]" "json_string ''flags'' = [DQ] @ ''flags'' @ [DQ]"
  "json_string ''dns'' = [DQ] @ ''dns'' @ [DQ]" "json_string ''question'' = [DQ] @ ''question'' @ [DQ]"
  "json_string ''type'' = [DQ] @ ''type'' @ [DQ]"
  by (rule json_plain, simp add: json_char_def)+

lemma json_addresses_text:
  assumes "transport_inv p" "network_inv p"
  shows "json_addresses p = Some (more_members (json_address_members p))"
proof (cases "pkt_network_proto p = NS_PROTO_IPV4 \<or> pkt_network_proto p = NS_PROTO_IPV6")
  case True
  then obtain a b where "format_network_addrs p (stack_buf 46) 46 (stack_buf 46) 46 = Some (a, b)"
    "shows_addr a (fst (addr_texts p))" "shows_addr b (snd (addr_texts p))"
    using format_network_addrs_text [OF assms(2)] by auto
  with True json_port_text [OF assms(1)] show ?thesis
    by (simp add: json_addresses_def json_address_members_def json_endpoint_text json_keys shows_addr_def
        json_write_escaped_text)
qed (auto simp: json_addresses_def json_address_members_def)

lemma json_kFlags_eq: "json_kFlags = kFlags" "\<forall>(b, name) \<in> set kFlags. nul_free name"
  by (simp_all add: json_kFlags_def kFlags_def)

lemma json_tcp_text:
  assumes "transport_inv p"
  shows "json_tcp p = Some (more_members (json_tcp_members p))"
proof (cases "pkt_transport_proto p = NS_PROTO_TCP")
  case True
  then obtain i where i: "pkt_transport p = Tr_tcp i" using assms by (auto simp: transport_inv_def)
  have "json_flags_loop json_kFlags (tcp_flags i) True = Some (join '','' (map json_string (flag_list (tcp_flags i))))"
    using json_flags_loop_text [of json_kFlags "tcp_flags i" True] by (simp add: json_kFlags_eq flag_names_kFlags)
  with True i show ?thesis
    by (simp add: json_tcp_def json_tcp_members_def tr_tcp_def json_keys comp_def)
qed (auto simp: json_tcp_def json_tcp_members_def split: ns_proto_t.splits)

lemma type_text_nul_free [simp]: "nul_free (type_text t)"
  by (simp add: type_text_def)

lemma json_dns_text:
  assumes "pkt_has_dns p \<longrightarrow> message_shown m (pkt_dns p) qs rs" "pkt_has_dns p \<longrightarrow> dns_wf (pkt_dns p)" "\<not> pkt_has_dns p \<longrightarrow> qs = []"
  shows "json_dns p = Some (more_members (json_dns_members qs))"
proof (cases "pkt_has_dns p \<and> qs \<noteq> []")
  case True
  let ?q = "dns_questions (pkt_dns p) ! 0"
  obtain ls ty cl qs' where qs: "qs = (ls, ty, cl) # qs'" using True by (cases qs) auto
  have m: "message_shown m (pkt_dns p) qs rs" using True assms(1) by blast
  then have "question_shown ?q (ls, ty, cl)" using qs by (auto simp: message_shown_def)
  then have q: "c_str (q_name ?q) = Some (cut_nul (dns_text ls))" "q_type ?q = ty"
    using holds_cut [of "q_name ?q"] by (auto simp: question_shown_def name_shown_def)
  have "unat (dns_decoded_question_count (pkt_dns p)) \<noteq> 0" using m qs by (simp add: message_shown_def)
  then have "dns_decoded_question_count (pkt_dns p) > 0" by (simp add: word_gt_0 unat_eq_zero)
  moreover have "mem_get (dns_questions (pkt_dns p)) 0 = Some ?q"
    using True assms(2) by (auto simp: dns_wf_def mem_get_def)
  ultimately show ?thesis
    using True q shown_type [of ty]
    by (auto simp: json_dns_def json_dns_members_def qs json_write_escaped_text json_write_literal json_keys)
next
  case False
  have "dns_decoded_question_count (pkt_dns p) = 0" if "pkt_has_dns p"
    using that False assms(1) by (simp add: message_shown_def unat_eq_zero)
  with False assms(3) show ?thesis by (auto simp: json_dns_def json_dns_members_def)
qed

text \<open>The questions of the message a packet carries: none without DNS.\<close>

definition shown_questions :: "ns_packet_t \<Rightarrow> question list \<Rightarrow> bool" where
  "shown_questions p qs \<longleftrightarrow> (if pkt_has_dns p then \<exists>rs. dns_message (captured_payload p) qs rs else qs = [])"

lemma print_json_line_text:
  assumes "decoded p" "gmtime_r (sint (ts_seconds (pkt_timestamp p))) = Some tm"
  shows "\<exists>qs. shown_questions p qs \<and> print_json_line p = Some (json_text (packet_json tm p qs) @ NL)"
proof -
  have inv: "transport_inv p" "network_inv p" using assms(1) by (auto simp: decoded_def packet_inv_def)
  obtain ts where ts: "json_timestamp (pkt_timestamp p) = Some ts" "c_str ts = Some (iso_stamp tm (pkt_timestamp p))"
    using json_timestamp_text [OF assms(2)] by blast
  have "\<exists>qs. shown_questions p qs \<and> json_dns p = Some (more_members (json_dns_members qs))"
  proof (cases "pkt_has_dns p")
    case True
    with inv(1) obtain qs rs where "dns_message (captured_payload p) qs rs" "dns_wf (pkt_dns p)"
      "message_shown (captured_payload p) (pkt_dns p) qs rs" by (auto simp: transport_inv_def dns_decoded_def)
    with True json_dns_text [of p "captured_payload p" qs rs] show ?thesis by (auto simp: shown_questions_def)
  next
    case False
    with json_dns_text [of p undefined "[]"] show ?thesis by (auto simp: shown_questions_def)
  qed
  then obtain qs where qs: "shown_questions p qs" "json_dns p = Some (more_members (json_dns_members qs))" by blast
  have "nul_free (ns_proto_name (top_protocol p))" by (simp add: ns_proto_name_def split: ns_proto_t.splits)
  then have "print_json_line p = Some (json_text (packet_json tm p qs) @ NL)"
    using ts qs(2) json_addresses_text [OF inv] json_tcp_text [OF inv(1)]
    by (simp add: print_json_line_def packet_json_def json_object_text json_write_escaped_text json_write_literal
        json_keys del: json_text.simps(5))
  with qs(1) show ?thesis by blast
qed

subsection \<open>Every packet is printed\<close>

lemma feed_appends: "feed (ns_hex_dump_file_write (\<lambda>out s. (0, out @ s))) out rs = (True, out @ concat rs)"
  by (induction rs arbitrary: out) (simp_all add: ns_hex_dump_file_write_def)

lemma hex_dump_written:
  assumes "unat len \<le> length raw" "unat len + 16 \<le> 2 ^ 64"
  shows "ns_hex_dump_file (\<lambda>out s. (0, out @ s)) raw len [] = Some (concat (hex_rows 0 (take (unat len) raw)))"
  by (simp add: ns_hex_dump_file_def ns_hex_dump_rows [OF assms] feed_appends)

text \<open>A captured frame: the bytes are there, and a capture is far smaller than the address space.\<close>

definition captured :: "ns_packet_t \<Rightarrow> bytes \<Rightarrow> bool" where
  "captured p raw \<longleftrightarrow> pkt_raw_data p = Some raw \<and> unat (pkt_captured_length p) \<le> length raw \<and>
     unat (pkt_captured_length p) + 16 \<le> 2 ^ 64"

definition text_output :: "ns_output_options_t \<Rightarrow> tm \<Rightarrow> ns_packet_t \<Rightarrow> bytes \<Rightarrow> string \<Rightarrow> string" where
  "text_output opts tm p raw dns =
     (if opt_quiet opts then []
      else text_line opts tm p @ dns @ (if opt_verbose opts then verbose_text (doubled_stamp tm (pkt_timestamp p)) p else []) @
        (if opt_hex opts then concat (hex_rows 0 (take (unat (pkt_captured_length p)) raw)) else []))"

lemma ns_output_packet_text:
  assumes "decoded p" "captured p raw" "localtime_r zone (sint (ts_seconds (pkt_timestamp p))) = Some tm"
    and "opt_format opts = NS_FORMAT_TEXT"
  shows "\<exists>dns. ns_output_packet zone p opts = Some (text_output opts tm p raw dns) \<and>
    (if pkt_has_dns p then \<exists>qs rs. dns_message (captured_payload p) qs rs \<and> dns_line (captured_payload p) qs rs dns
     else dns = [])"
proof -
  have raw: "pkt_raw_data p = Some raw" "unat (pkt_captured_length p) \<le> length raw"
    "unat (pkt_captured_length p) + 16 \<le> 2 ^ 64" using assms(2) by (simp_all add: captured_def)
  obtain dns where dns: "print_text_line zone p opts = Some (text_line opts tm p @ dns)"
    "if pkt_has_dns p then \<exists>qs rs. dns_message (captured_payload p) qs rs \<and> dns_line (captured_payload p) qs rs dns
     else dns = []" using print_text_line_text [OF assms(1,3), of opts] by blast
  have "ns_output_packet zone p opts = Some (text_output opts tm p raw dns)"
    using dns(1) print_verbose_block_text [OF assms(1,3)] hex_dump_written [OF raw(2,3)] raw(1) assms(4)
    by (simp add: ns_output_packet_def text_output_def)
  with dns(2) show ?thesis by blast
qed

subsection \<open>Properties\<close>

lemma parsed_packet:
  assumes "unat captured_length \<le> length data"
    and "ns_packet_parse data captured_length original_length timestamp number link_type = Some p"
  shows "decoded p" "pkt_timestamp p = timestamp" "pkt_raw_data p = Some data" "pkt_captured_length p = captured_length"
  using ns_packet_parse_decoded [OF assms] ns_packet_parse_safe [OF assms(1), of original_length timestamp number link_type]
    assms(2) by (auto simp: capture_fields_def)

text \<open>C35: the text output. For every captured frame whose time \<open>localtime_r\<close> has a date for, the packet the decoder
  produced is printed without undefined behaviour, and the text is determined: a quiet run prints nothing; otherwise the
  line, the DNS line (the first answer of a response, the first question of a query), the detailed block when asked for, and
  the hex dump of the captured bytes when asked for. No address, port, flag list, name or type is cut by the local buffer it
  passes through, and the time of a timestamp below one second of microseconds is shown whole. The line puts three spaces
  before its last column, which README.md shows aligned; and the detailed block shows the fraction of the
  second twice, the milliseconds followed by the microseconds, which is not what is meant.\<close>

theorem output_text_exact:
  assumes "unat captured_length \<le> length data" "unat captured_length + 16 \<le> 2 ^ 64"
    and "ns_packet_parse data captured_length original_length timestamp number link_type = Some p"
    and "localtime_r zone (sint (ts_seconds timestamp)) = Some tm" "opt_format opts = NS_FORMAT_TEXT"
  shows "\<exists>dns. ns_output_packet zone p opts = Some (if opt_quiet opts then []
      else text_line opts tm p @ dns @
        (if opt_verbose opts
         then verbose_text (stamp_text tm timestamp @ ''.'' @ zero_pad_int 6 (sint (ts_microseconds timestamp) smod 1000000)) p else []) @
        (if opt_hex opts then concat (hex_rows 0 (take (unat captured_length) data)) else [])) \<and>
    (if pkt_has_dns p then \<exists>qs rs. dns_message (captured_payload p) qs rs \<and> dns_line (captured_payload p) qs rs dns
     else dns = []) \<and>
    (0 \<le> sint (ts_microseconds timestamp) \<and> sint (ts_microseconds timestamp) < 1000000 \<longrightarrow>
     stamp_text tm timestamp = hms_text tm @ ''.'' @ zero_pad_int 3 (sint (ts_microseconds timestamp) div 1000))"
proof -
  note p = parsed_packet [OF assms(1,3)]
  have "captured p data" using p assms(1,2) by (simp add: captured_def)
  moreover have "localtime_r zone (sint (ts_seconds (pkt_timestamp p))) = Some tm" unfolding p(2) by (fact assms(4))
  moreover have "valid_tm tm" using assms(4) gmtime_r_date by (auto simp: localtime_r_def)
  ultimately show ?thesis
    using ns_output_packet_text [OF p(1), of data zone tm opts] assms(5) stamp_text_whole [of tm timestamp]
    unfolding text_output_def p(2,4) doubled_stamp_def by blast
qed

definition plain_opts :: "ns_output_format_t \<Rightarrow> ns_output_options_t" where
  "plain_opts f = \<lparr> opt_color = False, opt_verbose = False, opt_quiet = False, opt_hex = True, opt_format = f \<rparr>"

lemma epoch_time: "gmtime_r 0 = Some \<lparr> tm_sec = 0, tm_min = 0, tm_hour = 0, tm_mday = 1, tm_mon = 0, tm_year = 70 \<rparr>"
  by (simp add: gmtime_r_def year_of.simps month_of.simps year_len_def month_len_def)

theorem output_text_exact_witness:
  "\<exists>p tm dns. ns_packet_parse query_frame 64 64 frame_time 1 NS_LINK_ETHERNET = Some p \<and>
     ns_output_packet (\<lambda>_. 0) p (plain_opts NS_FORMAT_TEXT) =
       Some (text_line (plain_opts NS_FORMAT_TEXT) tm p @ dns @ concat (hex_rows 0 query_frame))"
proof -
  obtain p where p: "ns_packet_parse query_frame 64 64 frame_time 1 NS_LINK_ETHERNET = Some p" using query_frame_parsed .
  have "unat (64 :: size_t) \<le> length query_frame" "unat (64 :: size_t) + 16 \<le> 2 ^ 64"
    "opt_format (plain_opts NS_FORMAT_TEXT) = NS_FORMAT_TEXT" by (simp_all add: query_frame_wf plain_opts_def)
  moreover obtain tm where "localtime_r (\<lambda>_. 0) (sint (ts_seconds frame_time)) = Some tm"
    using epoch_time by (auto simp: localtime_r_def frame_time_def)
  ultimately have "\<exists>dns. ns_output_packet (\<lambda>_. 0) p (plain_opts NS_FORMAT_TEXT) = Some (if opt_quiet (plain_opts NS_FORMAT_TEXT) then []
      else text_line (plain_opts NS_FORMAT_TEXT) tm p @ dns @ (if opt_verbose (plain_opts NS_FORMAT_TEXT)
         then verbose_text (stamp_text tm frame_time @ ''.'' @ zero_pad_int 6 (sint (ts_microseconds frame_time) smod 1000000)) p else []) @
        (if opt_hex (plain_opts NS_FORMAT_TEXT) then concat (hex_rows 0 (take (unat (64 :: size_t)) query_frame)) else []))"
    using output_text_exact [OF _ _ p] by blast
  then show ?thesis using p by (auto simp: plain_opts_def query_frame_wf)
qed



end
