(* ===== verification/NS_Config.thy ===== *)
theory NS_Config
  imports NS_Output
begin

section \<open>config.c: the command line\<close>

text \<open>
  \<open>ns_config_parse\<close> over the results of \<open>getopt_long\<close>. The option scanner belongs to the
  C library's extensions and is a parameter: the finite sequence of what its calls return (the option
  code, \<open>optarg\<close>, \<open>optopt\<close>, \<open>optind\<close>) before the call that returns -1, and
  \<open>optind\<close> after that call. \<open>getopt_ok\<close> states what its documentation promises for the
  program's option table: only codes of the table or a question mark, an argument for every option
  that requires one, and an \<open>optind\<close> inside \<open>argv\<close>. \<open>strtol\<close> is modelled.
\<close>

datatype ns_input_mode_t = NS_INPUT_NONE | NS_INPUT_LIVE | NS_INPUT_FILE

datatype ns_log_level_t = NS_LOG_ERROR | NS_LOG_WARN | NS_LOG_INFO | NS_LOG_DEBUG

record ns_config_t =
  cfg_input_mode :: ns_input_mode_t
  cfg_interface :: cbuf
  cfg_read_file :: cbuf
  cfg_write_file :: cbuf
  cfg_output_file :: cbuf
  cfg_filter_tcp :: bool
  cfg_filter_udp :: bool
  cfg_filter_icmp :: bool
  cfg_filter_port :: int
  cfg_filter_host :: cbuf
  cfg_filter_src :: cbuf
  cfg_filter_dst :: cbuf
  cfg_raw_filter :: cbuf
  cfg_has_raw_filter :: bool
  cfg_no_color :: bool
  cfg_verbose_output :: bool
  cfg_quiet :: bool
  cfg_show_stats :: bool
  cfg_hex_dump :: bool
  cfg_format :: ns_output_format_t
  cfg_log_level :: ns_log_level_t
  cfg_list_interfaces :: bool
  cfg_show_help :: bool
  cfg_show_version :: bool

definition ns_config_zero :: ns_config_t where
  "ns_config_zero = \<lparr> cfg_input_mode = NS_INPUT_NONE, cfg_interface = replicate 256 NUL,
     cfg_read_file = replicate 256 NUL, cfg_write_file = replicate 256 NUL, cfg_output_file = replicate 256 NUL,
     cfg_filter_tcp = False, cfg_filter_udp = False, cfg_filter_icmp = False, cfg_filter_port = 0,
     cfg_filter_host = replicate 256 NUL, cfg_filter_src = replicate 256 NUL, cfg_filter_dst = replicate 256 NUL,
     cfg_raw_filter = replicate 256 NUL, cfg_has_raw_filter = False, cfg_no_color = False,
     cfg_verbose_output = False, cfg_quiet = False, cfg_show_stats = False, cfg_hex_dump = False,
     cfg_format = NS_FORMAT_TEXT, cfg_log_level = NS_LOG_ERROR, cfg_list_interfaces = False,
     cfg_show_help = False, cfg_show_version = False \<rparr>"

abbreviation OPT_VERSION :: int where "OPT_VERSION \<equiv> 1000"
abbreviation OPT_LIST_INTERFACES :: int where "OPT_LIST_INTERFACES \<equiv> 1001"
abbreviation OPT_TCP :: int where "OPT_TCP \<equiv> 1002"
abbreviation OPT_UDP :: int where "OPT_UDP \<equiv> 1003"
abbreviation OPT_ICMP :: int where "OPT_ICMP \<equiv> 1004"
abbreviation OPT_PORT :: int where "OPT_PORT \<equiv> 1005"
abbreviation OPT_HOST :: int where "OPT_HOST \<equiv> 1006"
abbreviation OPT_SRC :: int where "OPT_SRC \<equiv> 1007"
abbreviation OPT_DST :: int where "OPT_DST \<equiv> 1008"
abbreviation OPT_FILTER :: int where "OPT_FILTER \<equiv> 1009"
abbreviation OPT_NO_COLOR :: int where "OPT_NO_COLOR \<equiv> 1010"
abbreviation OPT_VERBOSE :: int where "OPT_VERBOSE \<equiv> 1011"
abbreviation OPT_QUIET :: int where "OPT_QUIET \<equiv> 1012"
abbreviation OPT_STATS :: int where "OPT_STATS \<equiv> 1013"
abbreviation OPT_HEX :: int where "OPT_HEX \<equiv> 1014"
abbreviation OPT_WRITE :: int where "OPT_WRITE \<equiv> 1015"
abbreviation OPT_FORMAT :: int where "OPT_FORMAT \<equiv> 1016"
abbreviation OPT_OUTPUT :: int where "OPT_OUTPUT \<equiv> 1017"
abbreviation OPT_DEBUG :: int where "OPT_DEBUG \<equiv> 1018"

text \<open>The short options are their character codes; \<open>True\<close> marks \<open>required_argument\<close>.\<close>

abbreviation opt_i :: int where "opt_i \<equiv> 105"
abbreviation opt_r :: int where "opt_r \<equiv> 114"
abbreviation opt_h :: int where "opt_h \<equiv> 104"
abbreviation opt_v :: int where "opt_v \<equiv> 118"

definition kLongOptions :: "(string \<times> bool \<times> int) list" where
  "kLongOptions =
     [(''help'', False, opt_h), (''version'', False, OPT_VERSION), (''list-interfaces'', False, OPT_LIST_INTERFACES),
      (''interface'', True, opt_i), (''read'', True, opt_r), (''tcp'', False, OPT_TCP), (''udp'', False, OPT_UDP),
      (''icmp'', False, OPT_ICMP), (''port'', True, OPT_PORT), (''host'', True, OPT_HOST), (''src'', True, OPT_SRC),
      (''dst'', True, OPT_DST), (''filter'', True, OPT_FILTER), (''no-color'', False, OPT_NO_COLOR),
      (''verbose'', False, OPT_VERBOSE), (''quiet'', False, OPT_QUIET), (''stats'', False, OPT_STATS),
      (''hex'', False, OPT_HEX), (''write'', True, OPT_WRITE), (''format'', True, OPT_FORMAT),
      (''output'', True, OPT_OUTPUT), (''debug'', False, OPT_DEBUG)]"

text \<open>The option string \<^verbatim>\<open>i:r:hv\<close>.\<close>

definition short_options :: "(int \<times> bool) list" where
  "short_options = [(opt_i, True), (opt_r, True), (opt_h, False), (opt_v, False)]"

definition copy_str :: "cbuf \<Rightarrow> size_t \<Rightarrow> cbuf \<Rightarrow> cbuf option" where
  "copy_str dst dst_len src = do { s \<leftarrow> c_str src; (dst, _) \<leftarrow> snprintf dst 0 dst_len s; Some dst }"

subsection \<open>\<open>strtol\<close> and ports\<close>

definition c_isspace :: "char \<Rightarrow> bool" where
  "c_isspace c \<longleftrightarrow> c = CHR '' '' \<or> (of_char c :: nat) \<in> {9..13}"

text \<open>Base 10: white space, a sign, digits. The result is the value (saturated to \<open>long\<close>), the number of
  characters consumed (none without a digit) and whether \<open>errno\<close> was set to \<open>ERANGE\<close>.\<close>

definition strtol :: "string \<Rightarrow> int \<times> nat \<times> bool" where
  "strtol s = (
     let sp = length (takeWhile c_isspace s); t = drop sp s;
         sign = (if take 1 t = ''-'' \<or> take 1 t = ''+'' then 1 else 0);
         ds = takeWhile is_digit (drop sign t);
         v = (if take 1 t = ''-'' then - int (read_base 10 ds) else int (read_base 10 ds))
     in if ds = [] then (0, 0, False)
        else (max (- (2 ^ 63)) (min (2 ^ 63 - 1) v), sp + sign + length ds, v < - (2 ^ 63) \<or> 2 ^ 63 - 1 < v))"

text \<open>\<open>None\<close> for a refused text; the error buffer then holds the message.\<close>

definition parse_port :: "cbuf \<Rightarrow> cbuf \<Rightarrow> size_t \<Rightarrow> (int option \<times> cbuf) option" where
  "parse_port p err_buf err_buf_len = do {
     s \<leftarrow> c_str p;
     let (port, used, erange) = strtol s;
     at_end \<leftarrow> mem_get p (of_nat used);
     if used = 0 \<or> at_end \<noteq> NUL \<or> erange \<or> port < 0 \<or> port > 65535
     then do {
       (err_buf, _) \<leftarrow> snprintf err_buf 0 err_buf_len (''invalid port '' @ [CHR 0x27] @ s @ [CHR 0x27] @ '' (expected 0-65535)'');
       Some (None, err_buf) }
     else Some (Some port, err_buf) }"

subsection \<open>The option loop\<close>

record getopt_ret =
  go_c :: int
  go_optarg :: "cbuf option"
  go_optopt :: int
  go_optind :: int

record config_state =
  cs_out :: ns_config_t
  cs_have_interface :: bool
  cs_have_read_file :: bool
  cs_any_simple_filter :: bool

definition quote_msg :: "string \<Rightarrow> string \<Rightarrow> string" where
  "quote_msg before s = before @ [CHR 0x27] @ s @ [CHR 0x27]"

definition log_level_up :: "ns_log_level_t \<Rightarrow> ns_log_level_t" where
  "log_level_up l = (case l of NS_LOG_ERROR \<Rightarrow> NS_LOG_WARN | NS_LOG_WARN \<Rightarrow> NS_LOG_INFO | _ \<Rightarrow> NS_LOG_DEBUG)"

definition config_set :: "(ns_config_t \<Rightarrow> ns_config_t) \<Rightarrow> config_state \<Rightarrow> config_state" where
  "config_set f st = st\<lparr> cs_out := f (cs_out st) \<rparr>"

text \<open>\<open>argv[i]\<close> as a string; \<open>argv[argc]\<close> is NULL.\<close>

definition argv_str :: "cbuf list \<Rightarrow> int \<Rightarrow> string option" where
  "argv_str argv i = (if 0 \<le> i \<and> i < int (length argv) then c_str (argv ! nat i) else None)"

definition fail :: "string \<Rightarrow> cbuf \<Rightarrow> size_t \<Rightarrow> config_state \<Rightarrow> (bool \<times> config_state \<times> cbuf) option" where
  "fail msg err_buf err_buf_len st = do { (err_buf, _) \<leftarrow> snprintf err_buf 0 err_buf_len msg; Some (False, st, err_buf) }"

text \<open>One turn of the loop; \<open>False\<close> is a \<open>return false\<close>.\<close>

definition config_option ::
  "cbuf list \<Rightarrow> getopt_ret \<Rightarrow> config_state \<Rightarrow> cbuf \<Rightarrow> size_t \<Rightarrow> (bool \<times> config_state \<times> cbuf) option" where
  "config_option argv r st err_buf err_buf_len = (
     let c = go_c r; out = cs_out st;
         ok = (\<lambda>st. Some (True, st, err_buf));
         filter_set = (\<lambda>f. Some (True, (config_set f st)\<lparr> cs_any_simple_filter := True \<rparr>, err_buf)) in
     if c = opt_i then do {
       a \<leftarrow> go_optarg r; b \<leftarrow> copy_str (cfg_interface out) 256 a;
       ok ((config_set (\<lambda>g. g\<lparr> cfg_interface := b \<rparr>) st)\<lparr> cs_have_interface := True \<rparr>) }
     else if c = opt_r then do {
       a \<leftarrow> go_optarg r; b \<leftarrow> copy_str (cfg_read_file out) 256 a;
       ok ((config_set (\<lambda>g. g\<lparr> cfg_read_file := b \<rparr>) st)\<lparr> cs_have_read_file := True \<rparr>) }
     else if c = opt_h then ok (config_set (\<lambda>g. g\<lparr> cfg_show_help := True \<rparr>) st)
     else if c = opt_v then
       ok (if cfg_log_level out \<noteq> NS_LOG_DEBUG
           then config_set (\<lambda>g. g\<lparr> cfg_log_level := log_level_up (cfg_log_level g) \<rparr>) st else st)
     else if c = OPT_VERSION then ok (config_set (\<lambda>g. g\<lparr> cfg_show_version := True \<rparr>) st)
     else if c = OPT_LIST_INTERFACES then ok (config_set (\<lambda>g. g\<lparr> cfg_list_interfaces := True \<rparr>) st)
     else if c = OPT_TCP then filter_set (\<lambda>g. g\<lparr> cfg_filter_tcp := True \<rparr>)
     else if c = OPT_UDP then filter_set (\<lambda>g. g\<lparr> cfg_filter_udp := True \<rparr>)
     else if c = OPT_ICMP then filter_set (\<lambda>g. g\<lparr> cfg_filter_icmp := True \<rparr>)
     else if c = OPT_PORT then do {
       a \<leftarrow> go_optarg r;
       (port, err_buf) \<leftarrow> parse_port a err_buf err_buf_len;
       (case port of None \<Rightarrow> Some (False, st, err_buf)
        | Some n \<Rightarrow> Some (True, (config_set (\<lambda>g. g\<lparr> cfg_filter_port := n \<rparr>) st)\<lparr> cs_any_simple_filter := True \<rparr>, err_buf)) }
     else if c = OPT_HOST then do {
       a \<leftarrow> go_optarg r; b \<leftarrow> copy_str (cfg_filter_host out) 256 a; filter_set (\<lambda>g. g\<lparr> cfg_filter_host := b \<rparr>) }
     else if c = OPT_SRC then do {
       a \<leftarrow> go_optarg r; b \<leftarrow> copy_str (cfg_filter_src out) 256 a; filter_set (\<lambda>g. g\<lparr> cfg_filter_src := b \<rparr>) }
     else if c = OPT_DST then do {
       a \<leftarrow> go_optarg r; b \<leftarrow> copy_str (cfg_filter_dst out) 256 a; filter_set (\<lambda>g. g\<lparr> cfg_filter_dst := b \<rparr>) }
     else if c = OPT_FILTER then do {
       a \<leftarrow> go_optarg r; b \<leftarrow> copy_str (cfg_raw_filter out) 256 a;
       ok (config_set (\<lambda>g. g\<lparr> cfg_raw_filter := b, cfg_has_raw_filter := True \<rparr>) st) }
     else if c = OPT_NO_COLOR then ok (config_set (\<lambda>g. g\<lparr> cfg_no_color := True \<rparr>) st)
     else if c = OPT_VERBOSE then ok (config_set (\<lambda>g. g\<lparr> cfg_verbose_output := True \<rparr>) st)
     else if c = OPT_QUIET then ok (config_set (\<lambda>g. g\<lparr> cfg_quiet := True \<rparr>) st)
     else if c = OPT_STATS then ok (config_set (\<lambda>g. g\<lparr> cfg_show_stats := True \<rparr>) st)
     else if c = OPT_HEX then ok (config_set (\<lambda>g. g\<lparr> cfg_hex_dump := True \<rparr>) st)
     else if c = OPT_WRITE then do {
       a \<leftarrow> go_optarg r; b \<leftarrow> copy_str (cfg_write_file out) 256 a; ok (config_set (\<lambda>g. g\<lparr> cfg_write_file := b \<rparr>) st) }
     else if c = OPT_FORMAT then do {
       a \<leftarrow> go_optarg r;
       json \<leftarrow> strcmp a (literal ''json'');
       text \<leftarrow> strcmp a (literal ''text'');
       s \<leftarrow> c_str a;
       if json = 0 then ok (config_set (\<lambda>g. g\<lparr> cfg_format := NS_FORMAT_JSON \<rparr>) st)
       else if text = 0 then ok (config_set (\<lambda>g. g\<lparr> cfg_format := NS_FORMAT_TEXT \<rparr>) st)
       else fail (quote_msg ''unknown --format value '' s @ quote_msg '' (expected '' ''text'' @ quote_msg '' or '' ''json'' @ '')'')
              err_buf err_buf_len st }
     else if c = OPT_OUTPUT then do {
       a \<leftarrow> go_optarg r; b \<leftarrow> copy_str (cfg_output_file out) 256 a; ok (config_set (\<lambda>g. g\<lparr> cfg_output_file := b \<rparr>) st) }
     else if c = OPT_DEBUG then ok (config_set (\<lambda>g. g\<lparr> cfg_log_level := NS_LOG_DEBUG \<rparr>) st)
     else if go_optopt r \<noteq> 0
     then fail (quote_msg ''unrecognized option or missing argument: '' (''-'' @ [char_of (nat (go_optopt r mod 256))])) err_buf err_buf_len st
     else if go_optind r > 1 then do {
       s \<leftarrow> argv_str argv (go_optind r - 1);
       fail (quote_msg ''unrecognized option '' s) err_buf err_buf_len st }
     else fail ''unrecognized option'' err_buf err_buf_len st)"

fun config_loop ::
  "cbuf list \<Rightarrow> getopt_ret list \<Rightarrow> config_state \<Rightarrow> cbuf \<Rightarrow> size_t \<Rightarrow> (bool \<times> config_state \<times> cbuf) option" where
  "config_loop argv [] st err_buf err_buf_len = Some (True, st, err_buf)"
| "config_loop argv (r # rs) st err_buf err_buf_len = do {
     (ok, st, err_buf) \<leftarrow> config_option argv r st err_buf err_buf_len;
     if ok then config_loop argv rs st err_buf err_buf_len else Some (False, st, err_buf) }"

text \<open>The checks after the loop. \<open>optind\<close> is its value when \<open>getopt_long\<close> returned -1.\<close>

definition config_check :: "cbuf list \<Rightarrow> int \<Rightarrow> config_state \<Rightarrow> cbuf \<Rightarrow> size_t \<Rightarrow> (bool \<times> config_state \<times> cbuf) option" where
  "config_check argv optind st err_buf err_buf_len = (
     let out = cs_out st in
     if optind < int (length argv) then do {
       s \<leftarrow> argv_str argv optind; fail (quote_msg ''unexpected argument '' s) err_buf err_buf_len st }
     else if cfg_show_help out \<or> cfg_show_version out then Some (True, st, err_buf)
     else if cs_have_interface st \<and> cs_have_read_file st
     then fail ''-i and -r cannot be used simultaneously'' err_buf err_buf_len st
     else if cfg_has_raw_filter out \<and> cs_any_simple_filter st
     then fail ''--filter cannot be combined with --tcp/--udp/--icmp/--port/--host/--src/--dst'' err_buf err_buf_len st
     else do {
       o0 \<leftarrow> mem_get (cfg_output_file out) 0;
       if o0 \<noteq> NUL \<and> cfg_format out \<noteq> NS_FORMAT_JSON then fail ''--output requires --format json'' err_buf err_buf_len st
       else if cfg_list_interfaces out then Some (True, st, err_buf)
       else if cs_have_interface st
       then Some (True, config_set (\<lambda>g. g\<lparr> cfg_input_mode := NS_INPUT_LIVE \<rparr>) st, err_buf)
       else if cs_have_read_file st
       then Some (True, config_set (\<lambda>g. g\<lparr> cfg_input_mode := NS_INPUT_FILE \<rparr>) st, err_buf)
       else fail ''either -i <interface> or -r <file> is required'' err_buf err_buf_len st })"

definition ns_config_parse ::
  "getopt_ret list \<Rightarrow> int \<Rightarrow> cbuf list \<Rightarrow> cbuf \<Rightarrow> size_t \<Rightarrow> (bool \<times> ns_config_t \<times> cbuf) option" where
  "ns_config_parse getopts optind argv err_buf err_buf_len = do {
     let out = ns_config_zero\<lparr> cfg_filter_port := -1, cfg_format := NS_FORMAT_TEXT, cfg_log_level := NS_LOG_WARN \<rparr>;
     let st = \<lparr> cs_out = out, cs_have_interface = False, cs_have_read_file = False, cs_any_simple_filter = False \<rparr>;
     (ok, st, err_buf) \<leftarrow> config_loop argv getopts st err_buf err_buf_len;
     if \<not> ok then Some (False, cs_out st, err_buf)
     else do {
       (ok, st, err_buf) \<leftarrow> config_check argv optind st err_buf err_buf_len;
       Some (ok, cs_out st, err_buf) } }"

text \<open>The help and version texts.\<close>

abbreviation NS_NAME :: string where "NS_NAME \<equiv> ''NetScope''"
abbreviation NS_VERSION_STRING :: string where "NS_VERSION_STRING \<equiv> ''0.1.0''"

definition ns_config_print_help :: "string \<Rightarrow> string" where
  "ns_config_print_help program_name =
     NS_NAME @ '' '' @ NS_VERSION_STRING @ '' -- capture and analyze network traffic'' @ NL @
     NL @
     ''Usage:'' @ NL @
     ''  '' @ program_name @ '' -i <interface> [options]'' @ NL @
     ''  '' @ program_name @ '' -r <capture.pcap> [options]'' @ NL @
     ''  '' @ program_name @ '' --list-interfaces'' @ NL @
     NL @
     ''Input:'' @ NL @
     ''  -i, --interface <name>   capture live from a network interface'' @ NL @
     ''  -r, --read <file>        read packets from a pcap file'' @ NL @
     ''      --list-interfaces    list available capture interfaces and exit'' @ NL @
     NL @
     ''Filtering (simplified; translated to a BPF expression):'' @ NL @
     ''      --tcp                only TCP packets'' @ NL @
     ''      --udp                only UDP packets'' @ NL @
     ''      --icmp               only ICMP/ICMPv6 packets'' @ NL @
     ''      --port <n>           only packets on port n'' @ NL @
     ''      --host <addr>        only packets to/from addr'' @ NL @
     ''      --src <addr>         only packets from addr'' @ NL @
     ''      --dst <addr>         only packets to addr'' @ NL @
     ''      --filter <bpf>       raw BPF expression (mutually exclusive with the above)'' @ NL @
     NL @
     ''Output:'' @ NL @
     ''      --no-color           disable ANSI colors'' @ NL @
     ''      --verbose            print a detailed field-by-field block per packet'' @ NL @
     ''      --quiet              suppress per-packet output'' @ NL @
     ''      --stats              print traffic statistics when capture ends'' @ NL @
     ''      --hex                print a hex dump of each packet'' @ NL @
     ''      --format <text|json> output format (default: text)'' @ NL @
     ''      --output <file>      write --format json output to file instead of stdout'' @ NL @
     ''      --write <file>       save captured packets to a pcap file'' @ NL @
     NL @
     ''Diagnostics:'' @ NL @
     ''  -v, -vv                  increase internal log verbosity (INFO, DEBUG)'' @ NL @
     ''      --debug              shorthand for -vv'' @ NL @
     NL @
     ''  -h, --help               show this help and exit'' @ NL @
     ''      --version            show version information and exit'' @ NL"

definition ns_config_print_version :: string where
  "ns_config_print_version = NS_NAME @ '' '' @ NS_VERSION_STRING @ NL"

subsection \<open>What the option scanner promises\<close>

definition option_table :: "(int \<times> bool) list" where
  "option_table = short_options @ map (\<lambda>(_, arg, val). (val, arg)) kLongOptions"

definition getopt_ok :: "cbuf list \<Rightarrow> getopt_ret \<Rightarrow> bool" where
  "getopt_ok argv r \<longleftrightarrow> (go_c r \<in> fst ` set option_table \<or> go_c r = 63) \<and>
     ((go_c r, True) \<in> set option_table \<longrightarrow>
        (case go_optarg r of None \<Rightarrow> False | Some a \<Rightarrow> NUL \<in> set a \<and> length a < 2 ^ 64)) \<and>
     1 \<le> go_optind r \<and> go_optind r \<le> int (length argv)"

definition arg_text :: "getopt_ret \<Rightarrow> string" where
  "arg_text r = (case go_optarg r of None \<Rightarrow> [] | Some a \<Rightarrow> cut_nul a)"

subsection \<open>What the command line means\<close>

text \<open>The value of a port argument: white space and a sign may precede the digits, nothing may follow.\<close>

definition port_of :: "string \<Rightarrow> int option" where
  "port_of s = (
     let t = dropWhile c_isspace s; u = (if take 1 t = ''-'' \<or> take 1 t = ''+'' then drop 1 t else t);
         v = int (read_base 10 u)
     in if u \<noteq> [] \<and> (\<forall>c \<in> set u. is_digit c) \<and> v \<le> 65535 \<and> (take 1 t = ''-'' \<longrightarrow> v = 0) then Some v else None)"

definition last_arg :: "int \<Rightarrow> getopt_ret list \<Rightarrow> string option" where
  "last_arg c evs = (let rs = filter (\<lambda>r. go_c r = c) evs in if rs = [] then None else Some (arg_text (last rs)))"

definition given :: "int \<Rightarrow> getopt_ret list \<Rightarrow> bool" where
  "given c evs \<longleftrightarrow> c \<in> go_c ` set evs"

definition log_of :: "getopt_ret list \<Rightarrow> ns_log_level_t" where
  "log_of evs = foldl (\<lambda>l r. if go_c r = opt_v then log_level_up l else if go_c r = OPT_DEBUG then NS_LOG_DEBUG else l)
     NS_LOG_WARN evs"

definition acceptable :: "getopt_ret \<Rightarrow> bool" where
  "acceptable r \<longleftrightarrow> go_c r \<noteq> 63 \<and> (go_c r = OPT_PORT \<longrightarrow> port_of (arg_text r) \<noteq> None) \<and>
     (go_c r = OPT_FORMAT \<longrightarrow> arg_text r \<in> {''json'', ''text''})"

text \<open>A 256-byte field holds the argument, cut to 255 characters; an option not given leaves it empty.\<close>

definition shows_str :: "cbuf \<Rightarrow> string option \<Rightarrow> bool" where
  "shows_str b a \<longleftrightarrow> length b = 256 \<and> c_str b = Some (case a of None \<Rightarrow> [] | Some s \<Rightarrow> take 255 s)"

definition config_strings :: "getopt_ret list \<Rightarrow> ns_config_t \<Rightarrow> bool" where
  "config_strings evs g \<longleftrightarrow>
     shows_str (cfg_interface g) (last_arg opt_i evs) \<and> shows_str (cfg_read_file g) (last_arg opt_r evs) \<and>
     shows_str (cfg_write_file g) (last_arg OPT_WRITE evs) \<and> shows_str (cfg_output_file g) (last_arg OPT_OUTPUT evs) \<and>
     shows_str (cfg_filter_host g) (last_arg OPT_HOST evs) \<and> shows_str (cfg_filter_src g) (last_arg OPT_SRC evs) \<and>
     shows_str (cfg_filter_dst g) (last_arg OPT_DST evs) \<and> shows_str (cfg_raw_filter g) (last_arg OPT_FILTER evs)"

definition config_values :: "getopt_ret list \<Rightarrow> ns_config_t \<Rightarrow> bool" where
  "config_values evs g \<longleftrightarrow>
     cfg_filter_tcp g = given OPT_TCP evs \<and> cfg_filter_udp g = given OPT_UDP evs \<and> cfg_filter_icmp g = given OPT_ICMP evs \<and>
     cfg_filter_port g = (case Option.bind (last_arg OPT_PORT evs) port_of of None \<Rightarrow> -1 | Some n \<Rightarrow> n) \<and>
     cfg_has_raw_filter g = given OPT_FILTER evs \<and> cfg_no_color g = given OPT_NO_COLOR evs \<and>
     cfg_verbose_output g = given OPT_VERBOSE evs \<and> cfg_quiet g = given OPT_QUIET evs \<and>
     cfg_show_stats g = given OPT_STATS evs \<and> cfg_hex_dump g = given OPT_HEX evs \<and>
     cfg_format g = (if last_arg OPT_FORMAT evs = Some ''json'' then NS_FORMAT_JSON else NS_FORMAT_TEXT) \<and>
     cfg_log_level g = log_of evs \<and> cfg_list_interfaces g = given OPT_LIST_INTERFACES evs \<and>
     cfg_show_help g = given opt_h evs \<and> cfg_show_version g = given OPT_VERSION evs"

definition simple_filter :: "getopt_ret list \<Rightarrow> bool" where
  "simple_filter evs \<longleftrightarrow> (\<exists>c \<in> {OPT_TCP, OPT_UDP, OPT_ICMP, OPT_PORT, OPT_HOST, OPT_SRC, OPT_DST}. given c evs)"

definition config_inv :: "getopt_ret list \<Rightarrow> config_state \<Rightarrow> bool" where
  "config_inv evs st \<longleftrightarrow> config_strings evs (cs_out st) \<and> config_values evs (cs_out st) \<and>
     cfg_input_mode (cs_out st) = NS_INPUT_NONE \<and>
     cs_have_interface st = given opt_i evs \<and> cs_have_read_file st = given opt_r evs \<and>
     cs_any_simple_filter st = simple_filter evs"

subsection \<open>Buffers and ports\<close>

lemma c_str_cut: "NUL \<in> set a \<Longrightarrow> c_str a = Some (cut_nul a)"
  by (simp add: c_str_def cut_nul_def)

lemma cut_literal: "nul_free s \<Longrightarrow> cut_nul (literal s) = s"
  using c_str_terminated [of s "[]"] c_str_cut [of "literal s"] by simp

lemma snprintf_terminated:
  assumes "unat n = length p" "0 < length p"
  shows "\<exists>q. snprintf p 0 n s = Some (q, int (length s)) \<and> length q = length p \<and> (\<exists>m. c_str q = Some m)"
proof -
  have "n \<noteq> 0" "Suc (min (length s) (length p - 1)) \<le> length p" using assms by (auto, linarith)
  then show ?thesis using assms by (simp add: snprintf_def mem_write_def c_str_def)
qed

lemma copy_str_text:
  assumes "length dst = 256" "NUL \<in> set a"
  shows "\<exists>b. copy_str dst 256 a = Some b \<and> shows_str b (Some (cut_nul a))"
proof -
  obtain q where "snprintf dst 0 256 (cut_nul a) = Some (q, int (length (cut_nul a)))"
    "length q = length dst" "c_str q = Some (take (length dst - 1) (cut_nul a))"
    using snprintf_whole [of "cut_nul a" 256 dst] assms(1) by auto
  with assms show ?thesis by (simp add: copy_str_def c_str_cut shows_str_def)
qed

lemma nul_at: "c_str p = Some s \<Longrightarrow> k \<le> length s \<Longrightarrow> length p < 2 ^ 64 \<Longrightarrow>
    \<exists>c. mem_get p (of_nat k) = Some c \<and> (c = NUL \<longleftrightarrow> k = length s)"
proof -
  assume a: "c_str p = Some s" "k \<le> length s" "length p < 2 ^ 64"
  then have s: "s = takeWhile (\<lambda>c. c \<noteq> NUL) p" by (auto simp: c_str_def split: if_splits)
  have len: "length s < length p" using c_str_length [OF a(1)] .
  then have k: "unat (of_nat k :: size_t) = k" using a(2,3) by (simp add: unat_of_nat)
  have "p ! k = NUL \<longleftrightarrow> k = length s"
  proof (cases "k = length s")
    case True
    then show ?thesis using nth_length_takeWhile [of "\<lambda>c. c \<noteq> NUL" p] len s by simp
  next
    case False
    then have "k < length s" "p ! k = s ! k" using a(2) s by (simp_all add: takeWhile_nth)
    then show ?thesis using False c_str_nul_free [OF a(1)] by (metis nth_mem nul_free_def)
  qed
  with len a(2) k show ?thesis by (simp add: mem_get_def)
qed

lemma takeWhile_all_length: "length (takeWhile P xs) = length xs \<longleftrightarrow> (\<forall>x \<in> set xs. P x)"
  by (metis takeWhile_eq_all_conv length_takeWhile_le takeWhile_eq_take take_all order_refl)

lemma strtol_used:
  defines "t s \<equiv> dropWhile c_isspace s"
  defines "u s \<equiv> (if take 1 (t s) = ''-'' \<or> take 1 (t s) = ''+'' then drop 1 (t s) else t s)"
  assumes "strtol s = (v, used, erange)"
  shows "used \<le> length s" "used = 0 \<longleftrightarrow> takeWhile is_digit (u s) = []"
    "used \<noteq> 0 \<Longrightarrow> used = length s \<longleftrightarrow> (\<forall>c \<in> set (u s). is_digit c)"
    "used \<noteq> 0 \<Longrightarrow> v = (let w = int (read_base 10 (takeWhile is_digit (u s))); x = (if take 1 (t s) = ''-'' then - w else w)
       in max (- (2 ^ 63)) (min (2 ^ 63 - 1) x))"
    "erange \<Longrightarrow> v < 0 \<or> v > 65535"
proof -
  let ?sp = "length (takeWhile c_isspace s)" and ?sign = "(if take 1 (t s) = ''-'' \<or> take 1 (t s) = ''+'' then 1 else 0 :: nat)"
  let ?ds = "takeWhile is_digit (u s)"
  have d: "drop ?sp s = t s" by (simp add: t_def dropWhile_eq_drop)
  have u: "drop ?sign (t s) = u s" by (simp add: u_def)
  have len: "length s = ?sp + length (t s)" by (metis t_def takeWhile_dropWhile_id length_append)
  have "?sign \<le> length (t s)" by (cases "t s") auto
  then have lu: "length (u s) = length (t s) - ?sign" "?sign \<le> length (t s)" by (auto simp: u_def)
  have le: "length ?ds \<le> length (u s)" by (rule length_takeWhile_le)
  have st: "strtol s = (let w = int (read_base 10 ?ds); x = (if take 1 (t s) = ''-'' then - w else w) in
      if ?ds = [] then (0, 0, False)
      else (max (- (2 ^ 63)) (min (2 ^ 63 - 1) x), ?sp + ?sign + length ?ds, x < - (2 ^ 63) \<or> 2 ^ 63 - 1 < x))"
    unfolding strtol_def Let_def d u by simp
  show "used \<le> length s" using st assms(3) len lu le by (auto simp: Let_def split: if_splits)
  show "used = 0 \<longleftrightarrow> ?ds = []" using st assms(3) by (auto simp: Let_def split: if_splits)
  show "used = length s \<longleftrightarrow> (\<forall>c \<in> set (u s). is_digit c)" if "used \<noteq> 0"
  proof -
    have "used = ?sp + ?sign + length ?ds" using that st assms(3) by (auto simp: Let_def split: if_splits)
    then have "used = length s \<longleftrightarrow> length ?ds = length (u s)" using len lu by linarith
    then show ?thesis by (simp only: takeWhile_all_length)
  qed
  show "v = (let w = int (read_base 10 ?ds); x = (if take 1 (t s) = ''-'' then - w else w)
       in max (- (2 ^ 63)) (min (2 ^ 63 - 1) x))" if "used \<noteq> 0"
    using that st assms(3) by (auto simp: Let_def split: if_splits)
  show "v < 0 \<or> v > 65535" if erange
    using that st assms(3) by (auto simp: Let_def split: if_splits)
qed

lemma parse_port_text:
  assumes "c_str p = Some s" "length p < 2 ^ 64" "unat err_buf_len = length err_buf" "0 < length err_buf"
  shows "\<exists>err. parse_port p err_buf err_buf_len = Some (port_of s, err) \<and> length err = length err_buf \<and>
    (port_of s = None \<longrightarrow> (\<exists>m. c_str err = Some m)) \<and> (port_of s \<noteq> None \<longrightarrow> err = err_buf)"
proof -
  obtain v used erange where st: "strtol s = (v, used, erange)" by (metis prod_cases3)
  note used = strtol_used [OF st]
  define t where "t = dropWhile c_isspace s"
  define u where "u = (if take 1 t = ''-'' \<or> take 1 t = ''+'' then drop 1 t else t)"
  note used' = used [folded t_def, folded u_def]
  have port_u: "port_of s = (if u \<noteq> [] \<and> (\<forall>c \<in> set u. is_digit c) \<and> int (read_base 10 u) \<le> 65535 \<and>
      (take 1 t = ''-'' \<longrightarrow> int (read_base 10 u) = 0) then Some (int (read_base 10 u)) else None)"
    unfolding port_of_def Let_def u_def t_def by (rule refl)
  obtain c where c: "mem_get p (of_nat used) = Some c" "c = NUL \<longleftrightarrow> used = length s"
    using nul_at [OF assms(1) used(1) assms(2)] by blast
  have port: "(if used = 0 \<or> c \<noteq> NUL \<or> erange \<or> v < 0 \<or> v > 65535 then None else Some v) = port_of s"
  proof (cases "used = 0 \<or> c \<noteq> NUL")
    case True
    then have "\<not> (u \<noteq> [] \<and> (\<forall>c \<in> set u. is_digit c))"
      using used'(2,3) c(2) by (metis takeWhile_eq_all_conv)
    then show ?thesis using True unfolding port_u by auto
  next
    case False
    then have u: "\<forall>c \<in> set u. is_digit c" "used \<noteq> 0" using used'(3) c(2) by blast+
    then have tw: "takeWhile is_digit u = u" "u \<noteq> []" using used'(2) by (auto simp: takeWhile_eq_all_conv)
    define w where "w = int (read_base 10 u)"
    have v: "v = max (- (2 ^ 63)) (min (2 ^ 63 - 1) (if take 1 t = ''-'' then - w else w))" "0 \<le> w"
      using used'(4) u(2) unfolding tw w_def Let_def by simp_all
    have ps: "port_of s = (if w \<le> 65535 \<and> (take 1 t = ''-'' \<longrightarrow> w = 0) then Some w else None)"
      using u(1) tw(2) by (simp add: port_u flip: w_def)
    have iff: "v \<ge> 0 \<and> v \<le> 65535 \<longleftrightarrow> w \<le> 65535 \<and> (take 1 t = ''-'' \<longrightarrow> w = 0)" "v \<ge> 0 \<and> v \<le> 65535 \<Longrightarrow> v = w"
      unfolding v(1) using v(2) by (auto simp: max_def min_def split: if_splits)
    have bad: "used = 0 \<or> c \<noteq> NUL \<or> erange \<or> v < 0 \<or> v > 65535 \<longleftrightarrow> \<not> (v \<ge> 0 \<and> v \<le> 65535)"
      using used'(5) False by (metis not_less)
    show ?thesis
    proof (cases "v \<ge> 0 \<and> v \<le> 65535")
      case True
      then have "port_of s = Some v" using ps iff by presburger
      with True bad show ?thesis by presburger
    next
      case False
      then have "port_of s = None" using ps iff(1) by presburger
      with False bad show ?thesis by presburger
    qed
  qed
  obtain q where "snprintf err_buf 0 err_buf_len (''invalid port '' @ [CHR 0x27] @ s @ [CHR 0x27] @ '' (expected 0-65535)'') =
      Some (q, int (length (''invalid port '' @ [CHR 0x27] @ s @ [CHR 0x27] @ '' (expected 0-65535)'')))"
    "length q = length err_buf" "\<exists>m. c_str q = Some m" using snprintf_terminated [OF assms(3,4)] by blast
  with port c(1) st assms(1) show ?thesis
    by (cases "used = 0 \<or> c \<noteq> NUL \<or> erange \<or> v < 0 \<or> v > 65535") (auto simp: parse_port_def)
qed

subsection \<open>One option\<close>

lemma last_arg_snoc: "last_arg c (evs @ [r]) = (if go_c r = c then Some (arg_text r) else last_arg c evs)"
  by (simp add: last_arg_def Let_def)

lemma given_snoc: "given c (evs @ [r]) \<longleftrightarrow> go_c r = c \<or> given c evs"
  by (auto simp: given_def)

lemma log_of_snoc: "log_of (evs @ [r]) =
    (if go_c r = opt_v then log_level_up (log_of evs) else if go_c r = OPT_DEBUG then NS_LOG_DEBUG else log_of evs)"
  by (simp add: log_of_def)

lemma simple_filter_snoc: "simple_filter (evs @ [r]) \<longleftrightarrow>
    go_c r \<in> {OPT_TCP, OPT_UDP, OPT_ICMP, OPT_PORT, OPT_HOST, OPT_SRC, OPT_DST} \<or> simple_filter evs"
  by (auto simp: simple_filter_def given_snoc)

lemmas config_snoc = last_arg_snoc given_snoc log_of_snoc simple_filter_snoc
lemmas config_specs = config_inv_def config_strings_def config_values_def

abbreviation flag_options :: "int list" where
  "flag_options \<equiv> [opt_h, opt_v, OPT_VERSION, OPT_LIST_INTERFACES, OPT_TCP, OPT_UDP, OPT_ICMP, OPT_NO_COLOR, OPT_VERBOSE,
     OPT_QUIET, OPT_STATS, OPT_HEX, OPT_DEBUG]"

abbreviation string_options :: "int list" where
  "string_options \<equiv> [opt_i, opt_r, OPT_HOST, OPT_SRC, OPT_DST, OPT_FILTER, OPT_WRITE, OPT_OUTPUT]"

lemma option_codes:
  "fst ` set option_table = set (flag_options @ string_options @ [OPT_PORT, OPT_FORMAT])"
  "\<forall>c \<in> set (string_options @ [OPT_PORT, OPT_FORMAT]). (c, True) \<in> set option_table"
  by (auto simp: option_table_def short_options_def kLongOptions_def)

lemma option_table_cases:
  assumes "getopt_ok argv r"
  obtains (flag) "go_c r \<in> set flag_options"
    | (str) a where "go_c r \<in> set string_options" "go_optarg r = Some a" "NUL \<in> set a"
    | (port) a where "go_c r = OPT_PORT" "go_optarg r = Some a" "NUL \<in> set a" "length a < 2 ^ 64"
    | (format) a where "go_c r = OPT_FORMAT" "go_optarg r = Some a" "NUL \<in> set a"
    | (unknown) "go_c r = 63" "1 \<le> go_optind r" "go_optind r \<le> int (length argv)"
proof -
  have arg: "\<exists>a. go_optarg r = Some a \<and> NUL \<in> set a \<and> length a < 2 ^ 64"
    if "go_c r \<in> set (string_options @ [OPT_PORT, OPT_FORMAT])"
    using assms option_codes(2) that by (auto simp: getopt_ok_def split: option.splits simp del: set_simps)
  have "go_c r \<in> set flag_options \<or> go_c r \<in> set string_options \<or> go_c r = OPT_PORT \<or> go_c r = OPT_FORMAT \<or> go_c r = 63"
    using assms unfolding getopt_ok_def option_codes(1) by auto
  then show thesis
  proof (elim disjE)
    assume "go_c r \<in> set string_options"
    with arg str show thesis by (metis UnCI set_append)
  next
    assume "go_c r = OPT_PORT"
    with arg port show thesis by auto
  next
    assume "go_c r = OPT_FORMAT"
    with arg format show thesis by auto
  next
    assume "go_c r = 63"
    with assms unknown show thesis by (simp add: getopt_ok_def)
  qed (rule flag)
qed

lemma log_level_debug: "log_level_up NS_LOG_DEBUG = NS_LOG_DEBUG"
  by (simp add: log_level_up_def)

lemma config_flag_step:
  assumes "go_c r \<in> set flag_options" "config_inv evs st"
  shows "\<exists>st'. config_option argv r st err_buf n = Some (True, st', err_buf) \<and> config_inv (evs @ [r]) st'"
proof -
  from assms(1) consider "go_c r = opt_h" | "go_c r = opt_v" | "go_c r = OPT_VERSION" | "go_c r = OPT_LIST_INTERFACES"
    | "go_c r = OPT_TCP" | "go_c r = OPT_UDP" | "go_c r = OPT_ICMP" | "go_c r = OPT_NO_COLOR" | "go_c r = OPT_VERBOSE"
    | "go_c r = OPT_QUIET" | "go_c r = OPT_STATS" | "go_c r = OPT_HEX" | "go_c r = OPT_DEBUG" by auto
  then show ?thesis
    using assms(2) by cases (simp_all add: config_option_def config_set_def config_specs config_snoc log_level_debug)
qed

lemma config_string_step:
  assumes "go_c r \<in> set string_options" "go_optarg r = Some a" "NUL \<in> set a" "config_inv evs st"
  shows "\<exists>st'. config_option argv r st err_buf n = Some (True, st', err_buf) \<and> config_inv (evs @ [r]) st'"
proof -
  have arg: "arg_text r = cut_nul a" using assms(2) by (simp add: arg_text_def)
  have "\<forall>f \<in> {cfg_interface, cfg_read_file, cfg_write_file, cfg_output_file, cfg_filter_host, cfg_filter_src,
      cfg_filter_dst, cfg_raw_filter}. length (f (cs_out st)) = 256"
    using assms(4) by (simp add: config_inv_def config_strings_def shows_str_def)
  then have copy: "\<exists>b. copy_str (f (cs_out st)) 256 a = Some b \<and> shows_str b (Some (arg_text r))"
    if "f \<in> {cfg_interface, cfg_read_file, cfg_write_file, cfg_output_file, cfg_filter_host, cfg_filter_src,
      cfg_filter_dst, cfg_raw_filter}" for f
    using copy_str_text [OF _ assms(3)] that unfolding arg by blast
  from assms(1) consider "go_c r = opt_i" | "go_c r = opt_r" | "go_c r = OPT_HOST" | "go_c r = OPT_SRC" | "go_c r = OPT_DST"
    | "go_c r = OPT_FILTER" | "go_c r = OPT_WRITE" | "go_c r = OPT_OUTPUT" by auto
  then show ?thesis
  proof cases
    case 1
    obtain b where "copy_str (cfg_interface (cs_out st)) 256 a = Some b" "shows_str b (Some (arg_text r))"
      using copy [of cfg_interface] by auto
    with 1 assms(2,4) show ?thesis by (simp add: config_option_def config_set_def config_specs config_snoc)
  next
    case 2
    obtain b where "copy_str (cfg_read_file (cs_out st)) 256 a = Some b" "shows_str b (Some (arg_text r))"
      using copy [of cfg_read_file] by auto
    with 2 assms(2,4) show ?thesis by (simp add: config_option_def config_set_def config_specs config_snoc)
  next
    case 3
    obtain b where "copy_str (cfg_filter_host (cs_out st)) 256 a = Some b" "shows_str b (Some (arg_text r))"
      using copy [of cfg_filter_host] by auto
    with 3 assms(2,4) show ?thesis by (simp add: config_option_def config_set_def config_specs config_snoc)
  next
    case 4
    obtain b where "copy_str (cfg_filter_src (cs_out st)) 256 a = Some b" "shows_str b (Some (arg_text r))"
      using copy [of cfg_filter_src] by auto
    with 4 assms(2,4) show ?thesis by (simp add: config_option_def config_set_def config_specs config_snoc)
  next
    case 5
    obtain b where "copy_str (cfg_filter_dst (cs_out st)) 256 a = Some b" "shows_str b (Some (arg_text r))"
      using copy [of cfg_filter_dst] by auto
    with 5 assms(2,4) show ?thesis by (simp add: config_option_def config_set_def config_specs config_snoc)
  next
    case 6
    obtain b where "copy_str (cfg_raw_filter (cs_out st)) 256 a = Some b" "shows_str b (Some (arg_text r))"
      using copy [of cfg_raw_filter] by auto
    with 6 assms(2,4) show ?thesis by (simp add: config_option_def config_set_def config_specs config_snoc)
  next
    case 7
    obtain b where "copy_str (cfg_write_file (cs_out st)) 256 a = Some b" "shows_str b (Some (arg_text r))"
      using copy [of cfg_write_file] by auto
    with 7 assms(2,4) show ?thesis by (simp add: config_option_def config_set_def config_specs config_snoc)
  next
    case 8
    obtain b where "copy_str (cfg_output_file (cs_out st)) 256 a = Some b" "shows_str b (Some (arg_text r))"
      using copy [of cfg_output_file] by auto
    with 8 assms(2,4) show ?thesis by (simp add: config_option_def config_set_def config_specs config_snoc)
  qed
qed

definition message_in :: "cbuf \<Rightarrow> cbuf \<Rightarrow> bool" where
  "message_in old b \<longleftrightarrow> length b = length old \<and> (\<exists>m. c_str b = Some m)"

lemma fail_message:
  assumes "unat n = length err_buf" "0 < length err_buf"
  shows "\<exists>err. fail msg err_buf n st = Some (False, st, err) \<and> message_in err_buf err"
  using snprintf_terminated [OF assms, of msg] by (auto simp: fail_def message_in_def)

lemma config_option_step:
  assumes "getopt_ok argv r" "\<forall>a \<in> set argv. NUL \<in> set a" "config_inv evs st" "unat n = length err_buf" "0 < length err_buf"
  shows "\<exists>st' err. config_option argv r st err_buf n = Some (acceptable r, st', err) \<and>
    (if acceptable r then config_inv (evs @ [r]) st' \<and> err = err_buf else message_in err_buf err)"
  using assms(1)
proof (cases rule: option_table_cases)
  case flag
  moreover from flag have "acceptable r" by (auto simp: acceptable_def)
  ultimately show ?thesis using config_flag_step [OF flag assms(3), of argv err_buf n] by auto
next
  case (str a)
  moreover from str(1) have "acceptable r" by (auto simp: acceptable_def)
  ultimately show ?thesis using config_string_step [OF str assms(3), of argv err_buf n] by auto
next
  case (port a)
  have arg: "arg_text r = cut_nul a" using port(2) by (simp add: arg_text_def)
  obtain err where err: "parse_port a err_buf n = Some (port_of (arg_text r), err)"
    "port_of (arg_text r) = None \<longrightarrow> message_in err_buf err" "port_of (arg_text r) \<noteq> None \<longrightarrow> err = err_buf"
    using parse_port_text [OF c_str_cut [OF port(3)] port(4) assms(4,5)] unfolding arg message_in_def by auto
  show ?thesis
  proof (cases "port_of (arg_text r)")
    case None
    with port(1,2) err show ?thesis by (simp add: config_option_def acceptable_def)
  next
    case (Some v)
    with port(1,2) err assms(3) show ?thesis
      by (simp add: config_option_def config_set_def config_specs config_snoc acceptable_def)
  qed
next
  case (format a)
  have arg: "c_str a = Some (arg_text r)" using format(2,3) by (simp add: arg_text_def c_str_cut)
  have lit: "c_str (literal ''json'') = Some ''json''" "c_str (literal ''text'') = Some ''text''"
    by (simp_all add: c_str_def)
  have cmp: "strcmp a (literal ''json'') = Some (strcmp_str (arg_text r) ''json'')"
    "strcmp a (literal ''text'') = Some (strcmp_str (arg_text r) ''text'')" by (simp_all add: strcmp_def arg lit del: append.simps)
  let ?msg = "quote_msg ''unknown --format value '' (arg_text r) @ quote_msg '' (expected '' ''text'' @ quote_msg '' or '' ''json'' @ '')''"
  obtain err where "fail ?msg err_buf n st = Some (False, st, err)" "message_in err_buf err"
    using fail_message [OF assms(4,5)] by blast
  with format(1,2) arg cmp assms(3) show ?thesis
    by (simp add: config_option_def config_set_def config_specs config_snoc acceptable_def del: append.simps)
next
  case unknown
  have "\<exists>err. config_option argv r st err_buf n = Some (False, st, err) \<and> message_in err_buf err"
  proof (cases "go_optopt r = 0 \<and> 1 < go_optind r")
    case True
    then have "nat (go_optind r - 1) < length argv" using unknown by linarith
    then have "\<exists>s. argv_str argv (go_optind r - 1) = Some s"
      using True unknown assms(2) by (simp add: argv_str_def c_str_def)
    with True unknown(1) fail_message [OF assms(4,5)] show ?thesis by (auto simp: config_option_def)
  qed (use unknown(1) fail_message [OF assms(4,5)] in \<open>auto simp: config_option_def\<close>)
  with unknown(1) show ?thesis by (simp add: acceptable_def) blast
qed

subsection \<open>The whole command line\<close>

lemma config_loop_run:
  assumes "\<forall>r \<in> set rs. getopt_ok argv r" "\<forall>a \<in> set argv. NUL \<in> set a" "config_inv evs st"
    and "unat n = length err_buf" "0 < length err_buf"
  shows "\<exists>st' err. config_loop argv rs st err_buf n = Some ((\<forall>r \<in> set rs. acceptable r), st', err) \<and>
    ((\<forall>r \<in> set rs. acceptable r) \<longrightarrow> config_inv (evs @ rs) st' \<and> err = err_buf) \<and>
    (\<not> (\<forall>r \<in> set rs. acceptable r) \<longrightarrow> message_in err_buf err)"
  using assms(1,3)
proof (induction rs arbitrary: evs st)
  case (Cons r rs)
  then have "getopt_ok argv r" by simp
  from config_option_step [OF this assms(2) Cons.prems(2) assms(4,5)]
  obtain st1 err where 1: "config_option argv r st err_buf n = Some (acceptable r, st1, err)"
    "if acceptable r then config_inv (evs @ [r]) st1 \<and> err = err_buf else message_in err_buf err" by blast
  show ?case
  proof (cases "acceptable r")
    case True
    with 1 have st1: "config_inv (evs @ [r]) st1" "err = err_buf" by simp_all
    with Cons.IH [OF _ st1(1)] Cons.prems(1) True 1(1) show ?thesis by simp
  next
    case False
    with 1 show ?thesis by simp
  qed
qed simp

text \<open>The rules of the command line, once every option is acceptable; the first condition says that no
  other argument is left.\<close>

definition config_rules :: "cbuf list \<Rightarrow> int \<Rightarrow> getopt_ret list \<Rightarrow> bool" where
  "config_rules argv optind evs \<longleftrightarrow> int (length argv) \<le> optind \<and>
     (given opt_h evs \<or> given OPT_VERSION evs \<or>
      \<not> (given opt_i evs \<and> given opt_r evs) \<and> \<not> (given OPT_FILTER evs \<and> simple_filter evs) \<and>
      ((case last_arg OPT_OUTPUT evs of None \<Rightarrow> True | Some s \<Rightarrow> s = []) \<or> last_arg OPT_FORMAT evs = Some ''json'') \<and>
      (given OPT_LIST_INTERFACES evs \<or> given opt_i evs \<or> given opt_r evs))"

definition mode_of :: "getopt_ret list \<Rightarrow> ns_input_mode_t" where
  "mode_of evs = (if given opt_h evs \<or> given OPT_VERSION evs \<or> given OPT_LIST_INTERFACES evs then NS_INPUT_NONE
     else if given opt_i evs then NS_INPUT_LIVE else NS_INPUT_FILE)"

definition config_shows :: "getopt_ret list \<Rightarrow> ns_config_t \<Rightarrow> bool" where
  "config_shows evs g \<longleftrightarrow> config_strings evs g \<and> config_values evs g \<and> cfg_input_mode g = mode_of evs"

lemma first_char:
  assumes "shows_str b a"
  shows "\<exists>c. mem_get b 0 = Some c \<and> (c = NUL \<longleftrightarrow> (case a of None \<Rightarrow> True | Some s \<Rightarrow> s = []))"
proof -
  have b: "c_str b = Some (case a of None \<Rightarrow> [] | Some s \<Rightarrow> take 255 s)" "length b = 256"
    using assms by (simp_all add: shows_str_def)
  from nul_at [OF b(1), of 0] b(2) show ?thesis by (auto split: option.splits)
qed

lemma config_mode [simp]:
  "config_strings evs (g\<lparr> cfg_input_mode := m \<rparr>) = config_strings evs g"
  "config_values evs (g\<lparr> cfg_input_mode := m \<rparr>) = config_values evs g"
  by (simp_all add: config_strings_def config_values_def)

lemma config_check_run:
  assumes "config_inv evs st" "\<forall>a \<in> set argv. NUL \<in> set a" "0 \<le> optind" "unat n = length err_buf" "0 < length err_buf"
  shows "\<exists>st' err. config_check argv optind st err_buf n = Some (config_rules argv optind evs, st', err) \<and>
    (config_rules argv optind evs \<longrightarrow> config_shows evs (cs_out st') \<and> err = err_buf) \<and>
    (\<not> config_rules argv optind evs \<longrightarrow> message_in err_buf err)"
proof -
  let ?g = "cs_out st"
  obtain c where c: "mem_get (cfg_output_file ?g) 0 = Some c"
    "c = NUL \<longleftrightarrow> (case last_arg OPT_OUTPUT evs of None \<Rightarrow> True | Some s \<Rightarrow> s = [])"
    using first_char [of "cfg_output_file ?g" "last_arg OPT_OUTPUT evs"] assms(1)
    by (auto simp: config_inv_def config_strings_def)
  have v: "cfg_show_help ?g = given opt_h evs" "cfg_show_version ?g = given OPT_VERSION evs"
    "cfg_has_raw_filter ?g = given OPT_FILTER evs" "cfg_list_interfaces ?g = given OPT_LIST_INTERFACES evs"
    "cfg_format ?g = NS_FORMAT_JSON \<longleftrightarrow> last_arg OPT_FORMAT evs = Some ''json''"
    "cs_have_interface st = given opt_i evs" "cs_have_read_file st = given opt_r evs"
    "cs_any_simple_filter st = simple_filter evs" "cfg_input_mode ?g = NS_INPUT_NONE"
    using assms(1) by (simp_all add: config_specs)
  have msg: "\<exists>st' err. fail m err_buf n st = Some (False, st', err) \<and> message_in err_buf err" for m
    using fail_message [OF assms(4,5)] by blast
  have arg: "\<exists>s. argv_str argv optind = Some s" if "optind < int (length argv)"
    using that assms(2,3) by (simp add: argv_str_def c_str_def)
  have inv: "config_strings evs ?g" "config_values evs ?g" using assms(1) by (simp_all add: config_inv_def)
  note run = config_check_def config_rules_def config_shows_def mode_of_def config_set_def Let_def
  consider "optind < int (length argv)" | "int (length argv) \<le> optind" "given opt_h evs \<or> given OPT_VERSION evs"
    | "int (length argv) \<le> optind" "\<not> given opt_h evs" "\<not> given OPT_VERSION evs" by linarith
  then show ?thesis
  proof cases
    case 1
    then obtain s where "argv_str argv optind = Some s" using arg by blast
    with 1 show ?thesis by (simp add: run msg)
  next
    case 2
    with v inv show ?thesis by (auto simp: run)
  next
    case 3
    let ?both = "given opt_i evs \<and> given opt_r evs" and ?filters = "given OPT_FILTER evs \<and> simple_filter evs"
    let ?out = "c = NUL \<or> last_arg OPT_FORMAT evs = Some ''json''"
    consider ?both | "\<not> ?both" ?filters | "\<not> ?both" "\<not> ?filters" "\<not> ?out"
      | "\<not> ?both" "\<not> ?filters" ?out "given OPT_LIST_INTERFACES evs \<or> given opt_i evs \<or> given opt_r evs"
      | "\<not> ?both" "\<not> ?filters" ?out "\<not> given OPT_LIST_INTERFACES evs" "\<not> given opt_i evs" "\<not> given opt_r evs" by blast
    then show ?thesis
    proof cases
      case 1
      with 3 v show ?thesis by (simp add: run msg)
    next
      case 2
      with 3 v show ?thesis by (simp add: run msg)
    next
      case c3: 3
      with 3 v c show ?thesis by (simp add: run msg)
    next
      case 4
      with 3 v c inv show ?thesis by (auto simp: run)
    next
      case 5
      with 3 v c show ?thesis by (simp add: run msg)
    qed
  qed
qed

lemma config_inv_start: "config_inv [] \<lparr> cs_out = ns_config_zero\<lparr> cfg_filter_port := -1, cfg_format := NS_FORMAT_TEXT,
    cfg_log_level := NS_LOG_WARN \<rparr>, cs_have_interface = False, cs_have_read_file = False, cs_any_simple_filter = False \<rparr>"
  by (simp add: config_specs ns_config_zero_def shows_str_def c_str_def last_arg_def given_def log_of_def simple_filter_def)

lemma ns_config_parse_run:
  assumes "\<forall>r \<in> set evs. getopt_ok argv r" "\<forall>a \<in> set argv. NUL \<in> set a" "0 \<le> optind"
    and "unat n = length err_buf" "0 < length err_buf"
  defines "ok \<equiv> (\<forall>r \<in> set evs. acceptable r) \<and> config_rules argv optind evs"
  shows "\<exists>g err. ns_config_parse evs optind argv err_buf n = Some (ok, g, err) \<and>
    (ok \<longrightarrow> config_shows evs g \<and> err = err_buf) \<and> (\<not> ok \<longrightarrow> message_in err_buf err)"
proof -
  obtain st err where 1: "config_loop argv evs \<lparr> cs_out = ns_config_zero\<lparr> cfg_filter_port := -1, cfg_format := NS_FORMAT_TEXT,
      cfg_log_level := NS_LOG_WARN \<rparr>, cs_have_interface = False, cs_have_read_file = False, cs_any_simple_filter = False \<rparr>
      err_buf n = Some ((\<forall>r \<in> set evs. acceptable r), st, err)"
    "(\<forall>r \<in> set evs. acceptable r) \<Longrightarrow> config_inv evs st \<and> err = err_buf"
    "\<not> (\<forall>r \<in> set evs. acceptable r) \<Longrightarrow> message_in err_buf err"
    using config_loop_run [OF assms(1,2) config_inv_start assms(4,5)] by auto
  show ?thesis
  proof (cases "\<forall>r \<in> set evs. acceptable r")
    case True
    with 1 config_check_run [of evs st, OF _ assms(2-5)] show ?thesis
      by (fastforce simp: ns_config_parse_def ok_def)
  next
    case False
    with 1 show ?thesis by (auto simp: ns_config_parse_def ok_def)
  qed
qed

subsection \<open>Properties\<close>

text \<open>A port may be preceded by white space and a sign.\<close>

lemma port_lenient: "port_of ('' 80'') = Some 80" "port_of ''+80'' = Some 80" "port_of ''-0'' = Some 0"
  by (simp_all add: port_of_def c_isspace_def is_digit_def read_base_def digit_val_def)


definition sample_options :: "getopt_ret list" where
  "sample_options =
     [\<lparr> go_c = opt_r, go_optarg = Some (literal ''a.pcap''), go_optopt = 0, go_optind = 3 \<rparr>,
      \<lparr> go_c = OPT_PORT, go_optarg = Some (literal ''53''), go_optopt = 0, go_optind = 5 \<rparr>]"

definition sample_argv :: "cbuf list" where
  "sample_argv = map literal [''netscope'', ''-r'', ''a.pcap'', ''--port'', ''53'']"


text \<open>A capture filter of more than 255 characters is accepted and used without its end.\<close>

lemma config_long_filter_cut:
  assumes "nul_free f" "255 < length f" "length f < 2 ^ 60"
  defines "evs \<equiv> [\<lparr> go_c = opt_i, go_optarg = Some (literal ''eth0''), go_optopt = 0, go_optind = 1 \<rparr>,
    \<lparr> go_c = OPT_FILTER, go_optarg = Some (literal f), go_optopt = 0, go_optind = 1 \<rparr>]"
  shows "\<exists>g err. ns_config_parse evs 1 [literal ''netscope''] (replicate 512 NUL) 512 = Some (True, g, err) \<and>
    c_str (cfg_raw_filter g) = Some (take 255 f) \<and> take 255 f \<noteq> f"
proof -
  have codes: "opt_i \<in> fst ` set option_table" "OPT_FILTER \<in> fst ` set option_table" by code_simp+
  have "\<forall>r \<in> set evs. getopt_ok [literal ''netscope''] r"
    using assms(3) codes by (simp add: evs_def getopt_ok_def)
  moreover have "(\<forall>r \<in> set evs. acceptable r) \<and> config_rules [literal ''netscope''] 1 evs"
    by (simp add: evs_def acceptable_def config_rules_def given_def simple_filter_def last_arg_def)
  moreover have "last_arg OPT_FILTER evs = Some f"
    using assms(1) by (simp add: evs_def last_arg_def arg_text_def cut_literal)
  moreover have "length (take 255 f) \<noteq> length f" using assms(2) by simp
  ultimately show ?thesis
    using ns_config_parse_run [of evs "[literal ''netscope'']" 1 512 "replicate 512 NUL"]
    by (auto simp: config_shows_def config_strings_def shows_str_def)
qed

text \<open>A long option without its argument is reported by the low byte of its code.\<close>

lemma missing_argument_message:
  assumes "go_c r = 63" "go_optopt r = OPT_PORT" "unat n = length err_buf" "64 \<le> length err_buf"
  shows "\<exists>err. config_option argv r st err_buf n = Some (False, st, err) \<and>
    c_str err = Some (''unrecognized option or missing argument: '' @ [CHR 0x27, CHR ''-'', CHR 0xED, CHR 0x27])"
proof -
  let ?m = "''unrecognized option or missing argument: '' @ [CHR 0x27, CHR ''-'', CHR 0xED, CHR 0x27]"
  have m: "quote_msg ''unrecognized option or missing argument: '' (''-'' @ [char_of (nat (OPT_PORT mod 256))]) = ?m"
    by (simp add: quote_msg_def) code_simp
  have "\<exists>q r. snprintf err_buf 0 n ?m = Some (q, r) \<and> c_str q = Some ?m"
    using assms(3,4) by (intro snprintf_uncut) simp_all
  with assms(1,2) m show ?thesis by (auto simp: config_option_def fail_def)
qed

end
