(* ===== verification/NS_System.thy ===== *)
theory NS_System
  imports NS_Config
begin

section \<open>log.c and signal_handler.c: the process around the program\<close>

text \<open>
  The state of the process that main.c, capture.c, log.c and signal_handler.c share: what was written
  to the streams, the static variables of log.c and signal_handler.c, and the trace of the calls made
  to libpcap and to the file functions that own a resource. The answers of libpcap and of the
  operating system are parameters of the functions that ask for them; what the program asks, and in
  which order, is in the trace, with the part of the answer that decides what is open. A trace is
  checked by an automaton over the resources: it refuses a call on a handle, a dump file or an output
  file that is not open at that moment, an opening of one that is open already, and the closing of a
  handle whose dump file is still open.
\<close>

type_synonym handle = nat
type_synonym dumper = nat

record pcap_pkthdr =
  hdr_tv_sec :: "64 word"
  hdr_tv_usec :: "64 word"
  hdr_caplen :: u32
  hdr_len :: u32

datatype sys_call =
    Pcap_findalldevs "nat option" | Pcap_freealldevs
  | Pcap_create string "handle option" | Pcap_open_offline string "handle option"
  | Pcap_set_snaplen handle int | Pcap_set_promisc handle int | Pcap_set_timeout handle int
  | Pcap_activate handle int | Pcap_datalink handle | Pcap_geterr handle
  | Pcap_compile handle string int | Pcap_setfilter handle | Pcap_freecode
  | Pcap_dump_open handle string "dumper option" | Pcap_dump dumper pcap_pkthdr bytes | Pcap_dump_close dumper
  | Pcap_loop handle | Pcap_breakloop handle | Pcap_close handle
  | Fopen string bool | Fclose

record world =
  w_calls :: "sys_call list"
  w_stdout :: string
  w_stderr :: string
  w_file :: string
  g_log_level :: ns_log_level_t
  ns_stop_requested :: bool
  g_capture_handle :: "handle option"
  w_handlers :: bool

definition world0 :: world where
  "world0 = \<lparr> w_calls = [], w_stdout = [], w_stderr = [], w_file = [], g_log_level = NS_LOG_WARN,
     ns_stop_requested = False, g_capture_handle = None, w_handlers = False \<rparr>"

definition sys :: "sys_call \<Rightarrow> world \<Rightarrow> world" where
  "sys c w = w\<lparr> w_calls := w_calls w @ [c] \<rparr>"

definition put_stdout :: "string \<Rightarrow> world \<Rightarrow> world" where
  "put_stdout s w = w\<lparr> w_stdout := w_stdout w @ s \<rparr>"

text \<open>The stream packets are printed to: the output file, or standard output.\<close>

definition put_stream :: "bool \<Rightarrow> string \<Rightarrow> world \<Rightarrow> world" where
  "put_stream to_file s w = (if to_file then w\<lparr> w_file := w_file w @ s \<rparr> else put_stdout s w)"

definition put_stderr :: "string \<Rightarrow> world \<Rightarrow> world" where
  "put_stderr s w = w\<lparr> w_stderr := w_stderr w @ s \<rparr>"

subsection \<open>Logging\<close>

definition ns_log_set_level :: "ns_log_level_t \<Rightarrow> world \<Rightarrow> world" where
  "ns_log_set_level level w = w\<lparr> g_log_level := level \<rparr>"

definition level_name :: "ns_log_level_t \<Rightarrow> string" where
  "level_name level = (case level of NS_LOG_ERROR \<Rightarrow> ''ERROR'' | NS_LOG_WARN \<Rightarrow> ''WARN'' | NS_LOG_INFO \<Rightarrow> ''INFO''
     | NS_LOG_DEBUG \<Rightarrow> ''DEBUG'')"

definition level_value :: "ns_log_level_t \<Rightarrow> nat" where
  "level_value level = (case level of NS_LOG_ERROR \<Rightarrow> 0 | NS_LOG_WARN \<Rightarrow> 1 | NS_LOG_INFO \<Rightarrow> 2 | NS_LOG_DEBUG \<Rightarrow> 3)"

text \<open>The message is what the format and its arguments give: \<open>None\<close> when an argument of \<^verbatim>\<open>%s\<close> is a
  null pointer. It is formatted only when the level is shown.\<close>

definition ns_log :: "ns_log_level_t \<Rightarrow> string option \<Rightarrow> world \<Rightarrow> world option" where
  "ns_log level message w =
     (if level_value level > level_value (g_log_level w) then Some w
      else do {
        m \<leftarrow> message;
        Some (put_stderr (''['' @ level_name level @ ''] '' @ m @ NL) w) })"

subsection \<open>Signals\<close>

definition handle_signal :: "world \<Rightarrow> world" where
  "handle_signal w = (
     let w = w\<lparr> ns_stop_requested := True \<rparr> in
     case g_capture_handle w of None \<Rightarrow> w | Some h \<Rightarrow> sys (Pcap_breakloop h) w)"

definition ns_signal_set_capture_handle :: "handle option \<Rightarrow> world \<Rightarrow> world" where
  "ns_signal_set_capture_handle h w = w\<lparr> g_capture_handle := h \<rparr>"

definition ns_install_signal_handlers :: "world \<Rightarrow> world" where
  "ns_install_signal_handlers w = w\<lparr> w_handlers := True \<rparr>"

subsection \<open>Resources\<close>

text \<open>What is open: an interface list, a capture handle (activated or not), a compiled filter, a dump
  file, the output file.\<close>

record resources =
  r_devices :: bool
  r_handle :: "(handle \<times> bool) option"
  r_code :: bool
  r_dumper :: "dumper option"
  r_file :: bool

definition r_none :: resources where
  "r_none = \<lparr> r_devices = False, r_handle = None, r_code = False, r_dumper = None, r_file = False \<rparr>"

definition handle_is :: "resources \<Rightarrow> handle \<Rightarrow> bool \<Rightarrow> bool" where
  "handle_is r h active \<longleftrightarrow> r_handle r = Some (h, active)"

definition resource_step :: "resources \<Rightarrow> sys_call \<Rightarrow> resources option" where
  "resource_step r c = (
     let ok = (\<lambda>b r'. if b then Some r' else None) in
     case c of
       Pcap_findalldevs n \<Rightarrow> ok (\<not> r_devices r) (r\<lparr> r_devices := (n \<noteq> None \<and> n \<noteq> Some 0) \<rparr>)
     | Pcap_freealldevs \<Rightarrow> Some (r\<lparr> r_devices := False \<rparr>)
     | Pcap_create s h \<Rightarrow> ok (r_handle r = None) (r\<lparr> r_handle := map_option (\<lambda>h. (h, False)) h \<rparr>)
     | Pcap_open_offline s h \<Rightarrow> ok (r_handle r = None) (r\<lparr> r_handle := map_option (\<lambda>h. (h, True)) h \<rparr>)
     | Pcap_set_snaplen h i \<Rightarrow> ok (handle_is r h False) r
     | Pcap_set_promisc h i \<Rightarrow> ok (handle_is r h False) r
     | Pcap_set_timeout h i \<Rightarrow> ok (handle_is r h False) r
     | Pcap_activate h rc \<Rightarrow> ok (handle_is r h False) (r\<lparr> r_handle := Some (h, 0 \<le> rc) \<rparr>)
     | Pcap_datalink h \<Rightarrow> ok (handle_is r h True) r
     | Pcap_geterr h \<Rightarrow> ok (map_option fst (r_handle r) = Some h) r
     | Pcap_compile h s rc \<Rightarrow> ok (handle_is r h True \<and> \<not> r_code r) (r\<lparr> r_code := (rc = 0) \<rparr>)
     | Pcap_setfilter h \<Rightarrow> ok (handle_is r h True \<and> r_code r) r
     | Pcap_freecode \<Rightarrow> ok (r_code r) (r\<lparr> r_code := False \<rparr>)
     | Pcap_dump_open h s d \<Rightarrow> ok (handle_is r h True \<and> r_dumper r = None) (r\<lparr> r_dumper := d \<rparr>)
     | Pcap_dump d hdr data \<Rightarrow> ok (r_dumper r = Some d) r
     | Pcap_dump_close d \<Rightarrow> ok (r_dumper r = Some d) (r\<lparr> r_dumper := None \<rparr>)
     | Pcap_loop h \<Rightarrow> ok (handle_is r h True) r
     | Pcap_breakloop h \<Rightarrow> ok (handle_is r h True) r
     | Pcap_close h \<Rightarrow> ok (map_option fst (r_handle r) = Some h \<and> r_dumper r = None) (r\<lparr> r_handle := None \<rparr>)
     | Fopen s b \<Rightarrow> ok (\<not> r_file r) (r\<lparr> r_file := b \<rparr>)
     | Fclose \<Rightarrow> ok (r_file r) (r\<lparr> r_file := False \<rparr>))"

fun resource_run :: "resources \<Rightarrow> sys_call list \<Rightarrow> resources option" where
  "resource_run r [] = Some r"
| "resource_run r (c # cs) = do { r \<leftarrow> resource_step r c; resource_run r cs }"

lemma resource_run_append: "resource_run r (cs @ ds) = do { r \<leftarrow> resource_run r cs; resource_run r ds }"
  by (induction cs arbitrary: r) (simp_all split: bind_splits)

text \<open>The resources open in a state of the process.\<close>

definition holds_resources :: "world \<Rightarrow> resources \<Rightarrow> bool" where
  "holds_resources w r \<longleftrightarrow> resource_run r_none (w_calls w) = Some r"

lemma holds_world0: "holds_resources world0 r_none"
  by (simp add: holds_resources_def world0_def)

lemma holds_sys: "holds_resources w r \<Longrightarrow> resource_step r c = Some r' \<Longrightarrow> holds_resources (sys c w) r'"
  by (simp add: holds_resources_def sys_def resource_run_append)

lemma holds_calls: "w_calls w' = w_calls w \<Longrightarrow> holds_resources w' = holds_resources w"
  by (simp add: holds_resources_def fun_eq_iff)

lemma holds_updates [simp]:
  "holds_resources (put_stdout s w) = holds_resources w"
  "holds_resources (put_stderr s w) = holds_resources w"
  "holds_resources (put_stream b s w) = holds_resources w"
  "holds_resources (w\<lparr> w_file := t \<rparr>) = holds_resources w"
  "holds_resources (ns_log_set_level l w) = holds_resources w"
  "holds_resources (w\<lparr> ns_stop_requested := b \<rparr>) = holds_resources w"
  "holds_resources (ns_signal_set_capture_handle h w) = holds_resources w"
  "holds_resources (ns_install_signal_handlers w) = holds_resources w"
  by (simp_all add: holds_resources_def fun_eq_iff put_stdout_def put_stderr_def put_stream_def ns_log_set_level_def
      ns_signal_set_capture_handle_def ns_install_signal_handlers_def)

text \<open>An open capture handle, with its dump file and the output file.\<close>

definition r_open :: "handle \<Rightarrow> bool \<Rightarrow> dumper option \<Rightarrow> bool \<Rightarrow> resources" where
  "r_open h active d f = r_none\<lparr> r_handle := Some (h, active), r_dumper := d, r_file := f \<rparr>"

named_theorems step_rules \<open>the automaton at the states of the program\<close>

lemma steps_setup [step_rules]:
  "resource_step r_none (Pcap_create s (Some h)) = Some (r_open h False None False)"
  "resource_step r_none (Pcap_create s None) = Some r_none"
  "resource_step r_none (Pcap_open_offline s (Some h)) = Some (r_open h True None False)"
  "resource_step r_none (Pcap_open_offline s None) = Some r_none"
  "resource_step (r_open h False None False) (Pcap_set_snaplen h i) = Some (r_open h False None False)"
  "resource_step (r_open h False None False) (Pcap_set_promisc h i) = Some (r_open h False None False)"
  "resource_step (r_open h False None False) (Pcap_set_timeout h i) = Some (r_open h False None False)"
  "resource_step (r_open h False None False) (Pcap_activate h rc) = Some (r_open h (0 \<le> rc) None False)"
  "resource_step (r_open h a d f) (Pcap_geterr h) = Some (r_open h a d f)"
  "resource_step (r_open h True None f) (Pcap_dump_open h s d) = Some (r_open h True d f)"
  "resource_step (r_open h True d False) (Fopen s b) = Some (r_open h True d b)"
  by (simp_all add: resource_step_def r_open_def r_none_def handle_is_def)

lemma steps_run [step_rules]:
  "resource_step (r_open h True d f) (Pcap_datalink h) = Some (r_open h True d f)"
  "resource_step (r_open h True (Some x) f) (Pcap_dump x hdr data) = Some (r_open h True (Some x) f)"
  "resource_step (r_open h True d f) (Pcap_loop h) = Some (r_open h True d f)"
  "resource_step (r_open h True d f) (Pcap_breakloop h) = Some (r_open h True d f)"
  "resource_step (r_open h True (Some x) f) (Pcap_dump_close x) = Some (r_open h True None f)"
  "resource_step (r_open h a None f) (Pcap_close h) = Some (r_none\<lparr> r_file := f \<rparr>)"
  "resource_step (r_none\<lparr> r_file := True \<rparr>) Fclose = Some r_none"
  "r_none\<lparr> r_file := False \<rparr> = r_none"
  by (simp_all add: resource_step_def r_open_def r_none_def handle_is_def)

lemma steps_devices:
  "resource_step r_none (Pcap_findalldevs n) = Some (r_none\<lparr> r_devices := (n \<noteq> None \<and> n \<noteq> Some 0) \<rparr>)"
  "resource_step (r_none\<lparr> r_devices := b \<rparr>) Pcap_freealldevs = Some r_none"
  by (simp_all add: resource_step_def r_none_def)

subsection \<open>Calls before and after the loop\<close>

text \<open>A call that neither runs nor stops the loop nor writes a packet.\<close>

definition setup_call :: "sys_call \<Rightarrow> bool" where
  "setup_call c \<longleftrightarrow> (case c of Pcap_loop h \<Rightarrow> False | Pcap_breakloop h \<Rightarrow> False | Pcap_dump d hdr data \<Rightarrow> False | _ \<Rightarrow> True)"

text \<open>A part of a run that makes only such calls, and may write to standard error.\<close>

definition sets_up :: "world \<Rightarrow> world \<Rightarrow> bool" where
  "sets_up w w' \<longleftrightarrow> (\<exists>cs e. w' = w\<lparr> w_calls := w_calls w @ cs, w_stderr := w_stderr w @ e \<rparr> \<and> list_all setup_call cs)"

lemma sets_upI: "w' = w\<lparr> w_calls := w_calls w @ cs, w_stderr := w_stderr w @ e \<rparr> \<Longrightarrow> list_all setup_call cs \<Longrightarrow> sets_up w w'"
  unfolding sets_up_def by blast

lemma sets_up_refl: "sets_up w w"
  by (rule sets_upI [where cs = "[]" and e = "[]"]) simp_all

lemma sets_up_sys:
  assumes "sets_up w w1" "setup_call c"
  shows "sets_up w (sys c w1)"
proof -
  obtain cs e where "w1 = w\<lparr> w_calls := w_calls w @ cs, w_stderr := w_stderr w @ e \<rparr>" "list_all setup_call cs"
    using assms(1) by (auto simp: sets_up_def)
  then show ?thesis using assms(2) by (intro sets_upI [where cs = "cs @ [c]" and e = e]) (simp_all add: sys_def)
qed

lemma sets_up_stderr:
  assumes "sets_up w w1"
  shows "sets_up w (put_stderr s w1)"
proof -
  obtain cs e where "w1 = w\<lparr> w_calls := w_calls w @ cs, w_stderr := w_stderr w @ e \<rparr>" "list_all setup_call cs"
    using assms(1) by (auto simp: sets_up_def)
  then show ?thesis by (intro sets_upI [where cs = cs and e = "e @ s"]) (simp_all add: put_stderr_def)
qed

lemma sets_up_trans:
  assumes "sets_up w w1" "sets_up w1 w2"
  shows "sets_up w w2"
proof -
  obtain cs e where 1: "w1 = w\<lparr> w_calls := w_calls w @ cs, w_stderr := w_stderr w @ e \<rparr>" "list_all setup_call cs"
    using assms(1) by (auto simp: sets_up_def)
  obtain cs' e' where 2: "w2 = w1\<lparr> w_calls := w_calls w1 @ cs', w_stderr := w_stderr w1 @ e' \<rparr>" "list_all setup_call cs'"
    using assms(2) by (auto simp: sets_up_def)
  show ?thesis using 1 2 by (intro sets_upI [where cs = "cs @ cs'" and e = "e @ e'"]) simp_all
qed

lemma sets_up_same:
  assumes "sets_up w w'"
  shows "w_stdout w' = w_stdout w" "w_file w' = w_file w" "g_log_level w' = g_log_level w"
    "ns_stop_requested w' = ns_stop_requested w" "g_capture_handle w' = g_capture_handle w" "w_handlers w' = w_handlers w"
    "\<exists>cs. w_calls w' = w_calls w @ cs \<and> list_all setup_call cs" "\<exists>e. w_stderr w' = w_stderr w @ e"
  using assms by (auto simp: sets_up_def)

lemma setup_calls [simp]:
  "setup_call (Pcap_findalldevs n)" "setup_call Pcap_freealldevs" "setup_call (Pcap_create s ho)"
  "setup_call (Pcap_open_offline s ho)" "setup_call (Pcap_set_snaplen h i)" "setup_call (Pcap_set_promisc h i)"
  "setup_call (Pcap_set_timeout h i)" "setup_call (Pcap_activate h i)" "setup_call (Pcap_datalink h)"
  "setup_call (Pcap_geterr h)" "setup_call (Pcap_compile h s i)" "setup_call (Pcap_setfilter h)" "setup_call Pcap_freecode"
  "setup_call (Pcap_dump_open h s du)" "setup_call (Pcap_dump_close d)" "setup_call (Pcap_close h)"
  "setup_call (Fopen s b)" "setup_call Fclose"
  by (simp_all add: setup_call_def)

text \<open>A message is written when its level is shown; without one that can be written, nothing may be shown.\<close>

lemma ns_log_sets_up:
  assumes "message = None \<Longrightarrow> level_value (g_log_level w) < level_value level"
  shows "\<exists>w'. ns_log level message w = Some w' \<and> sets_up w w' \<and> w_calls w' = w_calls w"
  using assms sets_up_refl [of w] sets_up_stderr [OF sets_up_refl [of w]]
  by (cases message) (auto simp: ns_log_def put_stderr_def)

lemma ns_log_if:
  "\<exists>w'. (if c then ns_log level (Some m) w else Some w) = Some w' \<and> sets_up w w' \<and> w_calls w' = w_calls w"
  using ns_log_sets_up [of "Some m" w level] sets_up_refl [of w] by (cases c) simp_all

subsection \<open>Signals outside the loop\<close>

lemma handle_signal_outside:
  "g_capture_handle w = None \<Longrightarrow> handle_signal w = w\<lparr> ns_stop_requested := True \<rparr>"
  by (simp add: handle_signal_def)

lemma handle_signals_outside:
  "g_capture_handle w = None \<Longrightarrow>
     (handle_signal ^^ n) w = w\<lparr> ns_stop_requested := (ns_stop_requested w \<or> 0 < n) \<rparr>"
  by (induction n) (simp_all add: handle_signal_outside)

end
