(* ===== verification/NS_Capture.thy ===== *)
theory NS_Capture
  imports NS_System NS_Filter
begin

section \<open>capture.c: interfaces, capture handles, the capture loop\<close>

text \<open>
  libpcap is not part of the program; its answers are the fields of \<open>pcap_env\<close>. Every function of it
  is called at most once in a run (the error text after one failure at most), so an answer is one
  value, or a function of what was asked. A pointer the library returns is an \<open>option\<close>, an error
  text it leaves behind a \<open>string\<close>. What \<open>pcap_loop\<close> does is the list of what happens between
  its call and its return: packets handed to the callback, and signals that arrive in between.
\<close>

datatype sockaddr = Sin u32 | Sin6 bytes | Sother

record pcap_if =
  dev_name :: string
  dev_description :: "string option"
  dev_addresses :: "sockaddr option list"

datatype loop_event = Packet pcap_pkthdr bytes | Interrupt

record pcap_env =
  env_devices :: "cbuf + pcap_if list"
  env_inet_ntop :: "sockaddr \<Rightarrow> string option"
  env_create :: "string \<Rightarrow> string + handle"
  env_activate :: int
  env_statustostr :: "int \<Rightarrow> string"
  env_open_offline :: "string \<Rightarrow> string + handle"
  env_datalink :: int
  env_datalink_name :: "int \<Rightarrow> string option"
  env_compile :: "string \<Rightarrow> int"
  env_setfilter :: int
  env_dump_open :: "string \<Rightarrow> dumper option"
  env_geterr :: string
  env_loop :: "loop_event list"
  env_loop_result :: int

abbreviation NS_CAPTURE_DEFAULT_SNAPLEN :: int where "NS_CAPTURE_DEFAULT_SNAPLEN \<equiv> 262144"
abbreviation NS_CAPTURE_TIMEOUT_MS :: int where "NS_CAPTURE_TIMEOUT_MS \<equiv> 1000"
abbreviation DLT_EN10MB :: int where "DLT_EN10MB \<equiv> 1"

record ns_capture_t =
  cap_handle :: "handle option"
  cap_link_type :: ns_link_type_t
  cap_dumper :: "dumper option"
  cap_next_packet_number :: u64

definition ns_capture_zero :: ns_capture_t where
  "ns_capture_zero = \<lparr> cap_handle = None, cap_link_type = NS_LINK_UNKNOWN, cap_dumper = None, cap_next_packet_number = 0 \<rparr>"

subsection \<open>Interfaces\<close>

fun print_device_addresses :: "'a pcap_env_scheme \<Rightarrow> sockaddr option list \<Rightarrow> string" where
  "print_device_addresses env [] = []"
| "print_device_addresses env (a # as) =
     (case a of
        None \<Rightarrow> []
      | Some (Sin x) \<Rightarrow> (case env_inet_ntop env (Sin x) of Some buf \<Rightarrow> ''     IPv4: '' @ buf @ NL | None \<Rightarrow> [])
      | Some (Sin6 x) \<Rightarrow> (case env_inet_ntop env (Sin6 x) of Some buf \<Rightarrow> ''     IPv6: '' @ buf @ NL | None \<Rightarrow> [])
      | Some Sother \<Rightarrow> []) @ print_device_addresses env as"

fun print_devices :: "'a pcap_env_scheme \<Rightarrow> nat \<Rightarrow> pcap_if list \<Rightarrow> string" where
  "print_devices env index [] = []"
| "print_devices env index (dev # devs) =
     dec index @ ''. '' @ dev_name dev @ NL @
     (case dev_description dev of Some d \<Rightarrow> ''   '' @ d @ NL | None \<Rightarrow> []) @
     (if dev_addresses dev \<noteq> [] then ''   addresses:'' @ NL @ print_device_addresses env (dev_addresses dev) else []) @
     NL @ print_devices env (Suc index) devs"

text \<open>The stream is standard output, as in the only call. \<open>pcap_findalldevs\<close> writes its message into
  the caller's buffer.\<close>

definition ns_capture_list_interfaces :: "'a pcap_env_scheme \<Rightarrow> cbuf \<Rightarrow> world \<Rightarrow> bool \<times> cbuf \<times> world" where
  "ns_capture_list_interfaces env err_buf w = (case env_devices env of
     Inl msg \<Rightarrow> (False, msg, sys (Pcap_findalldevs None) w)
   | Inr devices \<Rightarrow> (
       let w = sys (Pcap_findalldevs (Some (length devices))) w in
       if devices = [] then
         (True, err_buf, put_stdout (''No capture interfaces found.'' @ NL @
            ''hint: capturing usually requires elevated privileges; see README.md'' @ NL) w)
       else
         (True, err_buf, sys Pcap_freealldevs
            (put_stdout (''Available interfaces:'' @ NL @ NL @ print_devices env 1 devices) w))))"

fun device_named :: "pcap_if list \<Rightarrow> string \<Rightarrow> bool" where
  "device_named [] name = False"
| "device_named (dev # devs) name = (if strcmp_str (dev_name dev) name = 0 then True else device_named devs name)"

definition ns_capture_interface_exists :: "'a pcap_env_scheme \<Rightarrow> cbuf \<Rightarrow> world \<Rightarrow> (bool \<times> world) option" where
  "ns_capture_interface_exists env name w = (case env_devices env of
     Inl msg \<Rightarrow> Some (False, sys (Pcap_findalldevs None) w)
   | Inr devices \<Rightarrow> do {
       name \<leftarrow> c_str name;
       Some (device_named devices name, sys Pcap_freealldevs (sys (Pcap_findalldevs (Some (length devices))) w)) })"

subsection \<open>Opening and closing\<close>

definition apply_filter ::
  "'a pcap_env_scheme \<Rightarrow> handle \<Rightarrow> cbuf option \<Rightarrow> cbuf \<Rightarrow> size_t \<Rightarrow> world \<Rightarrow> (bool \<times> cbuf \<times> world) option" where
  "apply_filter env h bpf_filter err_buf err_buf_len w = do {
     given \<leftarrow> non_empty bpf_filter;
     if \<not> given then Some (True, err_buf, w)
     else do {
       bpf_filter \<leftarrow> bpf_filter;
       expr \<leftarrow> c_str bpf_filter;
       let w = sys (Pcap_compile h expr (env_compile env expr)) w;
       if env_compile env expr \<noteq> 0 then do {
         let w = sys (Pcap_geterr h) w;
         (err_buf, _) \<leftarrow> snprintf err_buf 0 err_buf_len (quote_msg ''invalid capture filter '' expr @ '': '' @ env_geterr env);
         Some (False, err_buf, w) }
       else do {
         let w = sys Pcap_freecode (sys (Pcap_setfilter h) w);
         if env_setfilter env \<noteq> 0 then do {
           let w = sys (Pcap_geterr h) w;
           (err_buf, _) \<leftarrow> snprintf err_buf 0 err_buf_len (''failed to apply capture filter: '' @ env_geterr env);
           Some (False, err_buf, w) }
         else Some (True, err_buf, w) } } }"

definition resolve_link_type ::
  "'a pcap_env_scheme \<Rightarrow> handle \<Rightarrow> cbuf \<Rightarrow> size_t \<Rightarrow> world \<Rightarrow> (ns_link_type_t option \<times> cbuf \<times> world) option" where
  "resolve_link_type env h err_buf err_buf_len w = do {
     let dlt = env_datalink env;
     let w = sys (Pcap_datalink h) w;
     w \<leftarrow> ns_log NS_LOG_DEBUG (map_option (\<lambda>n. ''pcap datalink: '' @ n) (env_datalink_name env dlt)) w;
     if dlt \<noteq> DLT_EN10MB then do {
       let name = (case env_datalink_name env dlt of Some n \<Rightarrow> n | None \<Rightarrow> ''unknown'');
       (err_buf, _) \<leftarrow> snprintf err_buf 0 err_buf_len (''unsupported datalink type: '' @ name);
       Some (None, err_buf, w) }
     else Some (Some NS_LINK_ETHERNET, err_buf, w) }"

text \<open>The end of both open functions.\<close>

definition open_rest ::
  "'a pcap_env_scheme \<Rightarrow> handle \<Rightarrow> cbuf option \<Rightarrow> cbuf \<Rightarrow> size_t \<Rightarrow> world \<Rightarrow> (bool \<times> ns_capture_t \<times> cbuf \<times> world) option" where
  "open_rest env h bpf_filter err_buf err_buf_len w = do {
     (link_type, err_buf, w) \<leftarrow> resolve_link_type env h err_buf err_buf_len w;
     (case link_type of
        None \<Rightarrow> Some (False, ns_capture_zero, err_buf, sys (Pcap_close h) w)
      | Some link_type \<Rightarrow> do {
          (ok, err_buf, w) \<leftarrow> apply_filter env h bpf_filter err_buf err_buf_len w;
          if \<not> ok then Some (False, ns_capture_zero, err_buf, sys (Pcap_close h) w)
          else Some (True, ns_capture_zero\<lparr> cap_handle := Some h, cap_link_type := link_type \<rparr>, err_buf, w) }) }"

definition ns_capture_open_live ::
  "'a pcap_env_scheme \<Rightarrow> cbuf \<Rightarrow> cbuf option \<Rightarrow> cbuf \<Rightarrow> size_t \<Rightarrow> world \<Rightarrow> (bool \<times> ns_capture_t \<times> cbuf \<times> world) option" where
  "ns_capture_open_live env interface bpf_filter err_buf err_buf_len w = do {
     name \<leftarrow> c_str interface;
     (case env_create env name of
        Inl errbuf \<Rightarrow> do {
          let w = sys (Pcap_create name None) w;
          (err_buf, _) \<leftarrow> snprintf err_buf 0 err_buf_len (quote_msg ''failed to open interface '' name @ '': '' @ errbuf);
          Some (False, ns_capture_zero, err_buf, w) }
      | Inr h \<Rightarrow> do {
          let w = sys (Pcap_create name (Some h)) w;
          let w = sys (Pcap_set_snaplen h NS_CAPTURE_DEFAULT_SNAPLEN) w;
          let w = sys (Pcap_set_promisc h 1) w;
          let w = sys (Pcap_set_timeout h NS_CAPTURE_TIMEOUT_MS) w;
          let activate_result = env_activate env;
          let w = sys (Pcap_activate h activate_result) w;
          if activate_result < 0 then do {
            let w = sys (Pcap_geterr h) w;
            (err_buf, _) \<leftarrow> snprintf err_buf 0 err_buf_len
               (quote_msg ''failed to activate capture on '' name @ '': '' @ env_geterr env);
            Some (False, ns_capture_zero, err_buf, sys (Pcap_close h) w) }
          else do {
            w \<leftarrow> (if activate_result > 0
                  then ns_log NS_LOG_WARN (Some (quote_msg ''pcap_activate warning on '' name @ '': '' @
                         env_statustostr env activate_result)) w
                  else Some w);
            open_rest env h bpf_filter err_buf err_buf_len w } }) }"

definition ns_capture_open_offline ::
  "'a pcap_env_scheme \<Rightarrow> cbuf \<Rightarrow> cbuf option \<Rightarrow> cbuf \<Rightarrow> size_t \<Rightarrow> world \<Rightarrow> (bool \<times> ns_capture_t \<times> cbuf \<times> world) option" where
  "ns_capture_open_offline env path bpf_filter err_buf err_buf_len w = do {
     name \<leftarrow> c_str path;
     (case env_open_offline env name of
        Inl errbuf \<Rightarrow> do {
          let w = sys (Pcap_open_offline name None) w;
          (err_buf, _) \<leftarrow> snprintf err_buf 0 err_buf_len (quote_msg ''failed to open capture file '' name @ '': '' @ errbuf);
          Some (False, ns_capture_zero, err_buf, w) }
      | Inr h \<Rightarrow> open_rest env h bpf_filter err_buf err_buf_len (sys (Pcap_open_offline name (Some h)) w)) }"

definition ns_capture_open_dump ::
  "'a pcap_env_scheme \<Rightarrow> ns_capture_t \<Rightarrow> cbuf \<Rightarrow> cbuf \<Rightarrow> size_t \<Rightarrow> world \<Rightarrow> (bool \<times> ns_capture_t \<times> cbuf \<times> world) option" where
  "ns_capture_open_dump env cap path err_buf err_buf_len w = do {
     h \<leftarrow> cap_handle cap;
     name \<leftarrow> c_str path;
     let w = sys (Pcap_dump_open h name (env_dump_open env name)) w;
     (case env_dump_open env name of
        None \<Rightarrow> do {
          let w = sys (Pcap_geterr h) w;
          (err_buf, _) \<leftarrow> snprintf err_buf 0 err_buf_len (quote_msg ''failed to open '' name @ '' for writing: '' @ env_geterr env);
          Some (False, cap, err_buf, w) }
      | Some d \<Rightarrow> Some (True, cap\<lparr> cap_dumper := Some d \<rparr>, err_buf, w)) }"

definition ns_capture_close :: "ns_capture_t \<Rightarrow> world \<Rightarrow> ns_capture_t \<times> world" where
  "ns_capture_close cap w = (
     let (cap, w) = (case cap_dumper cap of
           Some d \<Rightarrow> (cap\<lparr> cap_dumper := None \<rparr>, sys (Pcap_dump_close d) w) | None \<Rightarrow> (cap, w));
         (cap, w) = (case cap_handle cap of
           Some h \<Rightarrow> (cap\<lparr> cap_handle := None \<rparr>, sys (Pcap_close h) w) | None \<Rightarrow> (cap, w))
     in (cap, w))"

subsection \<open>The loop\<close>

text \<open>\<open>'c\<close> is what the callback's context points to.\<close>

definition pcap_packet_callback ::
  "(ns_packet_t \<Rightarrow> 'c \<Rightarrow> world \<Rightarrow> ('c \<times> world) option) \<Rightarrow> pcap_pkthdr \<Rightarrow> bytes \<Rightarrow>
     ns_capture_t \<times> 'c \<times> world \<Rightarrow> (ns_capture_t \<times> 'c \<times> world) option" where
  "pcap_packet_callback on_packet header data = (\<lambda>(cap, ctx, w). do {
     let w = (case cap_dumper cap of Some d \<Rightarrow> sys (Pcap_dump d header data) w | None \<Rightarrow> w);
     let ts = \<lparr> ts_seconds = hdr_tv_sec header, ts_microseconds = ucast (hdr_tv_usec header) \<rparr>;
     let cap = cap\<lparr> cap_next_packet_number := cap_next_packet_number cap + 1 \<rparr>;
     pkt \<leftarrow> ns_packet_parse data (ucast (hdr_caplen header)) (ucast (hdr_len header)) ts
       (cap_next_packet_number cap) (cap_link_type cap);
     (ctx, w) \<leftarrow> on_packet pkt ctx w;
     Some (cap, ctx, w) })"

fun pcap_loop_run ::
  "(ns_packet_t \<Rightarrow> 'c \<Rightarrow> world \<Rightarrow> ('c \<times> world) option) \<Rightarrow> loop_event list \<Rightarrow>
     ns_capture_t \<times> 'c \<times> world \<Rightarrow> (ns_capture_t \<times> 'c \<times> world) option" where
  "pcap_loop_run on_packet [] s = Some s"
| "pcap_loop_run on_packet (Packet header data # es) s = do {
     s \<leftarrow> pcap_packet_callback on_packet header data s;
     pcap_loop_run on_packet es s }"
| "pcap_loop_run on_packet (Interrupt # es) (cap, ctx, w) = pcap_loop_run on_packet es (cap, ctx, handle_signal w)"

definition ns_capture_run ::
  "'a pcap_env_scheme \<Rightarrow> ns_capture_t \<Rightarrow> (ns_packet_t \<Rightarrow> 'c \<Rightarrow> world \<Rightarrow> ('c \<times> world) option) \<Rightarrow> 'c \<Rightarrow>
     cbuf \<Rightarrow> size_t \<Rightarrow> world \<Rightarrow> (bool \<times> ns_capture_t \<times> 'c \<times> cbuf \<times> world) option" where
  "ns_capture_run env cap on_packet ctx err_buf err_buf_len w = do {
     let w = ns_signal_set_capture_handle (cap_handle cap) w;
     h \<leftarrow> cap_handle cap;
     let w = sys (Pcap_loop h) w;
     (cap, ctx, w) \<leftarrow> pcap_loop_run on_packet (env_loop env) (cap, ctx, w);
     let w = ns_signal_set_capture_handle None w;
     if env_loop_result env = -1 then do {
       h \<leftarrow> cap_handle cap;
       let w = sys (Pcap_geterr h) w;
       (err_buf, _) \<leftarrow> snprintf err_buf 0 err_buf_len (''capture loop failed: '' @ env_geterr env);
       Some (False, cap, ctx, err_buf, w) }
     else Some (True, cap, ctx, err_buf, w) }"

subsection \<open>What opening a capture does\<close>

text \<open>Only Ethernet is accepted, and a filter that is given has to be accepted by libpcap.\<close>

definition link_and_filter_ok :: "'a pcap_env_scheme \<Rightarrow> string \<Rightarrow> bool" where
  "link_and_filter_ok env expr \<longleftrightarrow> env_datalink env = DLT_EN10MB \<and>
     (expr \<noteq> [] \<longrightarrow> env_compile env expr = 0 \<and> env_setfilter env = 0)"

text \<open>The name of the link type can be shown where it is going to be.\<close>

definition datalink_shown :: "'a pcap_env_scheme \<Rightarrow> ns_log_level_t \<Rightarrow> bool" where
  "datalink_shown env level \<longleftrightarrow> (env_datalink_name env (env_datalink env) = None \<longrightarrow> level \<noteq> NS_LOG_DEBUG)"

definition opened_capture :: "handle \<Rightarrow> ns_capture_t" where
  "opened_capture h = ns_capture_zero\<lparr> cap_handle := Some h, cap_link_type := NS_LINK_ETHERNET \<rparr>"

text \<open>The outcome of a function that reports an error in a buffer: on failure there is a message, and
  nothing but setup happened in between.\<close>

definition reported :: "bool \<Rightarrow> cbuf \<Rightarrow> cbuf \<Rightarrow> bool" where
  "reported ok old err \<longleftrightarrow> length err = length old \<and> (ok \<or> message_in old err)"

lemma reported_message:
  assumes "unat n = length err_buf" "0 < length err_buf"
  shows "\<exists>err k. snprintf err_buf 0 n s = Some (err, k) \<and> reported ok err_buf err"
  using snprintf_terminated [OF assms, of s] by (auto simp: reported_def message_in_def)

lemma reported_refl [simp]: "reported True b b"
  by (simp add: reported_def)

lemma steps_filter:
  "resource_step (r_open h True d f) (Pcap_compile h s rc) = Some ((r_open h True d f)\<lparr> r_code := (rc = 0) \<rparr>)"
  "resource_step ((r_open h True d f)\<lparr> r_code := True \<rparr>) (Pcap_setfilter h) = Some ((r_open h True d f)\<lparr> r_code := True \<rparr>)"
  "resource_step ((r_open h True d f)\<lparr> r_code := True \<rparr>) Pcap_freecode = Some (r_open h True d f)"
  "(r_open h True d f)\<lparr> r_code := False \<rparr> = r_open h True d f"
  by (simp_all add: resource_step_def r_open_def r_none_def handle_is_def)

lemma resolve_link_type_outcome:
  assumes r: "holds_resources w (r_open h True None False)" and n: "unat n = length err_buf" "0 < length err_buf"
    and lvl: "datalink_shown env (g_log_level w)"
  shows "\<exists>err w'. resolve_link_type env h err_buf n w =
      Some (if env_datalink env = DLT_EN10MB then Some NS_LINK_ETHERNET else None, err, w') \<and> sets_up w w' \<and>
    reported (env_datalink env = DLT_EN10MB) err_buf err \<and> holds_resources w' (r_open h True None False)"
proof -
  let ?w = "sys (Pcap_datalink h) w"
  let ?m = "map_option (\<lambda>n. ''pcap datalink: '' @ n) (env_datalink_name env (env_datalink env))"
  have "level_value (g_log_level ?w) < level_value NS_LOG_DEBUG" if "?m = None"
    using that lvl by (cases "g_log_level w") (simp_all add: datalink_shown_def level_value_def sys_def)
  from ns_log_sets_up [OF this] obtain w' where w': "ns_log NS_LOG_DEBUG ?m ?w = Some w'" "sets_up ?w w'" "w_calls w' = w_calls ?w"
    by blast
  have "holds_resources w' (r_open h True None False)"
    using holds_sys [OF r] steps_run(1) holds_calls [OF w'(3)] by simp
  moreover have "sets_up w w'" using sets_up_trans [OF sets_up_sys [OF sets_up_refl] w'(2)] by simp
  moreover obtain err k where "snprintf err_buf 0 n (''unsupported datalink type: '' @
      (case env_datalink_name env (env_datalink env) of Some n \<Rightarrow> n | None \<Rightarrow> ''unknown'')) = Some (err, k)"
    "reported False err_buf err" using reported_message [OF n] by blast
  ultimately show ?thesis
    using w'(1) by (cases "env_datalink env = DLT_EN10MB") (simp_all add: resolve_link_type_def Let_def)
qed

lemma apply_filter_outcome:
  fixes env :: "'a pcap_env_scheme"
  assumes r: "holds_resources w (r_open h True None False)" and n: "unat n = length err_buf" "0 < length err_buf"
    and b: "str_ok (Some b)" "c_str b = Some expr"
  defines "ok \<equiv> expr \<noteq> [] \<longrightarrow> env_compile env expr = 0 \<and> env_setfilter env = 0"
  shows "\<exists>err w'. apply_filter env h (Some b) err_buf n w = Some (ok, err, w') \<and> sets_up w w' \<and>
    reported ok err_buf err \<and> holds_resources w' (r_open h True None False)"
proof -
  have given: "non_empty (Some b) = Some (expr \<noteq> [])" using non_empty_str [OF b(1)] b(2) by (simp add: str_of_def)
  let ?w1 = "sys (Pcap_compile h expr (env_compile env expr)) w"
  let ?w2 = "sys Pcap_freecode (sys (Pcap_setfilter h) ?w1)"
  have s: "sets_up w ?w1" "sets_up w ?w2" "sets_up w (sys (Pcap_geterr h) ?w1)" "sets_up w (sys (Pcap_geterr h) ?w2)"
    by (intro sets_up_sys sets_up_refl; simp)+
  have 1: "holds_resources ?w1 ((r_open h True None False)\<lparr> r_code := (env_compile env expr = 0) \<rparr>)"
    by (rule holds_sys [OF r steps_filter(1)])
  have 2: "holds_resources ?w2 (r_open h True None False)" if "env_compile env expr = 0"
  proof -
    have "holds_resources (sys (Pcap_setfilter h) ?w1) ((r_open h True None False)\<lparr> r_code := True \<rparr>)"
      using holds_sys [OF 1, of "Pcap_setfilter h"] that steps_filter(2) by simp
    then show ?thesis by (rule holds_sys [OF _ steps_filter(3)])
  qed
  have 3: "holds_resources (sys (Pcap_geterr h) ?w1) (r_open h True None False)" if "env_compile env expr \<noteq> 0"
    using holds_sys [OF 1, of "Pcap_geterr h"] that steps_filter(4) steps_setup(9) by simp
  have 4: "holds_resources (sys (Pcap_geterr h) ?w2) (r_open h True None False)" if "env_compile env expr = 0"
    by (rule holds_sys [OF 2 [OF that] steps_setup(9)])
  consider "expr = []" | "expr \<noteq> []" "env_compile env expr \<noteq> 0" | "expr \<noteq> []" "env_compile env expr = 0" by blast
  then show ?thesis
  proof cases
    case 1
    then show ?thesis using r given sets_up_refl by (simp add: apply_filter_def ok_def)
  next
    case 2
    obtain err k where "snprintf err_buf 0 n (quote_msg ''invalid capture filter '' expr @ '': '' @ env_geterr env) = Some (err, k)"
      "reported False err_buf err" using reported_message [OF n] by blast
    with 2 show ?thesis using given b(2) s(3) 3 by (simp add: apply_filter_def ok_def)
  next
    case 3
    obtain err k where "snprintf err_buf 0 n (''failed to apply capture filter: '' @ env_geterr env) = Some (err, k)"
      "reported False err_buf err" using reported_message [OF n] by blast
    with 3 show ?thesis using given b(2) s(2,4) 2 4
      by (cases "env_setfilter env = 0") (simp_all add: apply_filter_def ok_def)
  qed
qed

lemma open_rest_outcome:
  fixes env :: "'a pcap_env_scheme"
  assumes r: "holds_resources w (r_open h True None False)" and n: "unat n = length err_buf" "0 < length err_buf"
    and b: "str_ok (Some b)" "c_str b = Some expr" and lvl: "datalink_shown env (g_log_level w)"
  defines "ok \<equiv> link_and_filter_ok env expr"
  shows "\<exists>err w'. open_rest env h (Some b) err_buf n w = Some (ok, if ok then opened_capture h else ns_capture_zero, err, w') \<and>
    sets_up w w' \<and> reported ok err_buf err \<and> holds_resources w' (if ok then r_open h True None False else r_none)"
proof -
  obtain err w1 where 1: "resolve_link_type env h err_buf n w =
      Some (if env_datalink env = DLT_EN10MB then Some NS_LINK_ETHERNET else None, err, w1)" "sets_up w w1"
    "reported (env_datalink env = DLT_EN10MB) err_buf err" "holds_resources w1 (r_open h True None False)"
    using resolve_link_type_outcome [OF r n lvl] by blast
  have close: "holds_resources (sys (Pcap_close h) w2) r_none" if "holds_resources w2 (r_open h True None False)" for w2
    using holds_sys [OF that, of "Pcap_close h"] by (simp add: step_rules)
  show ?thesis
  proof (cases "env_datalink env = DLT_EN10MB")
    case False
    then show ?thesis
      using 1 close [OF 1(4)] sets_up_sys [OF 1(2)] by (simp add: open_rest_def ok_def link_and_filter_ok_def)
  next
    case True
    have e: "unat n = length err" "0 < length err" using 1(3) n by (simp_all add: reported_def)
    obtain err2 w2 where 2: "apply_filter env h (Some b) err n w1 = Some (ok, err2, w2)" "sets_up w1 w2"
      "reported ok err err2" "holds_resources w2 (r_open h True None False)"
      using apply_filter_outcome [OF 1(4) e b, of env] True unfolding ok_def link_and_filter_ok_def by auto
    have "reported ok err_buf err2" using 1(3) 2(3) by (auto simp: reported_def message_in_def)
    then show ?thesis
      using True 1(1) 2(1,4) close [OF 2(4)] sets_up_trans [OF 1(2) 2(2)] sets_up_sys [of w w2]
      by (cases ok) (simp_all add: open_rest_def opened_capture_def)
  qed
qed

lemma ns_capture_open_offline_outcome:
  fixes env :: "'a pcap_env_scheme"
  assumes r: "holds_resources w r_none" and n: "unat n = length err_buf" "0 < length err_buf"
    and b: "str_ok (Some b)" "c_str b = Some expr" and path: "c_str p = Some path"
    and lvl: "\<not> isl (env_open_offline env path) \<Longrightarrow> datalink_shown env (g_log_level w)"
  defines "ok \<equiv> \<not> isl (env_open_offline env path) \<and> link_and_filter_ok env expr"
  defines "h \<equiv> projr (env_open_offline env path)"
  shows "\<exists>err w'. ns_capture_open_offline env p (Some b) err_buf n w = Some (ok, if ok then opened_capture h else ns_capture_zero, err, w') \<and>
    sets_up w w' \<and> reported ok err_buf err \<and> holds_resources w' (if ok then r_open h True None False else r_none)"
proof (cases "env_open_offline env path")
  case (Inl msg)
  let ?w = "sys (Pcap_open_offline path None) w"
  have "holds_resources ?w r_none" "sets_up w ?w"
    using holds_sys [OF r] sets_up_sys [OF sets_up_refl] by (simp_all add: step_rules)
  moreover obtain err k where "snprintf err_buf 0 n (quote_msg ''failed to open capture file '' path @ '': '' @ msg) = Some (err, k)"
    "reported False err_buf err" using reported_message [OF n] by blast
  ultimately show ?thesis using Inl path by (simp add: ns_capture_open_offline_def ok_def)
next
  case (Inr x)
  let ?w = "sys (Pcap_open_offline path (Some x)) w"
  have w: "holds_resources ?w (r_open x True None False)" "sets_up w ?w"
    using holds_sys [OF r] sets_up_sys [OF sets_up_refl] by (simp_all add: step_rules)
  have "datalink_shown env (g_log_level ?w)" using lvl Inr by (simp add: sys_def)
  from open_rest_outcome [OF w(1) n b this] Inr path sets_up_trans [OF w(2)]
  show ?thesis unfolding ok_def h_def by (fastforce simp: ns_capture_open_offline_def)
qed

lemma ns_capture_open_live_outcome:
  fixes env :: "'a pcap_env_scheme"
  assumes r: "holds_resources w r_none" and n: "unat n = length err_buf" "0 < length err_buf"
    and b: "str_ok (Some b)" "c_str b = Some expr" and i: "c_str interface = Some name"
    and lvl: "\<not> isl (env_create env name) \<Longrightarrow> 0 \<le> env_activate env \<Longrightarrow> datalink_shown env (g_log_level w)"
  defines "ok \<equiv> \<not> isl (env_create env name) \<and> 0 \<le> env_activate env \<and> link_and_filter_ok env expr"
  defines "h \<equiv> projr (env_create env name)"
  shows "\<exists>err w'. ns_capture_open_live env interface (Some b) err_buf n w = Some (ok, if ok then opened_capture h else ns_capture_zero, err, w') \<and>
    sets_up w w' \<and> reported ok err_buf err \<and> holds_resources w' (if ok then r_open h True None False else r_none)"
proof (cases "env_create env name")
  case (Inl msg)
  let ?w = "sys (Pcap_create name None) w"
  have "holds_resources ?w r_none" "sets_up w ?w"
    using holds_sys [OF r] sets_up_sys [OF sets_up_refl] by (simp_all add: step_rules)
  moreover obtain err k where "snprintf err_buf 0 n (quote_msg ''failed to open interface '' name @ '': '' @ msg) = Some (err, k)"
    "reported False err_buf err" using reported_message [OF n] by blast
  ultimately show ?thesis using Inl i by (simp add: ns_capture_open_live_def ok_def)
next
  case (Inr x)
  let ?rc = "env_activate env"
  let ?w0 = "sys (Pcap_set_timeout x NS_CAPTURE_TIMEOUT_MS) (sys (Pcap_set_promisc x 1)
      (sys (Pcap_set_snaplen x NS_CAPTURE_DEFAULT_SNAPLEN) (sys (Pcap_create name (Some x)) w)))"
  let ?w1 = "sys (Pcap_activate x ?rc) ?w0"
  have "holds_resources ?w0 (r_open x False None False)" by (intro holds_sys [OF _ steps_setup(5)] holds_sys [OF _ steps_setup(6)]
      holds_sys [OF _ steps_setup(7)] holds_sys [OF r steps_setup(1)])
  then have w1: "holds_resources ?w1 (r_open x (0 \<le> ?rc) None False)" by (rule holds_sys [OF _ steps_setup(8)])
  have s1: "sets_up w ?w1" by (intro sets_up_sys sets_up_refl; simp)
  show ?thesis
  proof (cases "?rc < 0")
    case True
    let ?w2 = "sys (Pcap_close x) (sys (Pcap_geterr x) ?w1)"
    have "holds_resources ?w2 r_none"
      using holds_sys [OF holds_sys [OF w1 steps_setup(9)] steps_run(6)] by (simp add: step_rules)
    moreover have "sets_up w ?w2" by (intro sets_up_sys sets_up_refl; simp)
    moreover obtain err k where "snprintf err_buf 0 n (quote_msg ''failed to activate capture on '' name @ '': '' @ env_geterr env) = Some (err, k)"
      "reported False err_buf err" using reported_message [OF n] by blast
    ultimately show ?thesis using True Inr i by (simp add: ns_capture_open_live_def ok_def)
  next
    case False
    let ?m = "Some (quote_msg ''pcap_activate warning on '' name @ '': '' @ env_statustostr env ?rc)"
    obtain w2 where w2: "(if ?rc > 0 then ns_log NS_LOG_WARN ?m ?w1 else Some ?w1) = Some w2" "sets_up ?w1 w2" "w_calls w2 = w_calls ?w1"
      using ns_log_if [of "?rc > 0" NS_LOG_WARN _ ?w1] by blast
    have h2: "holds_resources w2 (r_open x True None False)" using w1 holds_calls [OF w2(3)] False by simp
    have "g_log_level w2 = g_log_level w" using sets_up_same(3) [OF w2(2)] by (simp add: sys_def)
    then have "datalink_shown env (g_log_level w2)" using lvl Inr False by simp
    from open_rest_outcome [OF h2 n b this] False Inr i w2(1) sets_up_trans [OF sets_up_trans [OF s1 w2(2)]]
    show ?thesis unfolding ok_def h_def by (fastforce simp: ns_capture_open_live_def)
  qed
qed

lemma ns_capture_open_dump_outcome:
  fixes env :: "'a pcap_env_scheme"
  assumes r: "holds_resources w (r_open h True None False)" and n: "unat n = length err_buf" "0 < length err_buf"
    and cap: "cap_handle cap = Some h" and path: "c_str p = Some path"
  defines "d \<equiv> env_dump_open env path"
  shows "\<exists>err w'. ns_capture_open_dump env cap p err_buf n w = Some (d \<noteq> None, if d = None then cap else cap\<lparr> cap_dumper := d \<rparr>, err, w') \<and>
    sets_up w w' \<and> reported (d \<noteq> None) err_buf err \<and> holds_resources w' (r_open h True d False)"
proof -
  let ?w = "sys (Pcap_dump_open h path d) w"
  have w: "holds_resources ?w (r_open h True d False)" "sets_up w ?w"
    using holds_sys [OF r steps_setup(10)] sets_up_sys [OF sets_up_refl] by simp_all
  then have g: "holds_resources (sys (Pcap_geterr h) ?w) (r_open h True d False)" "sets_up w (sys (Pcap_geterr h) ?w)"
    using holds_sys [OF w(1) steps_setup(9)] sets_up_sys [OF w(2)] by simp_all
  obtain err k where "snprintf err_buf 0 n (quote_msg ''failed to open '' path @ '' for writing: '' @ env_geterr env) = Some (err, k)"
    "reported False err_buf err" using reported_message [OF n] by blast
  with w g cap path show ?thesis
    by (cases d) (simp_all add: ns_capture_open_dump_def d_def [symmetric])
qed

lemma ns_capture_close_outcome:
  assumes r: "holds_resources w (r_open h True d f)" and cap: "cap_handle cap = Some h" "cap_dumper cap = d"
  shows "snd (ns_capture_close cap w) = w\<lparr> w_calls := w_calls w @ (case d of Some x \<Rightarrow> [Pcap_dump_close x] | None \<Rightarrow> []) @ [Pcap_close h] \<rparr>"
    "holds_resources (snd (ns_capture_close cap w)) (r_none\<lparr> r_file := f \<rparr>)"
    "cap_handle (fst (ns_capture_close cap w)) = None" "cap_dumper (fst (ns_capture_close cap w)) = None"
proof -
  show "snd (ns_capture_close cap w) = w\<lparr> w_calls := w_calls w @ (case d of Some x \<Rightarrow> [Pcap_dump_close x] | None \<Rightarrow> []) @ [Pcap_close h] \<rparr>"
    "cap_handle (fst (ns_capture_close cap w)) = None" "cap_dumper (fst (ns_capture_close cap w)) = None"
    using cap by (cases d; simp add: ns_capture_close_def sys_def)+
  show "holds_resources (snd (ns_capture_close cap w)) (r_none\<lparr> r_file := f \<rparr>)"
  proof (cases d)
    case None
    with r cap show ?thesis using holds_sys [OF _ steps_run(6)] by (simp add: ns_capture_close_def)
  next
    case (Some x)
    then have "holds_resources (sys (Pcap_dump_close x) w) (r_open h True None f)" using r holds_sys [OF _ steps_run(5)] by simp
    with Some cap show ?thesis using holds_sys [OF _ steps_run(6)] by (simp add: ns_capture_close_def)
  qed
qed

subsection \<open>What the loop does\<close>

text \<open>The packets handed to the callback, numbered from \<open>n + 1\<close>, and the calls made while the loop runs, with
  the dump file and the handle the signal handler knows.\<close>

definition event_packet :: "ns_link_type_t \<Rightarrow> u64 \<Rightarrow> pcap_pkthdr \<Rightarrow> bytes \<Rightarrow> ns_packet_t option" where
  "event_packet link n header data = ns_packet_parse data (ucast (hdr_caplen header)) (ucast (hdr_len header))
     \<lparr> ts_seconds = hdr_tv_sec header, ts_microseconds = ucast (hdr_tv_usec header) \<rparr> n link"

fun packets_from :: "ns_link_type_t \<Rightarrow> u64 \<Rightarrow> loop_event list \<Rightarrow> ns_packet_t list" where
  "packets_from link n [] = []"
| "packets_from link n (Packet header data # es) = the (event_packet link (n + 1) header data) # packets_from link (n + 1) es"
| "packets_from link n (Interrupt # es) = packets_from link n es"

fun loop_calls :: "dumper option \<Rightarrow> handle option \<Rightarrow> loop_event list \<Rightarrow> sys_call list" where
  "loop_calls d g [] = []"
| "loop_calls d g (Packet header data # es) = (case d of Some x \<Rightarrow> [Pcap_dump x header data] | None \<Rightarrow> []) @ loop_calls d g es"
| "loop_calls d g (Interrupt # es) = (case g of Some h \<Rightarrow> [Pcap_breakloop h] | None \<Rightarrow> []) @ loop_calls d g es"

text \<open>libpcap hands over as many bytes as the header says.\<close>

fun event_sized :: "loop_event \<Rightarrow> bool" where
  "event_sized (Packet header data) = (unat (hdr_caplen header) \<le> length data)"
| "event_sized Interrupt = True"

lemma event_packet_parsed:
  assumes "event_sized (Packet header data)"
  shows "\<exists>p. event_packet link n header data = Some p \<and> decoded p \<and> captured p data \<and> pkt_number p = n \<and>
    pkt_link_type p = link \<and> ts_seconds (pkt_timestamp p) = hdr_tv_sec header"
proof -
  have len: "unat (ucast (hdr_caplen header) :: size_t) = unat (hdr_caplen header)" by (simp add: unat_ucast_up)
  moreover have "unat (hdr_caplen header) < 2 ^ 32" using unsigned_less [of "hdr_caplen header"] by simp
  ultimately have b: "unat (ucast (hdr_caplen header) :: size_t) + 16 \<le> 2 ^ 64" by simp
  have le: "unat (ucast (hdr_caplen header) :: size_t) \<le> length data" using assms len by simp
  from ns_packet_parse_safe [OF le] obtain p where p: "event_packet link n header data = Some p"
    "capture_fields p = (n, \<lparr> ts_seconds = hdr_tv_sec header, ts_microseconds = ucast (hdr_tv_usec header) \<rparr>,
       ucast (hdr_caplen header), ucast (hdr_len header), Some data, link)"
    unfolding event_packet_def by blast
  have "decoded p" using ns_packet_parse_decoded [OF le] p(1) unfolding event_packet_def by blast
  with p le b show ?thesis by (auto simp: capture_fields_def captured_def)
qed

lemma loop_calls_run:
  assumes "resource_run r_none cs = Some (r_open h True d f)"
  shows "resource_run r_none (cs @ loop_calls d (Some h) es) = Some (r_open h True d f)"
proof -
  have "resource_run (r_open h True d f) (loop_calls d (Some h) es) = Some (r_open h True d f)"
    by (induction d "Some h" es rule: loop_calls.induct) (auto simp: step_rules split: option.splits)
  with assms show ?thesis by (simp add: resource_run_append)
qed

text \<open>The contract of a packet callback: on the packets it accepts it is defined, changes its context in a way
  that depends on the context and the packet only, and writes to one stream; it calls nothing of
  libpcap and leaves the signal state alone.\<close>

fun shown_all :: "('c \<Rightarrow> ns_packet_t \<Rightarrow> 'c) \<Rightarrow> ('c \<Rightarrow> ns_packet_t \<Rightarrow> string) \<Rightarrow> 'c \<Rightarrow> ns_packet_t list \<Rightarrow> string" where
  "shown_all after shown c [] = []"
| "shown_all after shown c (p # ps) = shown c p @ shown_all after shown (after c p) ps"

definition looped :: "dumper option \<Rightarrow> loop_event list \<Rightarrow> world \<Rightarrow> world" where
  "looped d es w = w\<lparr> w_calls := w_calls w @ loop_calls d (g_capture_handle w) es,
     ns_stop_requested := (ns_stop_requested w \<or> Interrupt \<in> set es) \<rparr>"

locale packet_sink =
  fixes on_packet :: "ns_packet_t \<Rightarrow> 'c \<Rightarrow> world \<Rightarrow> ('c \<times> world) option"
    and accepts :: "ns_packet_t \<Rightarrow> bool"
    and ready :: "'c \<Rightarrow> bool"
    and after :: "'c \<Rightarrow> ns_packet_t \<Rightarrow> 'c"
    and shown :: "'c \<Rightarrow> ns_packet_t \<Rightarrow> string"
    and to_file :: "'c \<Rightarrow> bool"
  assumes sink_step: "accepts p \<Longrightarrow> ready c \<Longrightarrow> on_packet p c w = Some (after c p, put_stream (to_file c) (shown c p) w)"
    and sink_ready: "accepts p \<Longrightarrow> ready c \<Longrightarrow> ready (after c p)"
    and sink_stream: "accepts p \<Longrightarrow> ready c \<Longrightarrow> to_file (after c p) = to_file c"
begin

lemma sink_loop:
  assumes "\<forall>e \<in> set es. event_sized e" "\<forall>p \<in> set (packets_from (cap_link_type cap) (cap_next_packet_number cap) es). accepts p"
    and "ready c"
  defines "ps \<equiv> packets_from (cap_link_type cap) (cap_next_packet_number cap) es"
  shows "pcap_loop_run on_packet es (cap, c, w) =
     Some (cap\<lparr> cap_next_packet_number := cap_next_packet_number cap + of_nat (length ps) \<rparr>, foldl after c ps,
       put_stream (to_file c) (shown_all after shown c ps) (looped (cap_dumper cap) es w)) \<and> ready (foldl after c ps)"
  using assms(1-3) unfolding ps_def
proof (induction es arbitrary: cap c w)
  case (Cons e es)
  show ?case
  proof (cases e)
    case (Packet header data)
    let ?cap = "cap\<lparr> cap_next_packet_number := cap_next_packet_number cap + 1 \<rparr>"
    let ?w = "case cap_dumper cap of Some d \<Rightarrow> sys (Pcap_dump d header data) w | None \<Rightarrow> w"
    obtain p where p: "event_packet (cap_link_type cap) (cap_next_packet_number cap + 1) header data = Some p"
      using event_packet_parsed [of header data] Cons.prems(1) Packet by fastforce
    then have acc: "accepts p" using Cons.prems(2) Packet by simp
    have cb: "pcap_packet_callback on_packet header data (cap, c, w) =
        Some (?cap, after c p, put_stream (to_file c) (shown c p) ?w)"
      using p sink_step [OF acc Cons.prems(3)] by (simp add: pcap_packet_callback_def event_packet_def Let_def)
    from Cons.IH [of ?cap "after c p" "put_stream (to_file c) (shown c p) ?w"] Cons.prems(1,2) Packet p
      sink_ready [OF acc Cons.prems(3)] sink_stream [OF acc Cons.prems(3)] cb
    show ?thesis
      by (cases "cap_dumper cap") (simp_all add: put_stream_def put_stdout_def looped_def sys_def add.assoc)
  next
    case Interrupt
    with Cons show ?thesis
      by (cases "g_capture_handle w") (simp_all add: put_stream_def put_stdout_def looped_def sys_def handle_signal_def)
  qed
qed (simp add: put_stream_def put_stdout_def looped_def)

lemma sink_run:
  fixes env :: "'a pcap_env_scheme"
  assumes r: "holds_resources w (r_open h True (cap_dumper cap) f)" and n: "unat n = length err_buf" "0 < length err_buf"
    and cap: "cap_handle cap = Some h" and c: "ready c"
    and es: "\<forall>e \<in> set (env_loop env). event_sized e"
      "\<forall>p \<in> set (packets_from (cap_link_type cap) (cap_next_packet_number cap) (env_loop env)). accepts p"
  defines "ps \<equiv> packets_from (cap_link_type cap) (cap_next_packet_number cap) (env_loop env)"
  shows "\<exists>cap' err w'. ns_capture_run env cap on_packet c err_buf n w =
      Some (env_loop_result env \<noteq> -1, cap', foldl after c ps, err, w') \<and>
    cap_handle cap' = Some h \<and> cap_dumper cap' = cap_dumper cap \<and> ready (foldl after c ps) \<and>
    reported (env_loop_result env \<noteq> -1) err_buf err \<and> holds_resources w' (r_open h True (cap_dumper cap) f) \<and>
    w' = put_stream (to_file c) (shown_all after shown c ps)
      (w\<lparr> w_calls := w_calls w @ Pcap_loop h # loop_calls (cap_dumper cap) (Some h) (env_loop env) @
             (if env_loop_result env = -1 then [Pcap_geterr h] else []),
          ns_stop_requested := (ns_stop_requested w \<or> Interrupt \<in> set (env_loop env)), g_capture_handle := None \<rparr>)"
proof -
  let ?w1 = "sys (Pcap_loop h) (ns_signal_set_capture_handle (Some h) w)"
  let ?cap = "cap\<lparr> cap_next_packet_number := cap_next_packet_number cap + of_nat (length ps) \<rparr>"
  let ?w2 = "put_stream (to_file c) (shown_all after shown c ps) (looped (cap_dumper cap) (env_loop env) ?w1)"
  let ?w3 = "ns_signal_set_capture_handle None ?w2"
  have loop: "pcap_loop_run on_packet (env_loop env) (cap, c, ?w1) = Some (?cap, foldl after c ps, ?w2)"
    "ready (foldl after c ps)"
    using sink_loop [OF es c, of ?w1] unfolding ps_def by simp_all
  have "holds_resources ?w1 (r_open h True (cap_dumper cap) f)" using r holds_sys [OF _ steps_run(3)] by simp
  then have r3: "holds_resources ?w3 (r_open h True (cap_dumper cap) f)"
    using loop_calls_run [of "w_calls ?w1" h "cap_dumper cap" f "env_loop env"]
    by (simp add: holds_resources_def looped_def sys_def ns_signal_set_capture_handle_def put_stream_def put_stdout_def)
  then have r4: "holds_resources (sys (Pcap_geterr h) ?w3) (r_open h True (cap_dumper cap) f)"
    by (rule holds_sys [OF _ steps_setup(9)])
  obtain err k where "snprintf err_buf 0 n (''capture loop failed: '' @ env_geterr env) = Some (err, k)"
    "reported False err_buf err" using reported_message [OF n] by blast
  then have "ns_capture_run env cap on_packet c err_buf n w = Some (env_loop_result env \<noteq> -1, ?cap, foldl after c ps,
      if env_loop_result env = -1 then err else err_buf, if env_loop_result env = -1 then sys (Pcap_geterr h) ?w3 else ?w3)"
    "reported (env_loop_result env \<noteq> -1) err_buf (if env_loop_result env = -1 then err else err_buf)"
    using cap loop(1) by (simp_all add: ns_capture_run_def)
  moreover have "(if env_loop_result env = -1 then sys (Pcap_geterr h) ?w3 else ?w3) = put_stream (to_file c) (shown_all after shown c ps)
      (w\<lparr> w_calls := w_calls w @ Pcap_loop h # loop_calls (cap_dumper cap) (Some h) (env_loop env) @
             (if env_loop_result env = -1 then [Pcap_geterr h] else []),
          ns_stop_requested := (ns_stop_requested w \<or> Interrupt \<in> set (env_loop env)), g_capture_handle := None \<rparr>)"
    by (simp add: looped_def sys_def ns_signal_set_capture_handle_def put_stream_def put_stdout_def)
  moreover have "holds_resources (if env_loop_result env = -1 then sys (Pcap_geterr h) ?w3 else ?w3) (r_open h True (cap_dumper cap) f)"
    using r3 r4 by simp
  ultimately show ?thesis using cap loop(2) by (intro exI conjI) (assumption | simp)+
qed

end

end
