(* ===== verification/NS_Main.thy ===== *)
theory NS_Main
  imports NS_Capture
begin

section \<open>main.c: the program\<close>

text \<open>
  \<open>main\<close> as a function from the command line and the answers of its environment to the exit code and
  the final state of the process. The environment adds to libpcap's answers those of the option
  scanner, the operating system (terminals, opening the output file, the monotonic clock, the time
  zone), \<open>qsort\<close>, and the numbers of signals that arrive between the installation of the handlers and
  the start of the capture loop, and after the loop. The local \<open>char\<close> arrays have their sizes.
\<close>

record timespec =
  tv_sec :: "64 word"
  tv_nsec :: "64 word"

record main_env = pcap_env +
  env_getopts :: "getopt_ret list"
  env_optind :: int
  env_isatty :: "bool \<Rightarrow> int"
  env_fopen :: "string \<Rightarrow> bool"
  env_zone :: "int \<Rightarrow> int"
  env_qsort :: "(ns_flow_t \<Rightarrow> ns_flow_t \<Rightarrow> int) \<Rightarrow> ns_flow_t list \<Rightarrow> ns_flow_t list"
  env_clock_start :: timespec
  env_clock_end :: timespec
  env_early_signals :: nat
  env_late_signals :: nat

text \<open>The context of the callback: the statistics; the options and the stream do not change.
  \<open>to_file\<close> says that the stream is the output file and not standard output.\<close>

record ns_main_ctx_t =
  ctx_stats :: ns_stats_t
  ctx_output_opts :: ns_output_options_t
  ctx_to_file :: bool

definition handle_packet :: "(int \<Rightarrow> int) \<Rightarrow> ns_packet_t \<Rightarrow> ns_main_ctx_t \<Rightarrow> world \<Rightarrow> (ns_main_ctx_t \<times> world) option" where
  "handle_packet zone pkt ctx w = do {
     stats \<leftarrow> ns_stats_update (ctx_stats ctx) pkt;
     let ctx = ctx\<lparr> ctx_stats := stats \<rparr>;
     s \<leftarrow> ns_output_packet zone pkt (ctx_output_opts ctx);
     Some (ctx, put_stream (ctx_to_file ctx) s w) }"

definition monotonic_seconds :: "timespec \<Rightarrow> rat" where
  "monotonic_seconds ts =
     dbl (dbl (of_int (sint (tv_sec ts))) + dbl (dbl (of_int (sint (tv_nsec ts))) / 1000000000))"

fun contains :: "string \<Rightarrow> string \<Rightarrow> bool" where
  "contains pat [] = (pat = [])"
| "contains pat (c # s) = (take (length pat) (c # s) = pat \<or> contains pat s)"

definition print_error :: "string \<Rightarrow> cbuf \<Rightarrow> world \<Rightarrow> world option" where
  "print_error program_name message w = do {
     m \<leftarrow> c_str message;
     let w = put_stderr (program_name @ '': '' @ m @ NL) w;
     Some (if contains ''ermission'' m
       then put_stderr (''hint: try running with elevated capture privileges '' @
              ''(see README.md for platform-specific guidance)'' @ NL) w
       else w) }"

text \<open>\<open>print_error(program_name, err_buf); return 1;\<close>\<close>

definition program_name :: string where
  "program_name = ''netscope''"

definition exit_error :: "cbuf \<Rightarrow> world \<Rightarrow> (int \<times> world) option" where
  "exit_error message w = do { w \<leftarrow> print_error program_name message w; Some (1, w) }"

definition main_filter_spec :: "ns_config_t \<Rightarrow> ns_filter_spec_t" where
  "main_filter_spec config = \<lparr> fs_tcp = cfg_filter_tcp config, fs_udp = cfg_filter_udp config,
     fs_icmp = cfg_filter_icmp config, fs_port = cfg_filter_port config, fs_host = Some (cfg_filter_host config),
     fs_src = Some (cfg_filter_src config), fs_dst = Some (cfg_filter_dst config),
     fs_raw = (if cfg_has_raw_filter config then Some (cfg_raw_filter config) else None) \<rparr>"

definition main_output_opts :: "'a main_env_scheme \<Rightarrow> ns_config_t \<Rightarrow> bool \<Rightarrow> ns_output_options_t" where
  "main_output_opts env config to_file = \<lparr>
     opt_color = ns_output_should_use_color (env_isatty env) (cfg_no_color config) to_file,
     opt_verbose = cfg_verbose_output config, opt_quiet = cfg_quiet config, opt_hex = cfg_hex_dump config,
     opt_format = cfg_format config \<rparr>"

text \<open>From the start of the capture to the end of \<open>main\<close>. Signals that arrive before or after the loop are
  handled there.\<close>

definition main_run :: "'a main_env_scheme \<Rightarrow> ns_config_t \<Rightarrow> ns_capture_t \<Rightarrow> bool \<Rightarrow> cbuf \<Rightarrow> world \<Rightarrow> (int \<times> world) option" where
  "main_run env config cap to_file err_buf w = do {
     let output_opts = main_output_opts env config to_file;
     w \<leftarrow> (if cfg_input_mode config = NS_INPUT_LIVE \<and> cfg_format config = NS_FORMAT_TEXT \<and> \<not> cfg_quiet config
           then do {
             interface \<leftarrow> c_str (cfg_interface config);
             Some (put_stdout (NS_NAME @ '' '' @ NS_VERSION_STRING @ NL @ ''Interface: '' @ interface @ NL @
               ''Capture started. Press Ctrl+C to stop.'' @ NL @ NL) w) }
           else Some w);
     let ctx = \<lparr> ctx_stats = ns_stats_init, ctx_output_opts = output_opts, ctx_to_file = to_file \<rparr>;
     let w = ns_install_signal_handlers w;
     let w = (handle_signal ^^ env_early_signals env) w;
     let start_time = monotonic_seconds (env_clock_start env);
     (run_ok, cap, ctx, err_buf, w) \<leftarrow> ns_capture_run env cap (handle_packet (env_zone env)) ctx err_buf 512 w;
     let w = (handle_signal ^^ env_late_signals env) w;
     let end_time = monotonic_seconds (env_clock_end env);
     let (cap, w) = ns_capture_close cap w;
     let w = (if to_file then sys Fclose w else w);
     if \<not> run_ok then exit_error err_buf w
     else do {
       w \<leftarrow> (if cfg_show_stats config \<or> cfg_input_mode config = NS_INPUT_LIVE
             then do {
               s \<leftarrow> ns_stats_print (env_qsort env) (ctx_stats ctx) (dbl (end_time - start_time));
               Some (put_stdout s w) }
             else Some w);
       Some (0, w) } }"

text \<open>Choosing the output stream.\<close>

definition main_stream :: "'a main_env_scheme \<Rightarrow> ns_config_t \<Rightarrow> ns_capture_t \<Rightarrow> cbuf \<Rightarrow> world \<Rightarrow> (int \<times> world) option" where
  "main_stream env config cap err_buf w = do {
     o0 \<leftarrow> mem_get (cfg_output_file config) 0;
     if cfg_format config = NS_FORMAT_JSON \<and> o0 \<noteq> NUL then do {
       path \<leftarrow> c_str (cfg_output_file config);
       let w = sys (Fopen path (env_fopen env path)) w;
       if \<not> env_fopen env path then do {
         (msg, _) \<leftarrow> snprintf (stack_buf 512) 0 512 (quote_msg ''failed to open '' path @ '' for writing'');
         w \<leftarrow> print_error program_name msg w;
         let (cap, w) = ns_capture_close cap w;
         Some (1, w) }
       else main_run env config cap True err_buf (w\<lparr> w_file := [] \<rparr>) }
     else main_run env config cap False err_buf w }"

text \<open>The dump file.\<close>

definition main_dump :: "'a main_env_scheme \<Rightarrow> ns_config_t \<Rightarrow> ns_capture_t \<Rightarrow> cbuf \<Rightarrow> world \<Rightarrow> (int \<times> world) option" where
  "main_dump env config cap err_buf w = do {
     w0 \<leftarrow> mem_get (cfg_write_file config) 0;
     if w0 \<noteq> NUL then do {
       (ok, cap, err_buf, w) \<leftarrow> ns_capture_open_dump env cap (cfg_write_file config) err_buf 512 w;
       if \<not> ok then do {
         w \<leftarrow> print_error program_name err_buf w;
         let (cap, w) = ns_capture_close cap w;
         Some (1, w) }
       else main_stream env config cap err_buf w }
     else main_stream env config cap err_buf w }"

text \<open>From the filter to the open capture.\<close>

definition main_open :: "'a main_env_scheme \<Rightarrow> ns_config_t \<Rightarrow> cbuf \<Rightarrow> world \<Rightarrow> (int \<times> world) option" where
  "main_open env config err_buf w = do {
     (built, bpf_expr) \<leftarrow> ns_filter_build_bpf (main_filter_spec config) (stack_buf 512) 512;
     if \<not> built then exit_error (literal ''capture filter expression is too long'') w
     else do {
       (opened, cap, err_buf, w) \<leftarrow>
         (if cfg_input_mode config = NS_INPUT_LIVE
          then ns_capture_open_live env (cfg_interface config) (Some bpf_expr) err_buf 512 w
          else ns_capture_open_offline env (cfg_read_file config) (Some bpf_expr) err_buf 512 w);
       if \<not> opened then exit_error err_buf w
       else main_dump env config cap err_buf w } }"

definition main :: "'a main_env_scheme \<Rightarrow> cbuf list \<Rightarrow> world \<Rightarrow> (int \<times> world) option" where
  "main env argv w = do {
     (ok, config, err_buf) \<leftarrow> ns_config_parse (env_getopts env) (env_optind env) argv (stack_buf 512) 512;
     if \<not> ok then do {
       w \<leftarrow> print_error program_name err_buf w;
       Some (1, put_stderr (quote_msg ''Try '' (program_name @ '' --help'') @ '' for usage.'' @ NL) w) }
     else if cfg_show_help config then Some (0, put_stdout (ns_config_print_help program_name) w)
     else if cfg_show_version config then Some (0, put_stdout ns_config_print_version w)
     else do {
       let w = ns_log_set_level (cfg_log_level config) w;
       if cfg_list_interfaces config then do {
         let (ok, pcap_err, w) = ns_capture_list_interfaces env (stack_buf 256) w;
         if \<not> ok then exit_error pcap_err w else Some (0, w) }
       else do {
         (exists, w) \<leftarrow> (if cfg_input_mode config = NS_INPUT_LIVE
            then ns_capture_interface_exists env (cfg_interface config) w else Some (True, w));
         if \<not> exists then do {
           name \<leftarrow> c_str (cfg_interface config);
           (msg, _) \<leftarrow> snprintf (stack_buf 512) 0 512 (quote_msg ''interface '' name @ '' does not exist'');
           exit_error msg w }
         else main_open env config err_buf w } } }"

subsection \<open>The callback meets its contract\<close>

text \<open>A packet \<open>handle_packet\<close> can print: decoded from captured bytes, at a time that has a calendar date in
  the local zone and in UTC.\<close>

definition printable_packet :: "(int \<Rightarrow> int) \<Rightarrow> ns_packet_t \<Rightarrow> bool" where
  "printable_packet zone p \<longleftrightarrow> decoded p \<and> (\<exists>raw. captured p raw) \<and>
     localtime_r zone (sint (ts_seconds (pkt_timestamp p))) \<noteq> None \<and> gmtime_r (sint (ts_seconds (pkt_timestamp p))) \<noteq> None"

definition ctx_after :: "ns_main_ctx_t \<Rightarrow> ns_packet_t \<Rightarrow> ns_main_ctx_t" where
  "ctx_after c p = c\<lparr> ctx_stats := the (ns_stats_update (ctx_stats c) p) \<rparr>"

definition ctx_shown :: "(int \<Rightarrow> int) \<Rightarrow> ns_main_ctx_t \<Rightarrow> ns_packet_t \<Rightarrow> string" where
  "ctx_shown zone c p = the (ns_output_packet zone p (ctx_output_opts c))"

lemma printable_output:
  assumes "printable_packet zone p"
  shows "\<exists>s. ns_output_packet zone p opts = Some s"
proof -
  obtain raw tm tm' where p: "decoded p" "captured p raw" "localtime_r zone (sint (ts_seconds (pkt_timestamp p))) = Some tm"
    "gmtime_r (sint (ts_seconds (pkt_timestamp p))) = Some tm'" using assms by (auto simp: printable_packet_def)
  show ?thesis
  proof (cases "opt_format opts")
    case NS_FORMAT_TEXT
    with ns_output_packet_text [OF p(1-3)] show ?thesis by blast
  next
    case NS_FORMAT_JSON
    with print_json_line_text [OF p(1,4)] show ?thesis by (auto simp: ns_output_packet_def)
  qed
qed

interpretation handle_packet: packet_sink "handle_packet zone" "printable_packet zone" "\<lambda>c. flows_inv (ctx_stats c)"
  ctx_after "ctx_shown zone" ctx_to_file for zone
proof unfold_locales
  fix p and c :: ns_main_ctx_t and w
  assume p: "printable_packet zone p" and c: "flows_inv (ctx_stats c)"
  obtain st where st: "ns_stats_update (ctx_stats c) p = Some st" "flows_inv st"
    using ns_stats_update_step [of p "ctx_stats c"] p c by (auto simp: printable_packet_def)
  obtain s where s: "ns_output_packet zone p (ctx_output_opts c) = Some s" using printable_output [OF p] by blast
  show "handle_packet zone p c w = Some (ctx_after c p, put_stream (ctx_to_file c) (ctx_shown zone c p) w)"
    using st(1) s by (simp add: handle_packet_def ctx_after_def ctx_shown_def)
  show "flows_inv (ctx_stats (ctx_after c p))" "ctx_to_file (ctx_after c p) = ctx_to_file c"
    using st by (simp_all add: ctx_after_def)
qed

text \<open>The whole run: the context ends with the statistics of all packets, and the packets are printed one after
  the other.\<close>

lemma ctx_after_all:
  assumes "\<forall>p \<in> set ps. decoded p" "flows_inv (ctx_stats c)"
  shows "foldl ctx_after c ps = c\<lparr> ctx_stats := the (stats_run (ctx_stats c) ps) \<rparr>"
  using assms
proof (induction ps arbitrary: c)
  case (Cons p ps)
  obtain st where st: "ns_stats_update (ctx_stats c) p = Some st" "flows_inv st"
    using ns_stats_update_step [of p "ctx_stats c"] Cons.prems by auto
  with Cons.IH [of "ctx_after c p"] Cons.prems(1) show ?case by (simp add: ctx_after_def)
qed simp

lemma ctx_shown_all:
  "shown_all ctx_after (ctx_shown zone) c ps = concat (map (\<lambda>p. the (ns_output_packet zone p (ctx_output_opts c))) ps)"
  by (induction ps arbitrary: c) (simp_all add: ctx_shown_def ctx_after_def)

end
