(* ===== verification/NS_Main_Run.thy ===== *)
theory NS_Main_Run
  imports NS_Main
begin

section \<open>main.c: whole runs\<close>

text \<open>
  What a run of the program does, for every command line and every answer of libpcap and the operating
  system: how it ends, what it leaves open, what it wrote. The lemmas follow the order of \<open>main\<close> backwards,
  from the capture loop to the command line; each part is shown to hand over to the next in a state the next
  one needs.
\<close>

subsection \<open>A run of the program\<close>

text \<open>What libpcap and the operating system promise for the loop: as many bytes as the header says, times and
  a time zone far below the range of a calendar (a capture file stores 32-bit seconds), and a \<open>qsort\<close> that sorts.\<close>

definition event_dated :: "loop_event \<Rightarrow> bool" where
  "event_dated e \<longleftrightarrow> (case e of Packet header data \<Rightarrow> \<bar>sint (hdr_tv_sec header)\<bar> \<le> 2 ^ 54 | Interrupt \<Rightarrow> True)"

definition loop_ok :: "'a main_env_scheme \<Rightarrow> bool" where
  "loop_ok env \<longleftrightarrow> (\<forall>e \<in> set (env_loop env). event_sized e \<and> event_dated e) \<and> (\<forall>t. \<bar>env_zone env t\<bar> \<le> 2 ^ 54) \<and>
     c_qsort (env_qsort env)"

definition main_packets :: "'a main_env_scheme \<Rightarrow> ns_packet_t list" where
  "main_packets env = packets_from NS_LINK_ETHERNET 0 (env_loop env)"

lemma event_packet_printable:
  assumes "event_sized (Packet header data)" "event_dated (Packet header data)" "\<And>t. \<bar>zone t\<bar> \<le> 2 ^ 54"
  shows "\<exists>p. event_packet link n header data = Some p \<and> printable_packet zone p"
proof -
  let ?t = "sint (hdr_tv_sec header)"
  have t: "\<bar>?t\<bar> \<le> 2 ^ 54" using assms(2) by (simp add: event_dated_def)
  have "- (2 ^ 55) \<le> ?t" "?t \<le> 2 ^ 55" "- (2 ^ 55) \<le> ?t + zone ?t" "?t + zone ?t \<le> 2 ^ 55"
    using t assms(3) [of ?t] by simp_all
  then have "\<exists>tm. gmtime_r ?t = Some tm" "\<exists>tm. localtime_r zone ?t = Some tm"
    using gmtime_r_defined unfolding localtime_r_def by blast+
  with event_packet_parsed [OF assms(1), of link n] show ?thesis by (auto simp: printable_packet_def)
qed

lemma packets_printable:
  assumes "\<forall>e \<in> set es. event_sized e \<and> event_dated e" "\<And>t. \<bar>zone t\<bar> \<le> 2 ^ 54"
  shows "\<forall>p \<in> set (packets_from link n es). printable_packet zone p"
  using assms(1)
proof (induction es arbitrary: n)
  case (Cons e es)
  show ?case
  proof (cases e)
    case (Packet header data)
    with Cons event_packet_printable [where zone = zone, OF _ _ assms(2), of header data link "n + 1"] show ?thesis by auto
  qed (use Cons in simp)
qed simp

definition output_to_file :: "ns_config_t \<Rightarrow> bool" where
  "output_to_file config \<longleftrightarrow> cfg_format config = NS_FORMAT_JSON \<and> c_str (cfg_output_file config) \<noteq> Some []"

text \<open>The text of the packets, in the order in which they were delivered.\<close>

definition printed :: "'a main_env_scheme \<Rightarrow> ns_config_t \<Rightarrow> string" where
  "printed env config = concat (map (\<lambda>p. the (ns_output_packet (env_zone env) p
     (main_output_opts env config (output_to_file config)))) (main_packets env))"

definition capture_seconds :: "'a main_env_scheme \<Rightarrow> rat" where
  "capture_seconds env = dbl (monotonic_seconds (env_clock_end env) - monotonic_seconds (env_clock_start env))"

definition main_stats :: "'a main_env_scheme \<Rightarrow> ns_stats_t" where
  "main_stats env = the (stats_run ns_stats_init (main_packets env))"

definition summary :: "'a main_env_scheme \<Rightarrow> string" where
  "summary env = the (ns_stats_print (env_qsort env) (main_stats env) (capture_seconds env))"

definition wants_summary :: "ns_config_t \<Rightarrow> bool" where
  "wants_summary config \<longleftrightarrow> cfg_show_stats config \<or> cfg_input_mode config = NS_INPUT_LIVE"

definition banner :: "ns_config_t \<Rightarrow> string" where
  "banner config =
     (if cfg_input_mode config = NS_INPUT_LIVE \<and> cfg_format config = NS_FORMAT_TEXT \<and> \<not> cfg_quiet config
      then NS_NAME @ '' '' @ NS_VERSION_STRING @ NL @ ''Interface: '' @ the (c_str (cfg_interface config)) @ NL @
        ''Capture started. Press Ctrl+C to stop.'' @ NL @ NL else [])"

definition loop_failed :: "'a main_env_scheme \<Rightarrow> bool" where
  "loop_failed env \<longleftrightarrow> env_loop_result env = -1"

definition end_calls :: "'a main_env_scheme \<Rightarrow> handle \<Rightarrow> dumper option \<Rightarrow> bool \<Rightarrow> sys_call list" where
  "end_calls env h d f = (if loop_failed env then [Pcap_geterr h] else []) @
     (case d of Some x \<Rightarrow> [Pcap_dump_close x] | None \<Rightarrow> []) @ [Pcap_close h] @ (if f then [Fclose] else [])"

definition run_calls :: "'a main_env_scheme \<Rightarrow> handle \<Rightarrow> dumper option \<Rightarrow> bool \<Rightarrow> sys_call list" where
  "run_calls env h d f = Pcap_loop h # loop_calls d (Some h) (env_loop env) @ end_calls env h d f"

definition complains :: "world \<Rightarrow> world \<Rightarrow> bool" where
  "complains w w' \<longleftrightarrow> (\<exists>e m s. w_stderr w' = w_stderr w @ e @ ''netscope: '' @ m @ NL @ s)"

text \<open>The rest of a run once everything is open.\<close>

definition ran_capture :: "'a main_env_scheme \<Rightarrow> ns_config_t \<Rightarrow> handle \<Rightarrow> dumper option \<Rightarrow> world \<Rightarrow> world \<Rightarrow> bool" where
  "ran_capture env config h d w w' \<longleftrightarrow>
     (\<exists>pre. list_all setup_call pre \<and> w_calls w' = w_calls w @ pre @ run_calls env h d (output_to_file config)) \<and>
     w_stdout w' = w_stdout w @ banner config @ (if output_to_file config then [] else printed env config) @
       (if \<not> loop_failed env \<and> wants_summary config then summary env else []) \<and>
     (output_to_file config \<longrightarrow> w_file w' = printed env config) \<and>
     ns_stop_requested w' = (ns_stop_requested w \<or> 0 < env_early_signals env \<or> Interrupt \<in> set (env_loop env) \<or> 0 < env_late_signals env) \<and>
     (loop_failed env \<longrightarrow> complains w w')"

lemma print_error_outcome:
  assumes "c_str message = Some m"
  shows "\<exists>s. print_error program_name message w = Some (put_stderr (''netscope: '' @ m @ NL @ s) w)"
proof (cases "contains ''ermission'' m")
  case True
  with assms show ?thesis
    by (intro exI [of _ "''hint: try running with elevated capture privileges '' @ ''(see README.md for platform-specific guidance)'' @ NL"])
      (simp add: print_error_def program_name_def put_stderr_def)
next
  case False
  with assms show ?thesis
    by (intro exI [of _ "[]"]) (simp add: print_error_def program_name_def put_stderr_def)
qed

lemma exit_error_outcome:
  assumes "c_str message = Some m"
  shows "\<exists>w'. exit_error message w = Some (1, w') \<and> complains w w' \<and> w' = w\<lparr> w_stderr := w_stderr w' \<rparr>"
proof -
  obtain s where "print_error program_name message w = Some (put_stderr (''netscope: '' @ m @ NL @ s) w)"
    using print_error_outcome [OF assms] by blast
  moreover have "complains w (put_stderr (''netscope: '' @ m @ NL @ s) w)"
    unfolding complains_def by (intro exI [of _ "[]"] exI [of _ m] exI [of _ s]) (simp add: put_stderr_def)
  ultimately show ?thesis by (simp add: exit_error_def) (simp add: put_stderr_def)
qed

lemma complains_later:
  assumes "sets_up w w1" "complains w1 w'"
  shows "complains w w'"
proof -
  obtain e e' m s where "w_stderr w1 = w_stderr w @ e" "w_stderr w' = w_stderr w1 @ e' @ ''netscope: '' @ m @ NL @ s"
    using sets_up_same(8) [OF assms(1)] assms(2) unfolding complains_def by blast
  then show ?thesis unfolding complains_def by (intro exI [of _ "e @ e'"] exI [of _ m] exI [of _ s]) simp
qed

lemma ran_capture_later:
  assumes "sets_up w w1" "ran_capture env config h d w1 w'"
  shows "ran_capture env config h d w w'"
proof -
  obtain cs pre where "w_calls w1 = w_calls w @ cs" "list_all setup_call cs" "list_all setup_call pre"
    "w_calls w' = w_calls w1 @ pre @ run_calls env h d (output_to_file config)"
    using sets_up_same(7) [OF assms(1)] assms(2) unfolding ran_capture_def by blast
  then have "\<exists>pre. list_all setup_call pre \<and> w_calls w' = w_calls w @ pre @ run_calls env h d (output_to_file config)"
    by (intro exI [of _ "cs @ pre"]) simp
  then show ?thesis
    using assms(2) sets_up_same(1,4) [OF assms(1)] complains_later [OF assms(1)] unfolding ran_capture_def by simp
qed

lemma main_banner:
  assumes "c_str (cfg_interface config) = Some name"
  shows "(if cfg_input_mode config = NS_INPUT_LIVE \<and> cfg_format config = NS_FORMAT_TEXT \<and> \<not> cfg_quiet config
      then do {
        interface \<leftarrow> c_str (cfg_interface config);
        Some (put_stdout (NS_NAME @ '' '' @ NS_VERSION_STRING @ NL @ ''Interface: '' @ interface @ NL @
          ''Capture started. Press Ctrl+C to stop.'' @ NL @ NL) w) }
      else Some w) = Some (put_stdout (banner config) w)"
  using assms by (simp add: banner_def put_stdout_def)

text \<open>The packets of a run can be printed and counted, and the summary can be shown.\<close>

lemma loop_ok_packets:
  assumes "loop_ok env"
  shows "\<forall>e \<in> set (env_loop env). event_sized e" "\<forall>p \<in> set (main_packets env). printable_packet (env_zone env) p"
    "\<forall>p \<in> set (main_packets env). decoded p"
  using assms packets_printable [of "env_loop env" "env_zone env" NS_LINK_ETHERNET 0]
  by (simp_all add: loop_ok_def main_packets_def printable_packet_def)

lemma loop_ok_summary:
  assumes "loop_ok env"
  shows "stats_run ns_stats_init (main_packets env) = Some (main_stats env)"
    "ns_stats_print (env_qsort env) (main_stats env) (capture_seconds env) = Some (summary env)"
proof -
  obtain st where st: "stats_run ns_stats_init (main_packets env) = Some st" "flows_inv st"
    using stats_run_counts [OF loop_ok_packets(3) [OF assms] ns_stats_init_inv(1)] by blast
  then show "stats_run ns_stats_init (main_packets env) = Some (main_stats env)" by (simp add: main_stats_def)
  moreover have "c_qsort (env_qsort env)" using assms by (simp add: loop_ok_def)
  ultimately show "ns_stats_print (env_qsort env) (main_stats env) (capture_seconds env) = Some (summary env)"
    using ns_stats_print_text [of "env_qsort env" st] st by (simp add: summary_def)
qed

text \<open>The loop, started with what \<open>main\<close> has prepared.\<close>

lemma main_loop_outcome:
  fixes env :: "'a main_env_scheme"
  assumes ok: "loop_ok env" and r: "holds_resources w (r_open h True d f)" and f: "f = output_to_file config" and n: "length err_buf = 512"
  shows "\<exists>cap' ctx' err w'. ns_capture_run env ((opened_capture h)\<lparr> cap_dumper := d \<rparr>) (handle_packet (env_zone env))
        \<lparr> ctx_stats = ns_stats_init, ctx_output_opts = main_output_opts env config f, ctx_to_file = f \<rparr> err_buf 512 w =
      Some (\<not> loop_failed env, cap', ctx', err, w') \<and>
    cap_handle cap' = Some h \<and> cap_dumper cap' = d \<and> ctx_stats ctx' = main_stats env \<and> reported (\<not> loop_failed env) err_buf err \<and>
    holds_resources w' (r_open h True d f) \<and>
    w' = put_stream f (printed env config) (w\<lparr> w_calls := w_calls w @ Pcap_loop h # loop_calls d (Some h) (env_loop env) @
        (if loop_failed env then [Pcap_geterr h] else []),
      ns_stop_requested := (ns_stop_requested w \<or> Interrupt \<in> set (env_loop env)), g_capture_handle := None \<rparr>)"
proof -
  let ?cap = "(opened_capture h)\<lparr> cap_dumper := d \<rparr>"
  let ?ctx = "\<lparr> ctx_stats = ns_stats_init, ctx_output_opts = main_output_opts env config f, ctx_to_file = f \<rparr>"
  note ps = loop_ok_packets [OF ok]
  have cap: "cap_handle ?cap = Some h" "cap_dumper ?cap = d" "cap_link_type ?cap = NS_LINK_ETHERNET" "cap_next_packet_number ?cap = 0"
    by (simp_all add: opened_capture_def ns_capture_zero_def)
  have n2: "unat (512 :: size_t) = length err_buf" "0 < length err_buf" using n by simp_all
  have r2: "holds_resources w (r_open h True (cap_dumper ?cap) f)" using r cap by simp
  let ?w' = "put_stream f (printed env config) (w\<lparr> w_calls := w_calls w @ Pcap_loop h # loop_calls d (Some h) (env_loop env) @
        (if loop_failed env then [Pcap_geterr h] else []),
      ns_stop_requested := (ns_stop_requested w \<or> Interrupt \<in> set (env_loop env)), g_capture_handle := None \<rparr>)"
  have "flows_inv (ctx_stats ?ctx)" using ns_stats_init_inv by simp
  from handle_packet.sink_run [OF r2 n2 cap(1) this ps(1), of "env_zone env"] ps(2) cap f
  obtain cap' err where "ns_capture_run env ?cap (handle_packet (env_zone env)) ?ctx err_buf 512 w =
      Some (\<not> loop_failed env, cap', foldl ctx_after ?ctx (main_packets env), err, ?w')" "cap_handle cap' = Some h" "cap_dumper cap' = d"
    "reported (\<not> loop_failed env) err_buf err" "holds_resources ?w' (r_open h True d f)"
    by (simp add: main_packets_def ctx_shown_all printed_def loop_failed_def) blast
  moreover have "ctx_stats (foldl ctx_after ?ctx (main_packets env)) = main_stats env"
    using ctx_after_all [OF ps(3), of ?ctx] ns_stats_init_inv(1) by (simp add: main_stats_def)
  ultimately show ?thesis by blast
qed

text \<open>The end of \<open>main\<close>: a message, or the summary.\<close>

lemma main_end_outcome:
  assumes r: "holds_resources w5 r_none" and err: "loop_failed env \<Longrightarrow> \<exists>m. c_str err = Some m"
    and w5: "w_calls w5 = w_calls w @ run_calls env h d (output_to_file config)"
      "w_stdout w5 = w_stdout w @ banner config @ (if output_to_file config then [] else printed env config)"
      "output_to_file config \<Longrightarrow> w_file w5 = printed env config" "w_stderr w5 = w_stderr w"
      "ns_stop_requested w5 = (ns_stop_requested w \<or> 0 < env_early_signals env \<or> Interrupt \<in> set (env_loop env) \<or> 0 < env_late_signals env)"
  shows "\<exists>w'. (if loop_failed env then exit_error err w5
      else Some (0, if wants_summary config then put_stdout (summary env) w5 else w5)) = Some (if loop_failed env then 1 else 0, w') \<and>
    holds_resources w' r_none \<and> ran_capture env config h d w w'"
proof (cases "loop_failed env")
  case True
  with err obtain m where "c_str err = Some m" by blast
  from exit_error_outcome [OF this, of w5] obtain w' where w': "exit_error err w5 = Some (1, w')" "complains w5 w'"
    "w' = w5\<lparr> w_stderr := w_stderr w' \<rparr>" by blast
  have same: "w_calls w' = w_calls w5" "w_stdout w' = w_stdout w5" "w_file w' = w_file w5" "ns_stop_requested w' = ns_stop_requested w5"
    by (subst w'(3); simp)+
  then have "holds_resources w' r_none" using r by (simp add: holds_resources_def)
  moreover have "ran_capture env config h d w w'" unfolding ran_capture_def same
    using True w5 w'(2) by (simp add: complains_def exI [of _ "[]"])
  ultimately show ?thesis using True w'(1) by simp
next
  case False
  let ?w = "if wants_summary config then put_stdout (summary env) w5 else w5"
  have "holds_resources ?w r_none" using r by simp
  moreover have "ran_capture env config h d w ?w" unfolding ran_capture_def
    using False w5 by (simp add: put_stdout_def exI [of _ "[]"])
  ultimately show ?thesis using False by simp
qed

lemma main_run_outcome:
  fixes env :: "'a main_env_scheme"
  assumes ok: "loop_ok env" and r: "holds_resources w (r_open h True d f)" and f: "f = output_to_file config"
    and g: "g_capture_handle w = None" and i: "c_str (cfg_interface config) = Some name" and n: "length err_buf = 512"
    and fresh: "f \<Longrightarrow> w_file w = []"
  shows "\<exists>w'. main_run env config ((opened_capture h)\<lparr> cap_dumper := d \<rparr>) f err_buf w = Some (if loop_failed env then 1 else 0, w') \<and>
    holds_resources w' r_none \<and> ran_capture env config h d w w'"
proof -
  let ?w1 = "ns_install_signal_handlers (put_stdout (banner config) w)"
  define w2 where "w2 = ?w1\<lparr> ns_stop_requested := (ns_stop_requested w \<or> 0 < env_early_signals env) \<rparr>"
  have early: "(handle_signal ^^ env_early_signals env) ?w1 = w2"
    using g by (subst handle_signals_outside) (simp_all add: ns_install_signal_handlers_def put_stdout_def w2_def)
  have "holds_resources w2 (r_open h True d f)" using r by (simp add: w2_def)
  from main_loop_outcome [OF ok this f n] obtain cap' ctx' err w3
    where run: "ns_capture_run env ((opened_capture h)\<lparr> cap_dumper := d \<rparr>) (handle_packet (env_zone env))
        \<lparr> ctx_stats = ns_stats_init, ctx_output_opts = main_output_opts env config f, ctx_to_file = f \<rparr> err_buf 512 w2 =
      Some (\<not> loop_failed env, cap', ctx', err, w3)" "cap_handle cap' = Some h" "cap_dumper cap' = d" "ctx_stats ctx' = main_stats env"
      "reported (\<not> loop_failed env) err_buf err" "holds_resources w3 (r_open h True d f)"
    and w3: "w3 = put_stream f (printed env config) (w2\<lparr> w_calls := w_calls w2 @ Pcap_loop h # loop_calls d (Some h) (env_loop env) @
        (if loop_failed env then [Pcap_geterr h] else []),
      ns_stop_requested := (ns_stop_requested w2 \<or> Interrupt \<in> set (env_loop env)), g_capture_handle := None \<rparr>)" by blast
  define w4 where "w4 = w3\<lparr> ns_stop_requested := (ns_stop_requested w3 \<or> 0 < env_late_signals env) \<rparr>"
  have late: "(handle_signal ^^ env_late_signals env) w3 = w4"
    unfolding w4_def by (rule handle_signals_outside) (simp add: w3 put_stream_def put_stdout_def)
  have w4: "w_calls w4 = w_calls w @ Pcap_loop h # loop_calls d (Some h) (env_loop env) @ (if loop_failed env then [Pcap_geterr h] else [])"
    "w_stdout w4 = w_stdout w @ banner config @ (if f then [] else printed env config)" "f \<Longrightarrow> w_file w4 = printed env config" "w_stderr w4 = w_stderr w"
    "ns_stop_requested w4 = (ns_stop_requested w \<or> 0 < env_early_signals env \<or> Interrupt \<in> set (env_loop env) \<or> 0 < env_late_signals env)"
    using fresh by (simp_all add: w4_def w3 w2_def put_stream_def put_stdout_def ns_install_signal_handlers_def)
  have "holds_resources w4 (r_open h True d f)" using run(6) by (simp add: w4_def)
  note close = ns_capture_close_outcome [OF this run(2,3)]
  define w5 where "w5 = (if f then sys Fclose (snd (ns_capture_close cap' w4)) else snd (ns_capture_close cap' w4))"
  have r5: "holds_resources w5 r_none"
    using close(2) holds_sys [OF close(2), of Fclose] by (cases f) (simp_all add: step_rules w5_def)
  have w5: "w_calls w5 = w_calls w @ run_calls env h d f" "w_stdout w5 = w_stdout w @ banner config @ (if f then [] else printed env config)"
    "f \<Longrightarrow> w_file w5 = printed env config" "w_stderr w5 = w_stderr w"
    "ns_stop_requested w5 = (ns_stop_requested w \<or> 0 < env_early_signals env \<or> Interrupt \<in> set (env_loop env) \<or> 0 < env_late_signals env)"
    using close(1) w4 by (simp_all add: w5_def sys_def run_calls_def end_calls_def)
  have "main_run env config ((opened_capture h)\<lparr> cap_dumper := d \<rparr>) f err_buf w =
      (if loop_failed env then exit_error err w5 else Some (0, if wants_summary config then put_stdout (summary env) w5 else w5))"
    unfolding main_run_def Let_def main_banner [OF i] early Option.bind.bind_lunit run(1)
    using loop_ok_summary(2) [OF ok] by (simp add: late split_beta wants_summary_def run(4) capture_seconds_def w5_def)
  moreover have "\<exists>m. c_str err = Some m" if "loop_failed env" using that run(5) by (simp add: reported_def message_in_def)
  ultimately show ?thesis using main_end_outcome [OF r5 _ w5 [unfolded f]] by simp
qed

text \<open>How a run ends, given what could be opened: everything is closed again; either the capture ran, or there is a
  message and exit code 1.\<close>

definition main_outcome ::
  "'a main_env_scheme \<Rightarrow> ns_config_t \<Rightarrow> (handle \<times> dumper option) option \<Rightarrow> world \<Rightarrow> int \<times> world \<Rightarrow> bool" where
  "main_outcome env config start w res \<longleftrightarrow> holds_resources (snd res) r_none \<and>
     (case start of
        None \<Rightarrow> fst res = 1 \<and> complains w (snd res) \<and> (\<exists>cs. w_calls (snd res) = w_calls w @ cs \<and> list_all setup_call cs) \<and>
          w_stdout (snd res) = w_stdout w
      | Some (h, d) \<Rightarrow> fst res = (if loop_failed env then 1 else 0) \<and> ran_capture env config h d w (snd res))"

lemma main_outcome_later:
  assumes "sets_up w w1" "main_outcome env config start w1 res"
  shows "main_outcome env config start w res"
proof (cases start)
  case None
  obtain cs where "w_calls w1 = w_calls w @ cs" "list_all setup_call cs" using sets_up_same(7) [OF assms(1)] by blast
  with None assms(2) sets_up_same(1) [OF assms(1)] complains_later [OF assms(1), of "snd res"] show ?thesis
    by (auto simp: main_outcome_def)
next
  case (Some x)
  with assms(2) ran_capture_later [OF assms(1), of env config] show ?thesis by (cases x) (simp add: main_outcome_def)
qed

text \<open>Giving up after a message: what is open is closed.\<close>

lemma main_outcome_error:
  assumes "c_str msg = Some m" "holds_resources w r_none"
  shows "\<exists>res. exit_error msg w = Some res \<and> main_outcome env config None w res"
proof -
  obtain w' where w': "exit_error msg w = Some (1, w')" "complains w w'" "w' = w\<lparr> w_stderr := w_stderr w' \<rparr>"
    using exit_error_outcome [OF assms(1)] by blast
  have "w_calls w' = w_calls w" "w_stdout w' = w_stdout w" by (subst w'(3); simp)+
  with w'(1,2) assms(2) show ?thesis by (simp add: main_outcome_def holds_resources_def)
qed

lemma main_outcome_close:
  assumes "c_str msg = Some m" "holds_resources w (r_open h True d False)" "cap_handle cap = Some h" "cap_dumper cap = d"
  shows "\<exists>res. do { w \<leftarrow> print_error program_name msg w; let (cap, w) = ns_capture_close cap w; Some (1, w) } = Some res \<and>
    main_outcome env config None w res"
proof -
  obtain s where s: "print_error program_name msg w = Some (put_stderr (''netscope: '' @ m @ NL @ s) w)"
    using print_error_outcome [OF assms(1)] by blast
  let ?w = "put_stderr (''netscope: '' @ m @ NL @ s) w"
  have "holds_resources ?w (r_open h True d False)" using assms(2) by simp
  note close = ns_capture_close_outcome [OF this assms(3,4)]
  have "complains w (snd (ns_capture_close cap ?w))" unfolding complains_def close(1)
    by (intro exI [of _ "[]"] exI [of _ m] exI [of _ s]) (simp add: put_stderr_def)
  moreover have "\<exists>cs. w_calls (snd (ns_capture_close cap ?w)) = w_calls w @ cs \<and> list_all setup_call cs" unfolding close(1)
    by (intro exI [of _ "(case d of Some x \<Rightarrow> [Pcap_dump_close x] | None \<Rightarrow> []) @ [Pcap_close h]"])
      (simp add: put_stderr_def split: option.splits)
  ultimately show ?thesis
    using s close(1,2) by (simp add: main_outcome_def split_beta put_stderr_def step_rules)
qed

lemma first_nul: "c_str b = Some s \<Longrightarrow> \<exists>c. mem_get b 0 = Some c \<and> (c = NUL \<longleftrightarrow> s = [])"
  using c_str_head [of b s] c_str_nul_free [of b s] by (cases s) (auto simp: nul_free_def)

definition start_stream :: "'a main_env_scheme \<Rightarrow> ns_config_t \<Rightarrow> bool" where
  "start_stream env config \<longleftrightarrow> (output_to_file config \<longrightarrow> env_fopen env (the (c_str (cfg_output_file config))))"

lemma main_stream_outcome:
  fixes env :: "'a main_env_scheme"
  assumes ok: "loop_ok env" and r: "holds_resources w (r_open h True d False)" and g: "g_capture_handle w = None"
    and i: "c_str (cfg_interface config) = Some name" and p: "c_str (cfg_output_file config) = Some path" and n: "length err_buf = 512"
  shows "\<exists>res. main_stream env config ((opened_capture h)\<lparr> cap_dumper := d \<rparr>) err_buf w = Some res \<and>
    main_outcome env config (if start_stream env config then Some (h, d) else None) w res"
proof -
  let ?cap = "(opened_capture h)\<lparr> cap_dumper := d \<rparr>"
  obtain c where c: "mem_get (cfg_output_file config) 0 = Some c" "c = NUL \<longleftrightarrow> path = []" using first_nul [OF p] by blast
  then have f: "output_to_file config \<longleftrightarrow> cfg_format config = NS_FORMAT_JSON \<and> c \<noteq> NUL" using p by (simp add: output_to_file_def)
  show ?thesis
  proof (cases "output_to_file config")
    case False
    with main_run_outcome [OF ok r _ g i n] c f show ?thesis
      by (auto simp: main_stream_def main_outcome_def start_stream_def)
  next
    case True
    let ?w = "sys (Fopen path (env_fopen env path)) w"
    have r1: "holds_resources ?w (r_open h True d (env_fopen env path))" by (rule holds_sys [OF r steps_setup(11)])
    have s: "sets_up w ?w" by (rule sets_up_sys [OF sets_up_refl]) simp
    show ?thesis
    proof (cases "env_fopen env path")
      case opened: True
      have "holds_resources (?w\<lparr> w_file := [] \<rparr>) (r_open h True d True)" using r1 opened by simp
      from main_run_outcome [OF ok this _ _ i n] g True
      obtain w' where w': "main_run env config ?cap True err_buf (?w\<lparr> w_file := [] \<rparr>) = Some (if loop_failed env then 1 else 0, w')"
        "holds_resources w' r_none" "ran_capture env config h d (?w\<lparr> w_file := [] \<rparr>) w'" by (auto simp: sys_def)
      then have "ran_capture env config h d ?w w'" by (simp add: ran_capture_def complains_def)
      with w' True opened f c p s show ?thesis
        by (auto simp: main_stream_def start_stream_def main_outcome_def dest: ran_capture_later)
    next
      case closed: False
      obtain msg k m where msg: "snprintf (stack_buf 512) 0 512 (quote_msg ''failed to open '' path @ '' for writing'') = Some (msg, k)"
        "c_str msg = Some m" using snprintf_terminated [of 512 "stack_buf 512"] by (force simp: stack_buf_def)
      have "cap_handle ?cap = Some h" "cap_dumper ?cap = d" by (simp_all add: opened_capture_def)
      from main_outcome_close [OF msg(2) _ this, of ?w env config] r1 closed
      obtain res where "do { w \<leftarrow> print_error program_name msg ?w; let (cap, w) = ns_capture_close ?cap w; Some (1, w) } = Some res"
        "main_outcome env config None ?w res" by auto
      with msg(1) True closed f c p main_outcome_later [OF s, of env config None res] show ?thesis
        by (simp add: main_stream_def start_stream_def)
    qed
  qed
qed

definition start_dump :: "'a main_env_scheme \<Rightarrow> ns_config_t \<Rightarrow> dumper option option" where
  "start_dump env config = (if c_str (cfg_write_file config) = Some [] then Some None
     else map_option Some (env_dump_open env (the (c_str (cfg_write_file config)))))"

lemma main_dump_outcome:
  fixes env :: "'a main_env_scheme"
  assumes ok: "loop_ok env" and r: "holds_resources w (r_open h True None False)" and g: "g_capture_handle w = None"
    and i: "c_str (cfg_interface config) = Some name" and o: "c_str (cfg_output_file config) = Some opath"
    and p: "c_str (cfg_write_file config) = Some path" and n: "length err_buf = 512"
  shows "\<exists>res. main_dump env config (opened_capture h) err_buf w = Some res \<and>
    main_outcome env config (Option.bind (start_dump env config) (\<lambda>d. if start_stream env config then Some (h, d) else None)) w res"
proof -
  obtain c where c: "mem_get (cfg_write_file config) 0 = Some c" "c = NUL \<longleftrightarrow> path = []" using first_nul [OF p] by blast
  have cap: "cap_handle (opened_capture h) = Some h" "cap_dumper (opened_capture h) = None"
    "(opened_capture h)\<lparr> cap_dumper := None \<rparr> = opened_capture h" by (simp_all add: opened_capture_def ns_capture_zero_def)
  show ?thesis
  proof (cases "path = []")
    case True
    with main_stream_outcome [OF ok r g i o n] c p cap show ?thesis by (simp add: main_dump_def start_dump_def)
  next
    case False
    let ?d = "env_dump_open env path"
    have n2: "unat (512 :: size_t) = length err_buf" "0 < length err_buf" using n by simp_all
    obtain err w1 where d: "ns_capture_open_dump env (opened_capture h) (cfg_write_file config) err_buf 512 w =
        Some (?d \<noteq> None, if ?d = None then opened_capture h else (opened_capture h)\<lparr> cap_dumper := ?d \<rparr>, err, w1)"
      "sets_up w w1" "reported (?d \<noteq> None) err_buf err" "holds_resources w1 (r_open h True ?d False)"
      using ns_capture_open_dump_outcome [OF r n2 cap(1) p, of env] by blast
    have g1: "g_capture_handle w1 = None" "length err = 512" using sets_up_same(5) [OF d(2)] g d(3) n by (simp_all add: reported_def)
    show ?thesis
    proof (cases ?d)
      case None
      then obtain m where m: "c_str err = Some m" using d(3) by (auto simp: reported_def message_in_def)
      have "holds_resources w1 (r_open h True None False)" using d(4) None by simp
      from main_outcome_close [OF m this cap(1,2)] None d(1) c p False main_outcome_later [OF d(2), of env config]
      show ?thesis by (fastforce simp: main_dump_def start_dump_def)
    next
      case (Some x)
      have "holds_resources w1 (r_open h True (Some x) False)" using d(4) Some by simp
      from main_stream_outcome [OF ok this g1(1) i o g1(2)] Some d(1) c p False main_outcome_later [OF d(2), of env config]
      show ?thesis by (fastforce simp: main_dump_def start_dump_def)
    qed
  qed
qed

text \<open>The handle libpcap gives, and whether the program goes on with it.\<close>

definition pcap_handle :: "'a main_env_scheme \<Rightarrow> ns_config_t \<Rightarrow> handle option" where
  "pcap_handle env config =
     (if cfg_input_mode config = NS_INPUT_LIVE
      then (case env_create env (the (c_str (cfg_interface config))) of Inl msg \<Rightarrow> None
            | Inr h \<Rightarrow> if 0 \<le> env_activate env then Some h else None)
      else (case env_open_offline env (the (c_str (cfg_read_file config))) of Inl msg \<Rightarrow> None | Inr h \<Rightarrow> Some h))"

definition start_capture :: "'a main_env_scheme \<Rightarrow> ns_config_t \<Rightarrow> handle option" where
  "start_capture env config = Option.bind (pcap_handle env config)
     (\<lambda>h. if link_and_filter_ok env (filter_text (main_filter_spec config)) then Some h else None)"

text \<open>The handle and the dump file of a run that gets to the capture loop.\<close>

definition main_start :: "'a main_env_scheme \<Rightarrow> ns_config_t \<Rightarrow> (handle \<times> dumper option) option" where
  "main_start env config = Option.bind (start_capture env config) (\<lambda>h. Option.bind (start_dump env config)
     (\<lambda>d. if start_stream env config then Some (h, d) else None))"

text \<open>The strings of an accepted configuration.\<close>

definition config_buffers :: "ns_config_t \<Rightarrow> bool" where
  "config_buffers config \<longleftrightarrow> (\<forall>b \<in> {cfg_interface config, cfg_read_file config, cfg_write_file config, cfg_output_file config,
      cfg_filter_host config, cfg_filter_src config, cfg_filter_dst config, cfg_raw_filter config}. length b = 256 \<and> NUL \<in> set b) \<and>
     cfg_filter_port config < 2 ^ 31"

lemma shows_str_buffer: "shows_str b a \<Longrightarrow> length b = 256 \<and> NUL \<in> set b"
  by (auto simp: shows_str_def c_str_def split: if_splits)

lemma port_of_bound: "port_of s = Some n \<Longrightarrow> n < 2 ^ 31"
  by (auto simp: port_of_def Let_def split: if_splits)

lemma config_shows_buffers:
  assumes "config_shows evs config"
  shows "config_buffers config"
proof -
  have "cfg_filter_port config = (case Option.bind (last_arg OPT_PORT evs) port_of of None \<Rightarrow> -1 | Some n \<Rightarrow> n)"
    using assms by (simp add: config_shows_def config_values_def)
  then have "cfg_filter_port config < 2 ^ 31"
    by (cases "last_arg OPT_PORT evs") (auto dest: port_of_bound split: option.splits)
  then show ?thesis
    using assms unfolding config_buffers_def config_shows_def config_strings_def by (elim conjE) (simp add: shows_str_buffer)
qed

text \<open>With the strings of a configuration the filter always fits its 512 bytes: the error branch of \<open>main\<close> is
  never taken.\<close>

lemma main_filter_built:
  assumes "config_buffers config"
  shows "\<exists>b. ns_filter_build_bpf (main_filter_spec config) (stack_buf 512) 512 = Some (True, b) \<and> str_ok (Some b) \<and>
    c_str b = Some (filter_text (main_filter_spec config))"
proof -
  let ?s = "main_filter_spec config"
  have s: "str_ok (fs_host ?s)" "str_ok (fs_src ?s)" "str_ok (fs_dst ?s)" "str_ok (fs_raw ?s)" "fs_port ?s < 2 ^ 31"
    using assms by (simp_all add: config_buffers_def main_filter_spec_def str_ok_def)
  have "length (str_of (fs_raw ?s)) < 512"
  proof (cases "cfg_has_raw_filter config")
    case True
    have "NUL \<in> set (cfg_raw_filter config)" "length (cfg_raw_filter config) = 256" using assms by (simp_all add: config_buffers_def)
    then obtain t where "c_str (cfg_raw_filter config) = Some t" "length t < 256"
      using c_str_length [of "cfg_raw_filter config"] by (auto simp: c_str_def split: if_splits)
    with True show ?thesis by (simp add: main_filter_spec_def str_of_def)
  qed (simp add: main_filter_spec_def str_of_def)
  then have short: "length (filter_text ?s) < 512" using filter_text_short [OF s(5)] by (simp add: filter_text_def)
  have n: "unat (512 :: size_t) = length (stack_buf 512)" "length (stack_buf 512) < 2 ^ 63" by (simp_all add: stack_buf_def)
  from ns_filter_build_bpf_text [OF n s(1-4)] short
  obtain b where "ns_filter_build_bpf ?s (stack_buf 512) 512 = Some (True, b)" "c_str b = Some (filter_text ?s)" "length b = 512"
    by (auto simp: stack_buf_def)
  then show ?thesis by (auto simp: str_ok_def c_str_def split: if_splits)
qed

lemma main_open_outcome:
  fixes env :: "'a main_env_scheme"
  assumes ok: "loop_ok env" and r: "holds_resources w r_none" and g: "g_capture_handle w = None"
    and config: "config_buffers config" and n: "length err_buf = 512" and lvl: "pcap_handle env config \<noteq> None \<Longrightarrow> datalink_shown env (g_log_level w)"
  shows "\<exists>res. main_open env config err_buf w = Some res \<and> main_outcome env config (main_start env config) w res"
proof -
  obtain name rpath path opath where p: "c_str (cfg_interface config) = Some name" "c_str (cfg_read_file config) = Some rpath"
    "c_str (cfg_write_file config) = Some path" "c_str (cfg_output_file config) = Some opath"
    using config by (simp add: config_buffers_def c_str_cut)
  obtain b where b: "ns_filter_build_bpf (main_filter_spec config) (stack_buf 512) 512 = Some (True, b)" "str_ok (Some b)"
    "c_str b = Some (filter_text (main_filter_spec config))" using main_filter_built [OF config] by blast
  have n2: "unat (512 :: size_t) = length err_buf" "0 < length err_buf" using n by simp_all
  let ?open = "if cfg_input_mode config = NS_INPUT_LIVE then ns_capture_open_live env (cfg_interface config) (Some b) err_buf 512 w
      else ns_capture_open_offline env (cfg_read_file config) (Some b) err_buf 512 w"
  let ?h = "start_capture env config"
  have "\<exists>err w'. ?open = Some (?h \<noteq> None, case ?h of Some h \<Rightarrow> opened_capture h | None \<Rightarrow> ns_capture_zero, err, w') \<and> sets_up w w' \<and>
      reported (?h \<noteq> None) err_buf err \<and> holds_resources w' (case ?h of Some h \<Rightarrow> r_open h True None False | None \<Rightarrow> r_none)"
  proof (cases "cfg_input_mode config = NS_INPUT_LIVE")
    case True
    then have "datalink_shown env (g_log_level w)" if "\<not> isl (env_create env name)" "0 \<le> env_activate env"
      using that lvl p by (cases "env_create env name") (simp_all add: pcap_handle_def)
    from ns_capture_open_live_outcome [OF r n2 b(2,3) p(1) this] True p show ?thesis
      by (cases "env_create env name") (auto simp: start_capture_def pcap_handle_def)
  next
    case False
    then have "datalink_shown env (g_log_level w)" if "\<not> isl (env_open_offline env rpath)"
      using that lvl p by (cases "env_open_offline env rpath") (simp_all add: pcap_handle_def)
    from ns_capture_open_offline_outcome [OF r n2 b(2,3) p(2) this] False p show ?thesis
      by (cases "env_open_offline env rpath") (auto simp: start_capture_def pcap_handle_def)
  qed
  then obtain err w1 where o: "?open = Some (?h \<noteq> None, case ?h of Some h \<Rightarrow> opened_capture h | None \<Rightarrow> ns_capture_zero, err, w1)" "sets_up w w1"
      "reported (?h \<noteq> None) err_buf err" "holds_resources w1 (case ?h of Some h \<Rightarrow> r_open h True None False | None \<Rightarrow> r_none)" by blast
  have main: "main_open env config err_buf w = (if ?h = None then exit_error err w1
      else main_dump env config (opened_capture (the ?h)) err w1)"
    using b(1) o(1) by (cases ?h) (simp_all add: main_open_def)
  show ?thesis
  proof (cases ?h)
    case None
    then obtain m where m: "c_str err = Some m" using o(3) by (auto simp: reported_def message_in_def)
    have "holds_resources w1 r_none" using o(4) None by simp
    from main_outcome_error [OF m this] main None main_outcome_later [OF o(2), of env config]
    show ?thesis by (fastforce simp: main_start_def)
  next
    case (Some h)
    have g1: "holds_resources w1 (r_open h True None False)" "g_capture_handle w1 = None" "length err = 512"
      using sets_up_same(5) [OF o(2)] g o(3,4) n Some by (simp_all add: reported_def)
    from main_dump_outcome [OF ok g1(1,2) p(1,4,3) g1(3)] main Some main_outcome_later [OF o(2), of env config]
    show ?thesis by (fastforce simp: main_start_def)
  qed
qed

subsection \<open>From the command line on\<close>

text \<open>What the environment promises: the option scanner's documented results, terminated arguments, a terminated error
  message, a name for the link type Ethernet (\<^verbatim>\<open>EN10MB\<close>; libpcap may have none for another type), and the loop.\<close>

definition env_ok :: "'a main_env_scheme \<Rightarrow> cbuf list \<Rightarrow> bool" where
  "env_ok env argv \<longleftrightarrow> (\<forall>r \<in> set (env_getopts env). getopt_ok argv r) \<and> (\<forall>a \<in> set argv. NUL \<in> set a) \<and> 0 \<le> env_optind env \<and>
     (\<forall>buf. env_devices env = Inl buf \<longrightarrow> NUL \<in> set buf) \<and> env_datalink_name env DLT_EN10MB \<noteq> None \<and> loop_ok env"

abbreviation main_parse :: "'a main_env_scheme \<Rightarrow> cbuf list \<Rightarrow> (bool \<times> ns_config_t \<times> cbuf) option" where
  "main_parse env argv \<equiv> ns_config_parse (env_getopts env) (env_optind env) argv (stack_buf 512) 512"

definition interface_known :: "'a main_env_scheme \<Rightarrow> ns_config_t \<Rightarrow> bool" where
  "interface_known env config \<longleftrightarrow> (cfg_input_mode config = NS_INPUT_LIVE \<longrightarrow>
     (case env_devices env of Inl msg \<Rightarrow> False | Inr devices \<Rightarrow> the (c_str (cfg_interface config)) \<in> dev_name ` set devices))"

text \<open>A command line that asks for a capture.\<close>

definition capture_asked :: "ns_config_t \<Rightarrow> bool" where
  "capture_asked config \<longleftrightarrow> \<not> cfg_show_help config \<and> \<not> cfg_show_version config \<and> \<not> cfg_list_interfaces config"

text \<open>The run in which the program prints a name that is not there: libpcap gives a handle whose link type it has no name
  for, and the debug log is on.\<close>

definition null_name_logged :: "'a main_env_scheme \<Rightarrow> ns_config_t \<Rightarrow> bool" where
  "null_name_logged env config \<longleftrightarrow> capture_asked config \<and> interface_known env config \<and> pcap_handle env config \<noteq> None \<and>
     env_datalink_name env (env_datalink env) = None \<and> cfg_log_level config = NS_LOG_DEBUG"

lemma device_named_mem: "device_named devs name \<longleftrightarrow> name \<in> dev_name ` set devs"
  by (induction devs) (auto simp: strcmp_str_eq_0)

lemma ns_capture_interface_exists_outcome:
  assumes "c_str b = Some name" "holds_resources w r_none"
  shows "\<exists>w'. ns_capture_interface_exists env b w =
      Some (case env_devices env of Inl msg \<Rightarrow> False | Inr devices \<Rightarrow> name \<in> dev_name ` set devices, w') \<and>
    sets_up w w' \<and> holds_resources w' r_none"
proof (cases "env_devices env")
  case (Inl msg)
  then show ?thesis
    using holds_sys [OF assms(2) steps_devices(1), of None] sets_up_sys [OF sets_up_refl]
    by (simp add: ns_capture_interface_exists_def r_none_def)
next
  case (Inr devices)
  let ?w = "sys (Pcap_findalldevs (Some (length devices))) w"
  have "holds_resources (sys Pcap_freealldevs ?w) r_none"
    by (rule holds_sys [OF holds_sys [OF assms(2) steps_devices(1)] steps_devices(2)])
  moreover have "sets_up w (sys Pcap_freealldevs ?w)" by (intro sets_up_sys sets_up_refl; simp)
  ultimately show ?thesis using Inr assms(1) by (simp add: ns_capture_interface_exists_def device_named_mem)
qed

lemma interface_known_outcome:
  assumes name: "c_str (cfg_interface config) = Some name" and w: "holds_resources w r_none"
  shows "\<exists>w1. (if cfg_input_mode config = NS_INPUT_LIVE then ns_capture_interface_exists env (cfg_interface config) w
      else Some (True, w)) = Some (interface_known env config, w1) \<and> sets_up w w1 \<and> holds_resources w1 r_none"
proof (cases "cfg_input_mode config = NS_INPUT_LIVE")
  case True
  with ns_capture_interface_exists_outcome [OF name w, of env] show ?thesis
    unfolding interface_known_def name option.sel by auto
next
  case False
  with sets_up_refl w show ?thesis by (simp add: interface_known_def)
qed

lemma ns_capture_list_interfaces_outcome:
  assumes "holds_resources w r_none"
  shows "\<exists>ok err w'. ns_capture_list_interfaces env b w = (ok, err, w') \<and> holds_resources w' r_none \<and>
    w_stderr w' = w_stderr w \<and> (ok \<longleftrightarrow> \<not> isl (env_devices env)) \<and> (\<not> ok \<longrightarrow> env_devices env = Inl err \<and> sets_up w w')"
proof (cases "env_devices env")
  case (Inl msg)
  then show ?thesis
    using holds_sys [OF assms steps_devices(1), of None] sets_up_sys [OF sets_up_refl]
    by (simp add: ns_capture_list_interfaces_def r_none_def sys_def) blast
next
  case (Inr devices)
  let ?w = "sys (Pcap_findalldevs (Some (length devices))) w"
  have "holds_resources ?w (r_none\<lparr> r_devices := (devices \<noteq> []) \<rparr>)" using holds_sys [OF assms steps_devices(1), of "Some (length devices)"] by simp
  then have r: "holds_resources (put_stdout s ?w) (r_none\<lparr> r_devices := (devices \<noteq> []) \<rparr>)" for s by simp
  have r2: "holds_resources (sys Pcap_freealldevs (put_stdout s ?w)) r_none" for s by (rule holds_sys [OF r steps_devices(2)])
  have e: "w_stderr (put_stdout s ?w) = w_stderr w" "w_stderr (sys Pcap_freealldevs (put_stdout s ?w)) = w_stderr w" for s
    by (simp_all add: put_stdout_def sys_def)
  show ?thesis
  proof (cases "devices = []")
    case True
    have "r_none\<lparr> r_devices := False \<rparr> = r_none" by (simp add: r_none_def)
    then have "holds_resources (put_stdout s ?w) r_none" for s using r [of s] True by simp
    with True Inr e(1) show ?thesis by (simp add: ns_capture_list_interfaces_def del: holds_updates) blast
  next
    case False
    with Inr e(2) r2 show ?thesis by (simp add: ns_capture_list_interfaces_def del: holds_updates) blast
  qed
qed

lemma main_parse_outcome:
  assumes "env_ok env argv"
  shows "\<exists>ok config err. main_parse env argv = Some (ok, config, err) \<and> length err = 512 \<and>
    (ok \<longrightarrow> config_buffers config \<and> cfg_log_level config = log_of (env_getopts env)) \<and> (\<not> ok \<longrightarrow> (\<exists>m. c_str err = Some m))"
proof -
  have "unat (512 :: size_t) = length (stack_buf 512)" "0 < length (stack_buf 512)" by (simp_all add: stack_buf_def)
  from ns_config_parse_run [OF _ _ _ this, of "env_getopts env" argv "env_optind env"] assms
  obtain ok config err where r: "main_parse env argv = Some (ok, config, err)"
    "ok \<longrightarrow> config_shows (env_getopts env) config \<and> err = stack_buf 512" "\<not> ok \<longrightarrow> message_in (stack_buf 512) err"
    unfolding env_ok_def by (elim conjE) blast
  then have "length err = 512" by (cases ok) (simp_all add: message_in_def stack_buf_def)
  moreover have "config_buffers config \<and> cfg_log_level config = log_of (env_getopts env)" if ok
  proof -
    have c: "config_shows (env_getopts env) config" using that r(2) by blast
    then have "config_values (env_getopts env) config" by (simp add: config_shows_def)
    then have "cfg_log_level config = log_of (env_getopts env)" unfolding config_values_def by (elim conjE)
    with config_shows_buffers [OF c] show ?thesis by blast
  qed
  moreover have "\<exists>m. c_str err = Some m" if "\<not> ok" using that r(3) by (simp add: message_in_def)
  ultimately show ?thesis using r(1) by blast
qed

lemma outcome_level [simp]:
  "complains (ns_log_set_level l w) w' = complains w w'"
  "ran_capture env config h d (ns_log_set_level l w) w' = ran_capture env config h d w w'"
  "main_outcome env config start (ns_log_set_level l w) res = main_outcome env config start w res"
proof -
  have f: "w_calls (ns_log_set_level l w) = w_calls w" "w_stdout (ns_log_set_level l w) = w_stdout w"
    "w_stderr (ns_log_set_level l w) = w_stderr w" "ns_stop_requested (ns_log_set_level l w) = ns_stop_requested w"
    by (simp_all add: ns_log_set_level_def)
  show c: "complains (ns_log_set_level l w) w' = complains w w'" for w' unfolding complains_def f ..
  show r: "ran_capture env config h d (ns_log_set_level l w) w' = ran_capture env config h d w w'" for h d w'
    unfolding ran_capture_def f c ..
  show "main_outcome env config start (ns_log_set_level l w) res = main_outcome env config start w res"
    unfolding main_outcome_def f c r ..
qed

text \<open>The part of \<open>main\<close> that captures.\<close>

lemma main_capture_outcome:
  fixes env :: "'a main_env_scheme"
  assumes ok: "env_ok env argv" and p: "main_parse env argv = Some (parsed, config, err)" and c: "parsed \<and> capture_asked config"
    and named: "\<not> null_name_logged env config"
  shows "\<exists>res. main env argv world0 = Some res \<and>
    main_outcome env config (if interface_known env config then main_start env config else None) world0 res"
proof -
  let ?w = "ns_log_set_level (cfg_log_level config) world0"
  from main_parse_outcome [OF ok] p c have config: "config_buffers config" "length err = 512"
    by auto
  obtain name where name: "c_str (cfg_interface config) = Some name" using config(1) by (simp add: config_buffers_def c_str_cut)
  have w: "holds_resources ?w r_none" using holds_world0 by simp
  obtain w1 where w1: "(if cfg_input_mode config = NS_INPUT_LIVE then ns_capture_interface_exists env (cfg_interface config) ?w
      else Some (True, ?w)) = Some (interface_known env config, w1)" "sets_up ?w w1" "holds_resources w1 r_none"
    using interface_known_outcome [OF name w] by blast
  obtain msg k m where msg: "snprintf (stack_buf 512) 0 512 (quote_msg ''interface '' name @ '' does not exist'') = Some (msg, k)"
    "c_str msg = Some m" using snprintf_terminated [of 512 "stack_buf 512"] by (force simp: stack_buf_def)
  have main: "main env argv world0 = (if interface_known env config then main_open env config err w1 else exit_error msg w1)"
    using p c w1(1) name msg(1) by (simp add: main_def capture_asked_def)
  have later: "main_outcome env config start world0 res" if "main_outcome env config start w1 res" for start res
    using main_outcome_later [OF w1(2) that] by simp
  have g: "g_capture_handle w1 = None" "g_log_level w1 = cfg_log_level config"
    using sets_up_same [OF w1(2)] by (simp_all add: ns_log_set_level_def world0_def)
  show ?thesis
  proof (cases "interface_known env config")
    case True
    then have "datalink_shown env (g_log_level w1)" if "pcap_handle env config \<noteq> None"
      using that named c g(2) by (auto simp: null_name_logged_def datalink_shown_def)
    moreover have "loop_ok env" using ok by (simp add: env_ok_def)
    ultimately show ?thesis using main_open_outcome [OF _ w1(3) g(1) config, of env] True main later by fastforce
  next
    case False
    with main_outcome_error [OF msg(2) w1(3), of env config] main later show ?thesis by fastforce
  qed
qed

text \<open>The other ends of \<open>main\<close>.\<close>

lemma main_other_outcome:
  assumes ok: "env_ok env argv" and p: "main_parse env argv = Some (parsed, config, err)" and c: "\<not> (parsed \<and> capture_asked config)"
  defines "zero \<equiv> parsed \<and> (cfg_show_help config \<or> cfg_show_version config \<or> \<not> isl (env_devices env))"
  shows "\<exists>w'. main env argv world0 = Some (if zero then 0 else 1, w') \<and> holds_resources w' r_none \<and> (\<not> zero \<longrightarrow> complains world0 w')"
proof -
  let ?w = "ns_log_set_level (cfg_log_level config) world0"
  have z: "holds_resources world0 r_none" by (rule holds_world0)
  consider "\<not> parsed" | "parsed" "cfg_show_help config \<or> cfg_show_version config"
    | "parsed" "\<not> cfg_show_help config" "\<not> cfg_show_version config" "cfg_list_interfaces config"
    using c by (auto simp: capture_asked_def)
  then show ?thesis
  proof cases
    case 1
    then obtain m where "c_str err = Some m" using main_parse_outcome [OF ok] p by auto
    from print_error_outcome [OF this, of world0] obtain s where s: "print_error program_name err world0 = Some (put_stderr (''netscope: '' @ m @ NL @ s) world0)"
      by blast
    let ?v = "put_stderr (quote_msg ''Try '' (program_name @ '' --help'') @ '' for usage.'' @ NL) (put_stderr (''netscope: '' @ m @ NL @ s) world0)"
    have "complains world0 ?v" unfolding complains_def
      by (intro exI [of _ "[]"] exI [of _ m] exI [of _ "s @ quote_msg ''Try '' (program_name @ '' --help'') @ '' for usage.'' @ NL"])
        (simp add: put_stderr_def)
    with 1 p s z show ?thesis by (simp add: main_def zero_def)
  next
    case 2
    with p z show ?thesis by (auto simp: main_def zero_def)
  next
    case 3
    have "holds_resources ?w r_none" using z by simp
    from ns_capture_list_interfaces_outcome [OF this, of env "stack_buf 256"]
    obtain listed pcap_err w1 where l: "ns_capture_list_interfaces env (stack_buf 256) ?w = (listed, pcap_err, w1)" "holds_resources w1 r_none"
      "w_stderr w1 = w_stderr ?w" "listed \<longleftrightarrow> \<not> isl (env_devices env)" "\<not> listed \<longrightarrow> env_devices env = Inl pcap_err \<and> sets_up ?w w1" by blast
    show ?thesis
    proof (cases listed)
      case True
      with 3 p l show ?thesis by (simp add: main_def zero_def)
    next
      case False
      then have "c_str pcap_err = Some (cut_nul pcap_err)" using l(5) ok by (intro c_str_cut) (simp add: env_ok_def)
      from exit_error_outcome [OF this, of w1] obtain w' where w': "exit_error pcap_err w1 = Some (1, w')" "complains w1 w'"
        "w' = w1\<lparr> w_stderr := w_stderr w' \<rparr>" by blast
      have "w_calls w' = w_calls w1" by (subst w'(3)) simp
      then have "holds_resources w' r_none" using l(2) by (simp add: holds_resources_def)
      moreover have "complains world0 w'" using w'(2) l(3) by (simp add: complains_def ns_log_set_level_def)
      ultimately show ?thesis using False 3 p l w'(1) by (simp add: main_def zero_def)
    qed
  qed
qed

subsection \<open>What is in a trace\<close>

text \<open>The packets written to the dump file, and the packets libpcap delivered.\<close>

definition dumped :: "sys_call list \<Rightarrow> (pcap_pkthdr \<times> bytes) list" where
  "dumped cs = List.map_filter (\<lambda>c. case c of Pcap_dump d header data \<Rightarrow> Some (header, data) | _ \<Rightarrow> None) cs"

definition delivered :: "loop_event list \<Rightarrow> (pcap_pkthdr \<times> bytes) list" where
  "delivered es = List.map_filter (\<lambda>e. case e of Packet header data \<Rightarrow> Some (header, data) | Interrupt \<Rightarrow> None) es"

lemma map_filter_append: "List.map_filter f (xs @ ys) = List.map_filter f xs @ List.map_filter f ys"
  by (simp add: map_filter_def)

lemma dumped_append: "dumped (cs @ cs') = dumped cs @ dumped cs'"
  by (simp add: dumped_def map_filter_append)

lemma dumped_setup: "list_all setup_call cs \<Longrightarrow> dumped cs = []"
  by (induction cs) (auto simp: dumped_def map_filter_simps setup_call_def split: sys_call.splits)

lemma dumped_loop: "dumped (loop_calls d g es) = (if d = None then [] else delivered es)"
  by (induction d g es rule: loop_calls.induct)
    (auto simp: dumped_def delivered_def map_filter_simps map_filter_append split: option.splits)

lemma end_calls_setup: "list_all setup_call (end_calls env h d f)"
  by (simp add: end_calls_def split: option.splits)

lemma dumped_run: "dumped (run_calls env h d f) = (if d = None then [] else delivered (env_loop env))"
proof -
  have "dumped (Pcap_loop h # cs) = dumped cs" for cs by (simp add: dumped_def map_filter_simps)
  then show ?thesis by (simp add: run_calls_def dumped_append dumped_loop dumped_setup [OF end_calls_setup])
qed

lemma ran_capture_dumped:
  assumes "ran_capture env config h d world0 w"
  shows "dumped (w_calls w) = (if d = None then [] else delivered (env_loop env))"
proof -
  obtain pre where "list_all setup_call pre" "w_calls w = pre @ run_calls env h d (output_to_file config)"
    using assms by (auto simp: ran_capture_def world0_def)
  then show ?thesis by (simp add: dumped_append dumped_setup dumped_run)
qed

lemma loop_ok_outputs:
  assumes "loop_ok env"
  shows "\<exists>outs. printed env config = concat outs \<and>
    list_all2 (\<lambda>p out. ns_output_packet (env_zone env) p (main_output_opts env config (output_to_file config)) = Some out) (main_packets env) outs"
proof -
  let ?f = "\<lambda>p. the (ns_output_packet (env_zone env) p (main_output_opts env config (output_to_file config)))"
  have "list_all2 (\<lambda>p out. ns_output_packet (env_zone env) p (main_output_opts env config (output_to_file config)) = Some out)
      (main_packets env) (map ?f (main_packets env))"
    using loop_ok_packets(2) [OF assms] printable_output by (fastforce simp: list_all2_conv_all_nth)
  then show ?thesis by (auto simp: printed_def)
qed

lemma main_start_dump: "main_start env config = Some (h, d) \<Longrightarrow> d = None \<longleftrightarrow> c_str (cfg_write_file config) = Some []"
  by (cases "env_dump_open env (the (c_str (cfg_write_file config)))")
    (auto simp: main_start_def start_dump_def split: bind_splits if_splits dest!: sym [of "Some _"])

lemma broken_loop: "Pcap_breakloop h' \<in> set (loop_calls d (Some h) es) \<longleftrightarrow> h' = h \<and> Interrupt \<in> set es"
  by (induction d "Some h" es rule: loop_calls.induct) (auto split: option.splits)

lemma setup_not_broken: "list_all setup_call cs \<Longrightarrow> Pcap_breakloop h \<notin> set cs"
  by (induction cs) (auto simp: setup_call_def)

text \<open>The loop is broken exactly by a signal that arrives while it runs, on the handle it runs on.\<close>

lemma ran_capture_broken:
  assumes "ran_capture env config h d world0 w"
  shows "Pcap_breakloop h' \<in> set (w_calls w) \<longleftrightarrow> h' = h \<and> Interrupt \<in> set (env_loop env)"
proof -
  obtain pre where "list_all setup_call pre" "w_calls w = pre @ run_calls env h d (output_to_file config)"
    using assms by (auto simp: ran_capture_def world0_def)
  then show ?thesis by (auto simp: run_calls_def broken_loop setup_not_broken setup_not_broken [OF end_calls_setup])
qed

text \<open>A run that gets to the loop.\<close>

lemma main_started_outcome:
  assumes "env_ok env argv" "main_parse env argv = Some (True, config, err)" "capture_asked config"
    and "interface_known env config" "main_start env config = Some (h, d)"
  obtains w where "main env argv world0 = Some (if env_loop_result env = -1 then 1 else 0, w)" "ran_capture env config h d world0 w" "holds_resources w r_none"
proof -
  have "env_datalink env = DLT_EN10MB"
    using assms(5) by (auto simp: main_start_def start_capture_def link_and_filter_ok_def split: bind_splits if_splits)
  then have "\<not> null_name_logged env config" using assms(1) by (simp add: null_name_logged_def env_ok_def)
  then obtain res where "main env argv world0 = Some res" "main_outcome env config (Some (h, d)) world0 res"
    using main_capture_outcome [OF assms(1,2)] assms(3-5) by auto
  with that show thesis by (cases res) (simp add: main_outcome_def loop_failed_def)
qed

subsection \<open>The unchecked link type name\<close>

text \<open>With a handle, opening comes down to its common end.\<close>

lemma main_open_handle:
  fixes env :: "'a main_env_scheme"
  assumes config: "config_buffers config" and h: "pcap_handle env config = Some h"
  shows "\<exists>b w2. g_log_level w2 = g_log_level w \<and> main_open env config err w = do {
      (opened, cap, err, w) \<leftarrow> open_rest env h (Some b) err 512 w2;
      if \<not> opened then exit_error err w else main_dump env config cap err w }"
proof -
  obtain b where b: "ns_filter_build_bpf (main_filter_spec config) (stack_buf 512) 512 = Some (True, b)"
    using main_filter_built [OF config] by blast
  obtain i r where s: "c_str (cfg_interface config) = Some i" "c_str (cfg_read_file config) = Some r"
    using config by (simp add: config_buffers_def c_str_cut)
  show ?thesis
  proof (cases "cfg_input_mode config = NS_INPUT_LIVE")
    case True
    then have e: "env_create env i = Inr h" "\<not> env_activate env < 0"
      using h s by (auto simp: pcap_handle_def split: sum.splits if_splits)
    let ?w = "sys (Pcap_activate h (env_activate env)) (sys (Pcap_set_timeout h NS_CAPTURE_TIMEOUT_MS) (sys (Pcap_set_promisc h 1)
      (sys (Pcap_set_snaplen h NS_CAPTURE_DEFAULT_SNAPLEN) (sys (Pcap_create i (Some h)) w))))"
    let ?m = "quote_msg ''pcap_activate warning on '' i @ '': '' @ env_statustostr env (env_activate env)"
    obtain w2 where w2: "(if env_activate env > 0 then ns_log NS_LOG_WARN (Some ?m) ?w else Some ?w) = Some w2" "sets_up ?w w2"
      using ns_log_if [of "env_activate env > 0" NS_LOG_WARN ?m ?w] by blast
    have "ns_capture_open_live env (cfg_interface config) (Some b) err 512 w = open_rest env h (Some b) err 512 w2"
      unfolding ns_capture_open_live_def Let_def s(1) e(1) Option.bind.bind_lunit sum.case w2(1) using e(2) by simp
    moreover have "g_log_level w2 = g_log_level w" using sets_up_same(3) [OF w2(2)] by (simp add: sys_def)
    ultimately show ?thesis using b True by (intro exI [of _ b] exI [of _ w2]) (simp add: main_open_def)
  next
    case False
    let ?w = "sys (Pcap_open_offline r (Some h)) w"
    have "ns_capture_open_offline env (cfg_read_file config) (Some b) err 512 w = open_rest env h (Some b) err 512 ?w"
      using h False s by (auto simp: pcap_handle_def ns_capture_open_offline_def split: sum.splits)
    then show ?thesis using b False by (intro exI [of _ b] exI [of _ ?w]) (simp add: main_open_def sys_def)
  qed
qed

text \<open>In debug mode a missing name is undefined behaviour; otherwise the link type is refused.\<close>

lemma open_rest_undefined:
  assumes "env_datalink_name env (env_datalink env) = None" "g_log_level w = NS_LOG_DEBUG"
  shows "open_rest env h b err n w = None"
  using assms by (simp add: open_rest_def resolve_link_type_def ns_log_def sys_def level_value_def)

lemma open_rest_refused:
  assumes "env_datalink_name env (env_datalink env) = None" "env_datalink env \<noteq> DLT_EN10MB" "g_log_level w \<noteq> NS_LOG_DEBUG"
    and "unat n = length err" "64 \<le> length err"
  shows "\<exists>q w'. open_rest env h b err n w = Some (False, ns_capture_zero, q, w') \<and> c_str q = Some ''unsupported datalink type: unknown''"
proof -
  obtain q k where "snprintf err 0 n (''unsupported datalink type: '' @ ''unknown'') = Some (q, k)"
    "c_str q = Some ''unsupported datalink type: unknown''"
    using snprintf_uncut [of n err "''unsupported datalink type: unknown''"] assms(4,5) by (auto simp: nul_free_def)
  moreover have "level_value (g_log_level w) < level_value NS_LOG_DEBUG"
    using assms(3) by (cases "g_log_level w") (simp_all add: level_value_def)
  ultimately show ?thesis using assms(1,2) by (simp add: open_rest_def resolve_link_type_def ns_log_def sys_def)
qed

lemma main_open_unnamed:
  fixes env :: "'a main_env_scheme"
  assumes config: "config_buffers config" and h: "pcap_handle env config = Some h" and n: "length err = 512"
    and name: "env_datalink_name env (env_datalink env) = None" and dlt: "env_datalink env \<noteq> DLT_EN10MB"
  shows "g_log_level w = NS_LOG_DEBUG \<Longrightarrow> main_open env config err w = None"
    "g_log_level w \<noteq> NS_LOG_DEBUG \<Longrightarrow> \<exists>w' e. main_open env config err w = Some (1, w') \<and>
      w_stderr w' = e @ ''netscope: unsupported datalink type: unknown'' @ NL"
proof -
  obtain b w2 where w2: "g_log_level w2 = g_log_level w" and main: "main_open env config err w = do {
      (opened, cap, err, w) \<leftarrow> open_rest env h (Some b) err 512 w2;
      if \<not> opened then exit_error err w else main_dump env config cap err w }"
    using main_open_handle [OF config h] by blast
  show "main_open env config err w = None" if "g_log_level w = NS_LOG_DEBUG"
    using main open_rest_undefined [OF name, of w2] that w2 by simp
  assume "g_log_level w \<noteq> NS_LOG_DEBUG"
  then obtain q w' where q: "open_rest env h (Some b) err 512 w2 = Some (False, ns_capture_zero, q, w')"
    "c_str q = Some ''unsupported datalink type: unknown''"
    using open_rest_refused [OF name dlt, of w2 512 err h "Some b"] n w2 by auto
  then have "main_open env config err w = Some (1, put_stderr (''netscope: unsupported datalink type: unknown'' @ NL) w')"
    using main by (simp add: exit_error_def print_error_def program_name_def)
  then show "\<exists>w' e. main_open env config err w = Some (1, w') \<and>
      w_stderr w' = e @ ''netscope: unsupported datalink type: unknown'' @ NL" by (auto simp: put_stderr_def)
qed

lemma main_unnamed:
  fixes env :: "'a main_env_scheme"
  assumes ok: "env_ok env argv" and p: "main_parse env argv = Some (True, config, err)" and c: "capture_asked config"
    and known: "interface_known env config" and h: "pcap_handle env config = Some h"
    and name: "env_datalink_name env (env_datalink env) = None"
  shows "cfg_log_level config = NS_LOG_DEBUG \<Longrightarrow> main env argv world0 = None"
    "cfg_log_level config \<noteq> NS_LOG_DEBUG \<Longrightarrow> \<exists>w e. main env argv world0 = Some (1, w) \<and>
      w_stderr w = e @ ''netscope: unsupported datalink type: unknown'' @ NL"
proof -
  let ?w = "ns_log_set_level (cfg_log_level config) world0"
  from main_parse_outcome [OF ok] p have config: "config_buffers config" "length err = 512" by auto
  obtain i where i: "c_str (cfg_interface config) = Some i" using config(1) by (simp add: config_buffers_def c_str_cut)
  have "holds_resources ?w r_none" using holds_world0 by simp
  then obtain w1 where w1: "(if cfg_input_mode config = NS_INPUT_LIVE then ns_capture_interface_exists env (cfg_interface config) ?w
      else Some (True, ?w)) = Some (True, w1)" "sets_up ?w w1"
    using interface_known_outcome [OF i, of ?w env] known by auto
  have lvl: "g_log_level w1 = cfg_log_level config" using sets_up_same(3) [OF w1(2)] by (simp add: ns_log_set_level_def)
  have main: "main env argv world0 = main_open env config err w1" using w1(1) p c by (simp add: main_def capture_asked_def)
  have "env_datalink env \<noteq> DLT_EN10MB" using ok name by (auto simp: env_ok_def)
  note unnamed = main_open_unnamed [OF config(1) h config(2) name this, of w1]
  show "cfg_log_level config = NS_LOG_DEBUG \<Longrightarrow> main env argv world0 = None"
    "cfg_log_level config \<noteq> NS_LOG_DEBUG \<Longrightarrow> \<exists>w e. main env argv world0 = Some (1, w) \<and>
      w_stderr w = e @ ''netscope: unsupported datalink type: unknown'' @ NL"
    using unnamed lvl main by simp_all
qed

text \<open>The runs of the program: the one with the missing name, a capture, and everything else.\<close>

lemma main_runs:
  fixes env :: "'a main_env_scheme"
  assumes "env_ok env argv" "main_parse env argv = Some (ok, config, err)"
  obtains (unnamed) "ok" "null_name_logged env config" "main env argv world0 = None"
  | (captured) res where "ok" "capture_asked config" "\<not> null_name_logged env config" "main env argv world0 = Some res"
      "main_outcome env config (if interface_known env config then main_start env config else None) world0 res"
  | (other) w where "\<not> (ok \<and> capture_asked config)"
      "main env argv world0 = Some (if ok \<and> (cfg_show_help config \<or> cfg_show_version config \<or> \<not> isl (env_devices env)) then 0 else 1, w)"
      "holds_resources w r_none" "\<not> (ok \<and> (cfg_show_help config \<or> cfg_show_version config \<or> \<not> isl (env_devices env))) \<longrightarrow> complains world0 w"
proof (cases "ok \<and> capture_asked config")
  case True
  show thesis
  proof (cases "null_name_logged env config")
    case named: True
    with True main_unnamed(1) [OF assms(1)] assms(2) have "main env argv world0 = None" by (auto simp: null_name_logged_def)
    with True named that(1) show thesis by blast
  next
    case False
    with main_capture_outcome [OF assms True] True that(2) show thesis by blast
  qed
next
  case False
  from main_other_outcome [OF assms False] that(3) [OF False] show thesis by blast
qed

text \<open>What a capture that ended without an error has shown, counted and dumped.\<close>

lemma ran_capture_shows:
  fixes env :: "'a main_env_scheme"
  assumes "env_ok env argv" "ran_capture env config h d world0 w" "main_start env config = Some (h, d)" "\<not> loop_failed env"
  shows "\<exists>outs st sum.
    list_all2 (\<lambda>p out. ns_output_packet (env_zone env) p (main_output_opts env config (output_to_file config)) = Some out)
      (packets_from NS_LINK_ETHERNET 0 (env_loop env)) outs \<and>
    stats_run ns_stats_init (packets_from NS_LINK_ETHERNET 0 (env_loop env)) = Some st \<and>
    ns_stats_print (env_qsort env) st (capture_seconds env) = Some sum \<and>
    w_stdout w = banner config @ (if output_to_file config then [] else concat outs) @
      (if cfg_show_stats config \<or> cfg_input_mode config = NS_INPUT_LIVE then sum else []) \<and>
    (output_to_file config \<longrightarrow> w_file w = concat outs) \<and>
    dumped (w_calls w) = (if c_str (cfg_write_file config) = Some [] then [] else delivered (env_loop env))"
proof -
  have ok: "loop_ok env" using assms(1) by (simp add: env_ok_def)
  have d: "dumped (w_calls w) = (if c_str (cfg_write_file config) = Some [] then [] else delivered (env_loop env))"
    using ran_capture_dumped [OF assms(2)] main_start_dump [OF assms(3)] by simp
  show ?thesis
    using assms(2,4) d loop_ok_outputs [OF ok, of config] loop_ok_summary [OF ok]
    by (auto simp: ran_capture_def world0_def wants_summary_def main_packets_def intro!: exI)
qed

subsection \<open>A sample run\<close>

text \<open>A live capture of one DNS query on \<open>eth0\<close>, written to a dump file and ended by Ctrl+C; with \<open>debug\<close>, the
  debug log is on and libpcap has no name for the link type.\<close>

definition live_options :: "bool \<Rightarrow> getopt_ret list" where
  "live_options debug =
     [\<lparr> go_c = opt_i, go_optarg = Some (literal ''eth0''), go_optopt = 0, go_optind = 3 \<rparr>,
      \<lparr> go_c = OPT_WRITE, go_optarg = Some (literal ''out.pcap''), go_optopt = 0, go_optind = 5 \<rparr>] @
     (if debug then [\<lparr> go_c = OPT_DEBUG, go_optarg = None, go_optopt = 0, go_optind = 5 \<rparr>] else [])"

definition live_argv :: "cbuf list" where
  "live_argv = map literal [''netscope'', ''-i'', ''eth0'', ''--write'', ''out.pcap'']"

definition live_env :: "bool \<Rightarrow> nat \<Rightarrow> loop_event list \<Rightarrow> main_env" where
  "live_env debug early events = \<lparr>
     env_devices = Inr [\<lparr> dev_name = ''eth0'', dev_description = None, dev_addresses = [Some (Sin 0x7F000001), None] \<rparr>],
     env_inet_ntop = (\<lambda>_. Some ''127.0.0.1''), env_create = (\<lambda>_. Inr 1), env_activate = 0, env_statustostr = (\<lambda>_. []),
     env_open_offline = (\<lambda>_. Inl ''no such file''), env_datalink = (if debug then 999 else 1),
     env_datalink_name = (\<lambda>n. if n = 1 then Some ''EN10MB'' else None), env_compile = (\<lambda>_. 0), env_setfilter = 0,
     env_dump_open = (\<lambda>_. Some 2), env_geterr = [], env_loop = events, env_loop_result = -2,
     env_getopts = live_options debug, env_optind = 5, env_isatty = (\<lambda>_. 0), env_fopen = (\<lambda>_. False), env_zone = (\<lambda>_. 3600),
     env_qsort = sort_cmp, env_clock_start = \<lparr> tv_sec = 10, tv_nsec = 0 \<rparr>, env_clock_end = \<lparr> tv_sec = 12, tv_nsec = 500000000 \<rparr>,
     env_early_signals = early, env_late_signals = 0 \<rparr>"

definition live_events :: "loop_event list" where
  "live_events = [Packet \<lparr> hdr_tv_sec = 0, hdr_tv_usec = 0, hdr_caplen = 64, hdr_len = 64 \<rparr> query_frame, Interrupt]"

lemma live_options_ok: "\<forall>r \<in> set (live_options debug). getopt_ok live_argv r" "\<forall>a \<in> set live_argv. NUL \<in> set a"
proof -
  have "opt_i \<in> fst ` set option_table" "OPT_WRITE \<in> fst ` set option_table" "OPT_DEBUG \<in> fst ` set option_table"
    "(OPT_DEBUG, True) \<notin> set option_table" by code_simp+
  then show "\<forall>r \<in> set (live_options debug). getopt_ok live_argv r" "\<forall>a \<in> set live_argv. NUL \<in> set a"
    by (simp_all add: live_options_def live_argv_def getopt_ok_def)
qed

lemma live_env_ok: "events \<in> {[], live_events} \<Longrightarrow> env_ok (live_env debug early events) live_argv"
  using live_options_ok sort_cmp.c_qsort_axioms
  by (auto simp: env_ok_def live_env_def loop_ok_def live_events_def event_dated_def query_frame_wf)

lemma live_config:
  obtains config where "main_parse (live_env debug early events) live_argv = Some (True, config, stack_buf 512)"
    "config_buffers config" "capture_asked config" "interface_known (live_env debug early events) config"
    "pcap_handle (live_env debug early events) config = Some 1" "\<not> debug \<Longrightarrow> main_start (live_env debug early events) config = Some (1, Some 2)"
    "cfg_input_mode config = NS_INPUT_LIVE" "c_str (cfg_write_file config) = Some ''out.pcap''" "\<not> output_to_file config"
    "debug \<Longrightarrow> cfg_log_level config = NS_LOG_DEBUG"
proof -
  let ?evs = "live_options debug" and ?env = "live_env debug early events"
  have "(\<forall>r \<in> set ?evs. acceptable r) \<and> config_rules live_argv 5 ?evs"
    by (cases debug) (simp_all add: live_options_def live_argv_def acceptable_def config_rules_def given_def simple_filter_def last_arg_def)
  moreover have "unat (512 :: size_t) = length (stack_buf 512)" "0 < length (stack_buf 512)" by (simp_all add: stack_buf_def)
  ultimately obtain config where c: "main_parse ?env live_argv = Some (True, config, stack_buf 512)" "config_shows ?evs config"
    using ns_config_parse_run [OF live_options_ok, of 5 512 "stack_buf 512" debug] by (auto simp: live_env_def)
  have o: "last_arg opt_i ?evs = Some ''eth0''" "last_arg OPT_WRITE ?evs = Some ''out.pcap''" "last_arg OPT_OUTPUT ?evs = None"
    "last_arg OPT_FORMAT ?evs = None" "\<not> given opt_h ?evs" "\<not> given OPT_VERSION ?evs" "\<not> given OPT_LIST_INTERFACES ?evs"
    "mode_of ?evs = NS_INPUT_LIVE" "debug \<Longrightarrow> log_of ?evs = NS_LOG_DEBUG"
    by (cases debug; simp add: live_options_def last_arg_def arg_text_def cut_nul_def given_def mode_of_def log_of_def)+
  have s: "c_str (cfg_interface config) = Some ''eth0''" "c_str (cfg_write_file config) = Some ''out.pcap''"
    "c_str (cfg_output_file config) = Some []" "cfg_input_mode config = NS_INPUT_LIVE" "cfg_format config = NS_FORMAT_TEXT"
    "\<not> cfg_show_help config" "\<not> cfg_show_version config" "\<not> cfg_list_interfaces config" "debug \<Longrightarrow> cfg_log_level config = NS_LOG_DEBUG"
    using c(2) o unfolding config_shows_def config_strings_def config_values_def by (elim conjE; simp add: shows_str_def)+
  have "capture_asked config" "interface_known ?env config" "pcap_handle ?env config = Some 1" "\<not> output_to_file config"
    "\<not> debug \<Longrightarrow> main_start ?env config = Some (1, Some 2)"
    using s by (simp_all add: capture_asked_def interface_known_def pcap_handle_def live_env_def output_to_file_def main_start_def
        start_capture_def start_dump_def start_stream_def link_and_filter_ok_def)
  with that c(1) config_shows_buffers [OF c(2)] s show thesis by blast
qed

end
