(* ===== verification/Spec2Isabelle.thy ===== *)
theory Spec2Isabelle
  imports NS_Hexdump NS_Stats_Print NS_Filter NS_Output NS_Config NS_Main_Run
begin

text \<open>
  A verification library for NetScope, a command-line packet analyzer in C17 over libpcap.

  \<^bold>\<open>The program.\<close> \<open>main\<close> (src/main.c) reads the command line (src/config.c), builds a capture filter
  (src/filter.c), opens an interface or a capture file and perhaps a dump file (src/capture.c), installs the
  signal handlers (src/signal_handler.c) and runs the capture loop. The loop hands every captured frame to
  \<open>pcap_packet_callback\<close>, which dumps it, decodes it with \<open>ns_packet_parse\<close> (src/packet.c and
  src/protocols/) and calls \<open>handle_packet\<close>, which counts it (src/stats.c) and prints it (src/output.c). At the
  end everything is closed and the summary is printed. src/util.c has the byte readers, the address printers, the
  byte counts and the hex dump; src/log.c the log.

  \<^bold>\<open>How the code is modelled.\<close> Every function of these files is a definition of the same name, every structure a
  record, every enumeration and tagged union a datatype. NS_Prelude and NS_CString fix the conventions: integers are
  words of their width (LP64, little endian: \<open>size_t\<close> has 64 bits and wraps); an object in memory is the
  list of its bytes or \<open>char\<close>s; the result of a function that may run into undefined behaviour is an
  \<open>option\<close>, and \<open>None\<close> is that behaviour: an access outside an object, a string without terminator, a variable
  or union member read before it was written, a null pointer printed. An out-parameter is a component of the
  result. So ``the result is \<open>Some\<close>'' is the claim that the code is free of such errors, and it is part of every
  exactness theorem. A function that prints returns or appends the characters it writes.

  \<^item> \<^bold>\<open>Decoding\<close>: NS_Util (readers and bounds checks), NS_Proto (the contract of a header parser: a locale that each
    parser instantiates), NS_Ethernet, NS_Arp, NS_Ipv4, NS_Ipv6, NS_Tcp, NS_Udp, NS_Icmp (the parsers), NS_Dns_Name,
    NS_Dns, NS_Dns_Message (names with compression, records, messages), NS_Packet (\<open>ns_packet_parse\<close> and its
    dispatch). Shown: no read outside the captured bytes whatever they are; the exact status of each parser; headers
    written by the standards' layouts are read back; the DNS decoder accepts exactly the names and messages of a
    declarative specification; the tags of a packet name the union member that is stored.
  \<^item> \<^bold>\<open>Text\<close>: NS_Format, NS_Format_Ipv6 (addresses, against RFC 5952), NS_Hexdump, NS_Double and NS_Format_Bytes
    (byte counts; doubles are signed rationals rounded to 53 bits), NS_Time (calendar time), NS_Output_Text, NS_Json and
    NS_Output. Shown: no buffer cuts what it should hold; the text line, the detailed block and the hex dump
    are given character by character (with the doubled fraction of the detailed block's time, a bug of the code, as such);
    the JSON line is read back by a JSON reader to the fields of the packet.
  \<^item> \<^bold>\<open>Statistics\<close>: NS_Probing (open addressing as a locale: the table refines a finite map), NS_Flow (its instance,
    the flow table), NS_Stats (the counters), NS_Stats_Print (the summary, over any \<open>qsort\<close> that keeps the C
    standard's promises). Shown: a run computes the numbers of packets of each kind and, for the first 1024
    conversations, their packets and bytes; the ten largest are shown in order.
  \<^item> \<^bold>\<open>Command line and filter\<close>: NS_Config, NS_Filter. Shown: which command lines are accepted, what the configuration then
    holds, and the text of the filter, with the cut of a long host name, a bug of the code, visible in it.
  \<^item> \<^bold>\<open>The process\<close>: NS_System (log.c, signal_handler.c, the shared state of the process with a trace of its calls to libpcap
    and the file functions, and an automaton over what is open), NS_Capture (capture.c; the contract of a packet callback is
    the locale \<open>packet_sink\<close>), NS_Main (main.c; \<open>handle_packet\<close> instantiates that contract), NS_Main_Run (what every
    run does). The properties of whole runs are in this theory: no run leaves a resource open or uses a closed one;
    the exit code; what a capture prints, counts and dumps; what a signal does. One run has undefined behaviour, and
    the theorems say which (\<open>null_name_logged\<close>): the debug log prints the name of a link type that has none.

  \<^bold>\<open>Parameters.\<close> Code outside the repository is an argument of the definitions that call it, with its documented
  behaviour as hypotheses: libpcap's answers (\<open>pcap_env\<close>) and the events of its loop, the results of
  \<open>getopt_long\<close> (\<open>getopt_ok\<close>), \<open>qsort\<close> (\<open>c_qsort\<close>), \<open>isatty\<close>, \<open>fopen\<close>, \<open>inet_ntop\<close>, the clock and the time
  zone. \<open>env_ok\<close> collects what a whole run assumes of them, and only that: \<open>getopt_long\<close> returns codes of the option
  table with the arguments they require, the error buffers are terminated, a packet has the captured length of its
  header, Ethernet has a name (libpcap may have none for any other link type), \<open>qsort\<close> sorts by a consistent comparison,
  and times are within \<open>2 ^ 54\<close> seconds of the epoch, which every 32-bit timestamp of a capture file is. Signals arrive at
  three places: after the handlers are installed (the handle is not published yet), between two events of the loop, and
  after the loop. A signal in the short window after \<open>ns_capture_run\<close> publishes the handle and before \<open>pcap_loop\<close> is
  taken as one before the first packet: it calls \<open>pcap_breakloop\<close> on the same open handle in both, but the trace
  then has that call after the call of \<open>pcap_loop\<close>.

  \<^bold>\<open>Bounds.\<close> Every loop of the code is a total function. Recursion is on the data, or on what the code itself counts
  (the bytes left, the 32 compression jumps, the eight extension headers, the 1024 slots). The only fuel is that of
  the JSON reader, a specification device: the length of the text is always enough, and that is proved.

  \<^bold>\<open>Not modelled.\<close> The Windows branches; failing writes to a stream (the code ignores the results of \<open>fprintf\<close> and
  \<open>fclose\<close>); signals that arrive inside a C statement rather than between the steps above; the digits that \<open>printf\<close>
  prints of a double beyond the rounding of NS_Double; tests, fuzzers and build files.
\<close>

section \<open>The whole program\<close>

text \<open>C2: no run of the program leaves anything open or uses what is not open, with one exception. For every
  command line, every content of the packets and every answer of libpcap and the operating system that their
  documentation allows (\<open>env_ok\<close>, with times within \<open>2 ^ 54\<close> seconds of the epoch), the command line is read
  without undefined behaviour, and then so is the rest of \<open>main\<close>, which exits with 0 or 1; the calls it makes are accepted by the resource automaton (handles are activated before they are used, a compiled filter is
  freed, a packet is dumped only to the open file, the signal handler breaks only a loop on an open handle, the
  dump file is closed before its handle), and at the end nothing is open. The exception is exact: when the debug
  log is on and libpcap has no name for the link type of the handle it opened, \<open>resolve_link_type\<close> prints a
  null pointer, which is undefined behaviour (reported as a bug of the code).\<close>

theorem main_releases_all:
  assumes "env_ok env argv"
  shows "\<exists>ok config err. main_parse env argv = Some (ok, config, err) \<and>
    (if ok \<and> null_name_logged env config then main env argv world0 = None
     else \<exists>c w. main env argv world0 = Some (c, w) \<and> c \<in> {0, 1} \<and> resource_run r_none (w_calls w) = Some r_none)"
proof -
  obtain ok config err where p: "main_parse env argv = Some (ok, config, err)" using main_parse_outcome [OF assms] by blast
  have "if ok \<and> null_name_logged env config then main env argv world0 = None
     else \<exists>c w. main env argv world0 = Some (c, w) \<and> c \<in> {0, 1} \<and> resource_run r_none (w_calls w) = Some r_none"
    using assms p
  proof (cases rule: main_runs)
    case unnamed
    then show ?thesis by simp
  next
    case (captured res)
    then show ?thesis by (cases res) (auto simp: main_outcome_def holds_resources_def split: option.splits)
  next
    case (other w)
    then show ?thesis unfolding holds_resources_def by (auto simp: null_name_logged_def split: if_splits)
  qed
  with p show ?thesis by blast
qed

theorem main_releases_all_witness:
  "\<exists>c w. main (live_env False 0 live_events) live_argv world0 = Some (c, w) \<and> resource_run r_none (w_calls w) = Some r_none"
proof -
  let ?env = "live_env False 0 live_events"
  have "env_ok ?env live_argv" "\<not> null_name_logged ?env config" for config
    by (simp_all add: live_env_ok) (simp add: live_env_def null_name_logged_def)
  with main_releases_all [of ?env live_argv] show ?thesis by auto
qed

text \<open>C4: the exit code, whatever libpcap and the operating system answer within \<open>env_ok\<close>. It is 0 exactly when the command line was accepted and either help or the version was asked
  for, or the interfaces could be listed, or the capture could be started (the interface exists, the handle
  opens, the link is Ethernet, the filter compiles, the dump and output files open) and the loop ended without
  an error; otherwise it is 1 and standard error has a message that starts with the program's name. The only
  run without an exit code is the one that prints a null pointer: the debug log is on and libpcap has no name for the
  link type of the handle it opened (reported as a bug of the code).\<close>

theorem main_exit_code:
  assumes "env_ok env argv" "main_parse env argv = Some (ok, config, err)"
  shows "if ok \<and> null_name_logged env config then main env argv world0 = None
    else \<exists>c w. main env argv world0 = Some (c, w) \<and>
      (c = 0 \<longleftrightarrow> ok \<and> (cfg_show_help config \<or> cfg_show_version config \<or>
         (if cfg_list_interfaces config then \<not> isl (env_devices env)
          else interface_known env config \<and> main_start env config \<noteq> None \<and> env_loop_result env \<noteq> -1))) \<and>
      (c \<noteq> 0 \<longrightarrow> c = 1 \<and> complains world0 w)"
using assms
proof (cases rule: main_runs)
  case unnamed
  then show ?thesis by simp
next
  case (captured res)
  then show ?thesis
    by (cases res) (auto simp: main_outcome_def capture_asked_def loop_failed_def ran_capture_def split: option.splits if_splits)
next
  case (other w)
  then show ?thesis by (auto simp: capture_asked_def null_name_logged_def split: if_splits)
qed

theorem main_exit_code_witness:
  "\<exists>w. main (live_env False 0 live_events) live_argv world0 = Some (0, w)"
proof (rule live_config [of False 0 live_events])
  fix config
  let ?env = "live_env False 0 live_events"
  assume c: "main_parse ?env live_argv = Some (True, config, stack_buf 512)" "capture_asked config"
    "interface_known ?env config" "\<not> False \<Longrightarrow> main_start ?env config = Some (1, Some 2)"
  have "env_ok ?env live_argv" "env_loop_result ?env = -2" "\<not> null_name_logged ?env config"
    by (simp_all add: live_env_ok) (simp_all add: live_env_def null_name_logged_def)
  with main_exit_code [of ?env, OF _ c(1)] c(2-4) show ?thesis by (fastforce simp: capture_asked_def)
qed

text \<open>C3: a capture from end to end. When the capture starts and the loop ends without an error, \<open>main\<close> exits
  with 0; every delivered packet has been decoded, numbered from 1, counted and printed, in order, to the chosen
  stream; standard output has the banner of a live text run before them and, for a live capture or with
  --stats, the summary of exactly these packets after them; and with --write every delivered packet, header
  and bytes as libpcap gave them, was dumped in order.\<close>

theorem main_capture_exact:
  assumes "env_ok env argv" "main_parse env argv = Some (True, config, err)" "capture_asked config"
    and "interface_known env config" "main_start env config = Some (h, d)" "env_loop_result env \<noteq> -1"
  shows "\<exists>w outs st sum. main env argv world0 = Some (0, w) \<and>
    list_all2 (\<lambda>p out. ns_output_packet (env_zone env) p (main_output_opts env config (output_to_file config)) = Some out)
      (packets_from NS_LINK_ETHERNET 0 (env_loop env)) outs \<and>
    stats_run ns_stats_init (packets_from NS_LINK_ETHERNET 0 (env_loop env)) = Some st \<and>
    ns_stats_print (env_qsort env) st (capture_seconds env) = Some sum \<and>
    w_stdout w = banner config @ (if output_to_file config then [] else concat outs) @
      (if cfg_show_stats config \<or> cfg_input_mode config = NS_INPUT_LIVE then sum else []) \<and>
    (output_to_file config \<longrightarrow> w_file w = concat outs) \<and>
    dumped (w_calls w) = (if c_str (cfg_write_file config) = Some [] then [] else delivered (env_loop env))"
proof -
  obtain w where "main env argv world0 = Some (0, w)" and r: "ran_capture env config h d world0 w"
    using main_started_outcome [OF assms(1-5)] assms(6) by auto
  with ran_capture_shows [OF assms(1) r assms(5)] assms(6) show ?thesis by (simp add: loop_failed_def)
qed

theorem main_capture_exact_witness:
  "\<exists>w outs sum config. main (live_env False 0 live_events) live_argv world0 = Some (0, w) \<and> length outs = 1 \<and>
     w_stdout w = banner config @ concat outs @ sum \<and>
     dumped (w_calls w) = [(\<lparr> hdr_tv_sec = 0, hdr_tv_usec = 0, hdr_caplen = 64, hdr_len = 64 \<rparr>, query_frame)]"
proof (rule live_config [of False 0 live_events])
  fix config
  let ?env = "live_env False 0 live_events"
  assume c: "main_parse ?env live_argv = Some (True, config, stack_buf 512)" "capture_asked config"
    "interface_known ?env config" "\<not> False \<Longrightarrow> main_start ?env config = Some (1, Some 2)" "c_str (cfg_write_file config) = Some ''out.pcap''"
    "cfg_input_mode config = NS_INPUT_LIVE" "\<not> output_to_file config"
  have e: "env_ok ?env live_argv" "env_loop_result ?env \<noteq> -1" "env_loop ?env = live_events"
    by (simp_all add: live_env_ok) (simp_all add: live_env_def)
  from main_capture_exact [OF e(1) c(1-3), of 1 "Some 2"] e(2) c(4)
  obtain w outs sum where "main ?env live_argv world0 = Some (0, w)" "length (packets_from NS_LINK_ETHERNET 0 (env_loop ?env)) = length outs"
    "w_stdout w = banner config @ concat outs @ sum" "dumped (w_calls w) = delivered (env_loop ?env)"
    using c(5-7) by (auto dest: list_all2_lengthD)
  then show ?thesis unfolding e(3) by (fastforce simp: delivered_def live_events_def map_filter_simps)
qed

text \<open>C5: Ctrl+C stops a capture without losing what was captured. A signal that arrives while the loop runs reaches
  \<open>pcap_breakloop\<close> on the handle of that loop and no other; when libpcap then ends the loop with -2, as it documents, the
  program exits with 0 after closing everything. Every packet that was delivered has been decoded and printed, in order,
  to the chosen stream, as \<open>ns_output_packet\<close> prints it; a live capture (and any capture with --stats) shows the summary of exactly these packets
  after them; and with --write they are all in the dump file.\<close>

theorem interrupt_stops:
  assumes "env_ok env argv" "main_parse env argv = Some (True, config, err)" "capture_asked config"
    and "interface_known env config" "main_start env config = Some (h, d)"
    and "Interrupt \<in> set (env_loop env)" "env_loop_result env = -2"
  shows "\<exists>w outs st sum. main env argv world0 = Some (0, w) \<and> Pcap_breakloop h \<in> set (w_calls w) \<and>
    (\<forall>h'. Pcap_breakloop h' \<in> set (w_calls w) \<longrightarrow> h' = h) \<and> resource_run r_none (w_calls w) = Some r_none \<and>
    list_all2 (\<lambda>p out. ns_output_packet (env_zone env) p (main_output_opts env config (output_to_file config)) = Some out)
      (packets_from NS_LINK_ETHERNET 0 (env_loop env)) outs \<and>
    stats_run ns_stats_init (packets_from NS_LINK_ETHERNET 0 (env_loop env)) = Some st \<and>
    ns_stats_print (env_qsort env) st (capture_seconds env) = Some sum \<and>
    w_stdout w = banner config @ (if output_to_file config then [] else concat outs) @
      (if cfg_show_stats config \<or> cfg_input_mode config = NS_INPUT_LIVE then sum else []) \<and>
    (output_to_file config \<longrightarrow> w_file w = concat outs) \<and>
    dumped (w_calls w) = (if c_str (cfg_write_file config) = Some [] then [] else delivered (env_loop env))"
proof -
  obtain w where r: "main env argv world0 = Some (0, w)" "ran_capture env config h d world0 w" "holds_resources w r_none"
    using main_started_outcome [OF assms(1-5)] unfolding assms(7) by auto
  have "Pcap_breakloop h \<in> set (w_calls w)" "\<forall>h'. Pcap_breakloop h' \<in> set (w_calls w) \<longrightarrow> h' = h"
    "resource_run r_none (w_calls w) = Some r_none"
    using ran_capture_broken [OF r(2)] r(3) assms(6) by (auto simp: holds_resources_def)
  moreover have "\<not> loop_failed env" using assms(7) by (simp add: loop_failed_def)
  note ran_capture_shows [OF assms(1) r(2) assms(5) this]
  ultimately show ?thesis using r(1) by (elim exE, intro exI) (intro conjI; elim conjE; assumption)
qed

theorem interrupt_stops_witness:
  "\<exists>w outs sum config. main (live_env False 0 live_events) live_argv world0 = Some (0, w) \<and> Pcap_breakloop 1 \<in> set (w_calls w) \<and>
     length outs = 1 \<and> w_stdout w = banner config @ concat outs @ sum"
proof (rule live_config [of False 0 live_events])
  fix config
  let ?env = "live_env False 0 live_events"
  assume c: "main_parse ?env live_argv = Some (True, config, stack_buf 512)" "capture_asked config"
    "interface_known ?env config" "\<not> False \<Longrightarrow> main_start ?env config = Some (1, Some 2)"
    "cfg_input_mode config = NS_INPUT_LIVE" "\<not> output_to_file config"
  have e: "env_ok ?env live_argv" "Interrupt \<in> set (env_loop ?env)" "env_loop_result ?env = -2" "env_loop ?env = live_events"
    by (simp_all add: live_env_ok) (simp_all add: live_env_def live_events_def)
  have "main_start ?env config = Some (1, Some 2)" using c(4) by simp
  from interrupt_stops [OF e(1) c(1-3) this e(2,3)]
  obtain w outs sum where "main ?env live_argv world0 = Some (0, w)" "Pcap_breakloop 1 \<in> set (w_calls w)"
    "length (packets_from NS_LINK_ETHERNET 0 (env_loop ?env)) = length outs" "w_stdout w = banner config @ concat outs @ sum"
    unfolding if_not_P [OF c(6)] if_P [OF disjI2, OF c(5)] by (elim exE conjE) (simp only: list_all2_lengthD)
  then show ?thesis unfolding e(4) by (fastforce simp: live_events_def)
qed

text \<open>C38: a signal that arrives between the installation of the handlers and the start of the loop is lost. It sets
  \<open>ns_stop_requested\<close>, which nothing reads: the loop is started all the same and is never broken, so a live
  capture goes on until the next signal.\<close>

theorem early_signal_lost:
  assumes "env_ok env argv" "main_parse env argv = Some (True, config, err)" "capture_asked config"
    and "interface_known env config" "main_start env config = Some (h, d)"
    and "0 < env_early_signals env" "Interrupt \<notin> set (env_loop env)"
  shows "\<exists>c w. main env argv world0 = Some (c, w) \<and> ns_stop_requested w \<and> Pcap_loop h \<in> set (w_calls w) \<and>
    (\<forall>h'. Pcap_breakloop h' \<notin> set (w_calls w))"
proof -
  obtain c w where r: "main env argv world0 = Some (c, w)" "ran_capture env config h d world0 w"
    using main_started_outcome [OF assms(1-5)] by blast
  then have "ns_stop_requested w" "Pcap_loop h \<in> set (w_calls w)" using assms(6) by (auto simp: ran_capture_def run_calls_def)
  with r ran_capture_broken [OF r(2)] assms(7) show ?thesis by blast
qed

theorem early_signal_lost_witness:
  "\<exists>c w. main (live_env False 1 []) live_argv world0 = Some (c, w) \<and> ns_stop_requested w \<and> Pcap_breakloop 1 \<notin> set (w_calls w)"
proof (rule live_config [of False 1 "[]"])
  fix config
  let ?env = "live_env False 1 []"
  assume c: "main_parse ?env live_argv = Some (True, config, stack_buf 512)" "capture_asked config"
    "interface_known ?env config" "\<not> False \<Longrightarrow> main_start ?env config = Some (1, Some 2)"
  have "env_ok ?env live_argv" "0 < env_early_signals ?env" "Interrupt \<notin> set (env_loop ?env)"
    by (simp_all add: live_env_ok) (simp_all add: live_env_def)
  with early_signal_lost [OF _ c(1-3), of 1 "Some 2"] c(4) show ?thesis by blast
qed

text \<open>C39: the name of the link type is printed in debug mode without a check. When libpcap opens the handle but has no
  name for its link type, and the log level is debug, the program passes a null pointer to \<^verbatim>\<open>%s\<close>, which is
  undefined behaviour; at any other log level the same run exits with 1 after the message that the link type is
  not supported, with ``unknown'' for its name.\<close>

theorem debug_unnamed_link_undefined:
  assumes "env_ok env argv" "main_parse env argv = Some (True, config, err)" "capture_asked config"
    and "interface_known env config" "pcap_handle env config = Some h"
    and "env_datalink_name env (env_datalink env) = None"
  shows "if cfg_log_level config = NS_LOG_DEBUG then main env argv world0 = None
    else \<exists>w e. main env argv world0 = Some (1, w) \<and>
      w_stderr w = e @ ''netscope: unsupported datalink type: unknown'' @ NL"
  using main_unnamed [OF assms] by simp

theorem debug_unnamed_link_undefined_witness:
  "main (live_env True 0 live_events) live_argv world0 = None"
proof (rule live_config [of True 0 live_events])
  fix config
  let ?env = "live_env True 0 live_events"
  assume c: "main_parse ?env live_argv = Some (True, config, stack_buf 512)" "capture_asked config"
    "interface_known ?env config" "pcap_handle ?env config = Some 1" "True \<Longrightarrow> cfg_log_level config = NS_LOG_DEBUG"
  have "env_datalink_name ?env (env_datalink ?env) = None" by (simp add: live_env_def)
  with debug_unnamed_link_undefined [OF live_env_ok c(1-4)] c(5) show ?thesis by simp
qed

end
